(* ===== verification/NG_Prelude.thy ===== *)
theory NG_Prelude
  imports Main "HOL-Library.List_Lexorder" "HOL-Library.Char_ord" "HOL-Library.Word"
begin

text \<open>
  The vocabulary the component theories share.

  \<^item> An exception of the C++ code is a value: \<open>error\<close> names the exception class and the fixed
    leading text of its message, and a fallible operation returns \<open>error + 'a\<close>.
  \<^item> \<open>std::map\<close> with the default comparison is an association list sorted by key
    (\<open>smap_ok\<close>), so that iterating it visits the keys in the order the code visits them;
    \<open>std::set\<close> is a sorted list without duplicates (\<open>sset_ok\<close>). The order on strings is
    the library's lexicographic order on bytes, which is what \<open>std::string::compare\<close> uses.
  \<^item> The locale \<open>ordered_map\<close> is the contract of \<open>std::map\<close> the components rely on; it is
    interpreted on the sorted association lists.
\<close>

section \<open>Errors and results\<close>

datatype exn_class =
    RuntimeError | InvalidArgument | LogicError | OutOfRange | TypeError | Cancelled | Overflow

datatype error = Error exn_class string

definition raise_error :: "exn_class \<Rightarrow> string \<Rightarrow> error + 'a" where
  "raise_error c msg = Inl (Error c msg)"

fun bind_result :: "'e + 'a \<Rightarrow> ('a \<Rightarrow> 'e + 'b) \<Rightarrow> 'e + 'b" where
  "bind_result (Inl e) f = Inl e"
| "bind_result (Inr x) f = f x"

fun map_result :: "('a \<Rightarrow> 'e + 'b) \<Rightarrow> 'a list \<Rightarrow> 'e + 'b list" where
  "map_result f [] = Inr []"
| "map_result f (x # xs) = bind_result (f x) (\<lambda>y. bind_result (map_result f xs) (\<lambda>ys. Inr (y # ys)))"

named_theorems ng_simps \<open>rewriting rules of the development that are too specific for the simpset\<close>

lemma raise_error_neq_Inr [simp]: "raise_error c m \<noteq> Inr x" "Inr x \<noteq> raise_error c m"
  by (simp_all add: raise_error_def)

lemma bind_result_eq_Inr [simp]:
  "bind_result m f = Inr y \<longleftrightarrow> (\<exists>x. m = Inr x \<and> f x = Inr y)"
  by (cases m) auto

lemma bind_result_assoc: "bind_result (bind_result m f) g = bind_result m (\<lambda>x. bind_result (f x) g)"
  by (cases m) auto

lemma bind_result_eq_Inl:
  "bind_result m f = Inl e \<longleftrightarrow> m = Inl e \<or> (\<exists>x. m = Inr x \<and> f x = Inl e)"
  by (cases m) auto

lemma map_result_Inr_iff:
  "map_result f xs = Inr ys \<longleftrightarrow> list_all2 (\<lambda>x y. f x = Inr y) xs ys"
  by (induction xs arbitrary: ys) (auto simp: list_all2_Cons1)

lemma map_result_length: "map_result f xs = Inr ys \<Longrightarrow> length ys = length xs"
  by (simp add: map_result_Inr_iff list_all2_lengthD)

section \<open>Ordered sets\<close>

abbreviation sset_ok :: "'a::linorder list \<Rightarrow> bool" where
  "sset_ok \<equiv> sorted_wrt (<)"

fun sset_insert :: "'a::linorder \<Rightarrow> 'a list \<Rightarrow> 'a list" where
  "sset_insert x [] = [x]"
| "sset_insert x (y # ys) =
     (if x < y then x # y # ys else if x = y then y # ys else y # sset_insert x ys)"

fun sset_union :: "'a::linorder list \<Rightarrow> 'a list \<Rightarrow> 'a list" where
  "sset_union acc [] = acc"
| "sset_union acc (x # xs) = sset_union (sset_insert x acc) xs"

definition sset_of :: "'a::linorder list \<Rightarrow> 'a list" where
  "sset_of xs = sset_union [] xs"

lemma set_sset_insert [simp]: "set (sset_insert x xs) = insert x (set xs)"
  by (induction xs) auto

lemma sset_ok_insert [simp]: "sset_ok xs \<Longrightarrow> sset_ok (sset_insert x xs)"
  by (induction xs) auto

lemma set_sset_union [simp]: "set (sset_union xs ys) = set xs \<union> set ys"
  by (induction ys arbitrary: xs) auto

lemma sset_ok_union [simp]: "sset_ok xs \<Longrightarrow> sset_ok (sset_union xs ys)"
  by (induction ys arbitrary: xs) auto

lemma set_sset_of [simp]: "set (sset_of xs) = set xs"
  by (simp add: sset_of_def)

lemma sset_ok_of [simp]: "sset_ok (sset_of xs)"
  by (simp add: sset_of_def)

lemma sset_ok_sorted: "sset_ok xs \<Longrightarrow> sorted xs"
  by (simp add: strict_sorted_iff)

lemma sset_ok_distinct: "sset_ok xs \<Longrightarrow> distinct xs"
  by (simp add: strict_sorted_iff)

lemma sset_eqI: "sset_ok xs \<Longrightarrow> sset_ok ys \<Longrightarrow> set xs = set ys \<Longrightarrow> xs = ys"
  by (simp add: strict_sorted_equal)

text \<open>\<open>std::sort\<close> followed by \<open>erase(unique(\<dots>))\<close>.\<close>

definition sort_unique :: "'a::linorder list \<Rightarrow> 'a list" where
  "sort_unique xs = remdups_adj (sort xs)"

lemma set_sort_unique [simp]: "set (sort_unique xs) = set xs"
  by (simp add: sort_unique_def)

lemma sset_ok_remdups_adj: "sorted xs \<Longrightarrow> sset_ok (remdups_adj xs)"
  by (induction xs rule: remdups_adj.induct) (auto simp: less_le)

lemma sset_ok_sort_unique [simp]: "sset_ok (sort_unique xs)"
  by (simp add: sort_unique_def sset_ok_remdups_adj)

lemma sort_unique_eq_sset_of: "sort_unique xs = sset_of xs"
  by (rule sset_eqI) simp_all

section \<open>Ordered maps\<close>

abbreviation smap_ok :: "('k::linorder \<times> 'v) list \<Rightarrow> bool" where
  "smap_ok m \<equiv> sset_ok (map fst m)"

fun smap_put :: "'k::linorder \<Rightarrow> 'v \<Rightarrow> ('k \<times> 'v) list \<Rightarrow> ('k \<times> 'v) list" where
  "smap_put k v [] = [(k, v)]"
| "smap_put k v ((k', v') # m) =
     (if k < k' then (k, v) # (k', v') # m
      else if k = k' then (k, v) # m
      else (k', v') # smap_put k v m)"

definition smap_erase :: "'k \<Rightarrow> ('k \<times> 'v) list \<Rightarrow> ('k \<times> 'v) list" where
  "smap_erase k m = filter (\<lambda>p. fst p \<noteq> k) m"

lemma smap_find_put [simp]: "map_of (smap_put k v m) = (map_of m)(k \<mapsto> v)"
  by (induction m) (auto simp: fun_eq_iff)

lemma smap_find_erase [simp]: "map_of (smap_erase k m) = (map_of m)(k := None)"
  by (induction m) (auto simp: smap_erase_def fun_eq_iff)

lemma smap_keys_put_list: "map fst (smap_put k v m) = sset_insert k (map fst m)"
  by (induction m) auto

lemma smap_keys_put [simp]: "fst ` set (smap_put k v m) = insert k (fst ` set m)"
  by (metis list.set_map set_sset_insert smap_keys_put_list)

lemma smap_put_not_Nil [simp]: "smap_put k v m \<noteq> []"
  using smap_keys_put[of k v m] by fastforce

lemma smap_ok_put [simp]: "smap_ok m \<Longrightarrow> smap_ok (smap_put k v m)"
  by (simp add: smap_keys_put_list)

lemma smap_ok_erase [simp]: "smap_ok m \<Longrightarrow> smap_ok (smap_erase k m)"
  by (simp add: smap_erase_def sorted_wrt_map sorted_wrt_filter)

lemma smap_keys_erase [simp]: "fst ` set (smap_erase k m) = fst ` set m - {k}"
  by (auto simp: smap_erase_def)

lemma smap_ok_distinct: "smap_ok m \<Longrightarrow> distinct (map fst m)"
  by (rule sset_ok_distinct)

lemma smap_mem_iff: "smap_ok m \<Longrightarrow> (k, v) \<in> set m \<longleftrightarrow> map_of m k = Some v"
  by (simp add: smap_ok_distinct)

lemma smap_set_put:
  assumes "smap_ok m"
  shows "set (smap_put k v m) = insert (k, v) {p \<in> set m. fst p \<noteq> k}"
proof -
  have "p \<in> set (smap_put k v m) \<longleftrightarrow> p \<in> insert (k, v) {p \<in> set m. fst p \<noteq> k}" for p
    using smap_mem_iff[of "smap_put k v m" "fst p" "snd p"] smap_mem_iff[of m "fst p" "snd p"] assms
    by (cases p) auto
  then show ?thesis by blast
qed

lemma length_sset_insert:
  "sset_ok xs \<Longrightarrow> length (sset_insert x xs) = (if x \<in> set xs then length xs else Suc (length xs))"
  by (induction xs) (auto split: if_splits)

lemma smap_length_put:
  "smap_ok m \<Longrightarrow> length (smap_put k v m) = (if k \<in> fst ` set m then length m else Suc (length m))"
  using length_sset_insert[of "map fst m" k] length_map[of fst "smap_put k v m"]
  by (auto simp: smap_keys_put_list split: if_splits)

lemma smap_eqI:
  assumes "smap_ok m" "smap_ok n" "map_of m = map_of n"
  shows "m = n"
proof -
  have "p \<in> set m \<longleftrightarrow> p \<in> set n" for p
    using smap_mem_iff[OF assms(1), of "fst p" "snd p"] smap_mem_iff[OF assms(2), of "fst p" "snd p"]
      assms(3) by simp
  then have eq: "set m = set n" by blast
  moreover have "inj_on fst (set m \<union> set n)"
    using assms(1) eq by (metis distinct_map smap_ok_distinct sup.idem)
  moreover have "sorted (map fst m)" "sorted (map fst n)"
    using assms by (simp_all add: sset_ok_sorted)
  moreover have "distinct (map fst m)" "distinct (map fst n)"
    using assms by (simp_all add: smap_ok_distinct)
  ultimately show ?thesis
    by (metis map_sorted_distinct_set_unique)
qed

text \<open>The contract of an ordered map, as its clients use it.\<close>

locale ordered_map =
  fixes find_key :: "'m \<Rightarrow> 'k \<Rightarrow> 'v option"
    and put_key :: "'k \<Rightarrow> 'v \<Rightarrow> 'm \<Rightarrow> 'm"
    and erase_key :: "'k \<Rightarrow> 'm \<Rightarrow> 'm"
    and invar :: "'m \<Rightarrow> bool"
  assumes find_put: "invar m \<Longrightarrow> find_key (put_key k v m) = (find_key m)(k \<mapsto> v)"
    and find_erase: "invar m \<Longrightarrow> find_key (erase_key k m) = (find_key m)(k := None)"
    and invar_put: "invar m \<Longrightarrow> invar (put_key k v m)"
    and invar_erase: "invar m \<Longrightarrow> invar (erase_key k m)"
    and find_ext: "invar m \<Longrightarrow> invar n \<Longrightarrow> find_key m = find_key n \<Longrightarrow> m = n"
begin

lemma put_put_same: "invar m \<Longrightarrow> put_key k v (put_key k w m) = put_key k v m"
  by (rule find_ext) (simp_all add: find_put invar_put)

lemma put_put_commute:
  "invar m \<Longrightarrow> k \<noteq> l \<Longrightarrow> put_key k v (put_key l w m) = put_key l w (put_key k v m)"
  by (rule find_ext) (auto simp: find_put invar_put fun_eq_iff)

lemma erase_put: "invar m \<Longrightarrow> find_key m k = None \<Longrightarrow> erase_key k (put_key k v m) = m"
  by (rule find_ext) (auto simp: find_put find_erase invar_put invar_erase fun_eq_iff)

lemma put_same_value: "invar m \<Longrightarrow> find_key m k = Some v \<Longrightarrow> put_key k v m = m"
  by (rule find_ext) (auto simp: find_put invar_put fun_eq_iff)

end

interpretation smap: ordered_map map_of smap_put smap_erase smap_ok
  by unfold_locales (auto intro: smap_eqI)

section \<open>Unsigned counters\<close>

type_synonym u64 = "64 word"

abbreviation u64_max :: u64 where
  "u64_max \<equiv> - 1"

text \<open>\<open>std::numeric_limits<int>::max()\<close>.\<close>

definition int_max :: int where
  "int_max = 2147483647"

definition u64_of_nat :: "nat \<Rightarrow> u64" where
  "u64_of_nat n = of_nat n"

end
