(* ===== verification/NG_Json.thy ===== *)
theory NG_Json
  imports NG_Prelude
begin

unbundle bit_operations_syntax

text \<open>
  JSON values as \<open>src/src/core/json.cpp\<close> handles them (a value of \<open>neograph::json\<close>, whose
  representation is a \<open>yyjson\<close> tree). An object is the list of its members in insertion order.
  The two integer subtypes of the representation are kept apart: \<open>JUint\<close> is an unsigned 64-bit
  number and \<open>JSint\<close> a signed one in two's complement. A floating-point number is its 64-bit
  pattern: the code modelled here only stores, copies and compares such numbers, and the
  comparison is by bits.
\<close>

section \<open>Values\<close>

datatype json =
    JNull
  | JBool bool
  | JUint u64
  | JSint u64
  | JReal u64
  | JString string
  | JArray "json list"
  | JObject "(string \<times> json) list"

fun is_null :: "json \<Rightarrow> bool" where
  "is_null JNull = True"
| "is_null _ = False"

fun is_number_integer :: "json \<Rightarrow> bool" where
  "is_number_integer (JUint _) = True"
| "is_number_integer (JSint _) = True"
| "is_number_integer _ = False"

fun is_number_unsigned :: "json \<Rightarrow> bool" where
  "is_number_unsigned (JUint _) = True"
| "is_number_unsigned _ = False"

fun is_string :: "json \<Rightarrow> bool" where
  "is_string (JString _) = True"
| "is_string _ = False"

fun is_array :: "json \<Rightarrow> bool" where
  "is_array (JArray _) = True"
| "is_array _ = False"

fun is_object :: "json \<Rightarrow> bool" where
  "is_object (JObject _) = True"
| "is_object _ = False"

fun json_size :: "json \<Rightarrow> nat" where
  "json_size (JArray xs) = length xs"
| "json_size (JObject m) = length m"
| "json_size (JString s) = length s"
| "json_size _ = 0"

definition json_empty :: "json \<Rightarrow> bool" where
  "json_empty j \<longleftrightarrow> json_size j = 0"

text \<open>The elements a range-based \<open>for\<close> over a value visits.\<close>

fun json_elems :: "json \<Rightarrow> json list" where
  "json_elems (JArray xs) = xs"
| "json_elems (JObject m) = map snd m"
| "json_elems _ = []"

text \<open>The members \<open>items()\<close> visits; the key of an array element is the empty string.\<close>

fun json_items :: "json \<Rightarrow> (string \<times> json) list" where
  "json_items (JObject m) = m"
| "json_items (JArray xs) = map (\<lambda>x. ([], x)) xs"
| "json_items _ = []"

section \<open>Access\<close>

text \<open>The const \<open>operator[]\<close>: a missing member reads as null.\<close>

fun json_get :: "json \<Rightarrow> string \<Rightarrow> json" where
  "json_get (JObject m) k = (case map_of m k of None \<Rightarrow> JNull | Some v \<Rightarrow> v)"
| "json_get _ k = JNull"

fun json_contains :: "json \<Rightarrow> string \<Rightarrow> bool" where
  "json_contains (JObject m) k = (map_of m k \<noteq> None)"
| "json_contains _ k = False"

fun json_at :: "json \<Rightarrow> string \<Rightarrow> error + json" where
  "json_at (JObject m) k =
     (case map_of m k of
        None \<Rightarrow> raise_error OutOfRange ''json::at: key not found''
      | Some v \<Rightarrow> Inr v)"
| "json_at _ k = raise_error TypeError ''json::at: not an object''"

fun json_at_index :: "json \<Rightarrow> nat \<Rightarrow> error + json" where
  "json_at_index (JArray xs) i =
     (if i < length xs then Inr (xs ! i)
      else raise_error OutOfRange ''json::at: index out of range'')"
| "json_at_index _ i = raise_error TypeError ''json::at: not an array''"

fun json_back :: "json \<Rightarrow> error + json" where
  "json_back (JArray xs) =
     (if xs = [] then raise_error OutOfRange ''json::back: empty array''
      else json_at_index (JArray xs) (length xs - 1))"
| "json_back _ = raise_error TypeError ''json::back: not an array''"

text \<open>
  Putting a member into an object replaces the first member with the key, drops later ones with
  the same key, and appends when there is none.
\<close>

fun obj_put :: "string \<Rightarrow> json \<Rightarrow> (string \<times> json) list \<Rightarrow> (string \<times> json) list" where
  "obj_put k v [] = [(k, v)]"
| "obj_put k v ((k', w) # m) =
     (if k = k' then (k, v) # filter (\<lambda>p. fst p \<noteq> k) m else (k', w) # obj_put k v m)"

text \<open>\<open>j[k] = v\<close>: a null becomes an object, and a value of another kind is left unchanged.\<close>

fun json_set :: "string \<Rightarrow> json \<Rightarrow> json \<Rightarrow> json" where
  "json_set k v JNull = JObject [(k, v)]"
| "json_set k v (JObject m) = JObject (obj_put k v m)"
| "json_set k v j = j"

fun json_erase :: "string \<Rightarrow> json \<Rightarrow> json" where
  "json_erase k (JObject m) = JObject (filter (\<lambda>p. fst p \<noteq> k) m)"
| "json_erase k j = j"

fun json_push_back :: "json \<Rightarrow> json \<Rightarrow> error + json" where
  "json_push_back (JArray xs) v = Inr (JArray (xs @ [v]))"
| "json_push_back JNull v = Inr (JArray [v])"
| "json_push_back _ v = raise_error TypeError ''json::push_back: not an array''"

section \<open>Conversions\<close>

fun get_string :: "json \<Rightarrow> error + string" where
  "get_string (JString s) = Inr s"
| "get_string _ = raise_error TypeError ''json::get<string>: not a string''"

fun get_bool :: "json \<Rightarrow> error + bool" where
  "get_bool (JBool b) = Inr b"
| "get_bool _ = raise_error TypeError ''json::get<bool>: not a bool''"

text \<open>
  \<open>get<long long>\<close> reads an unsigned number by \<open>static_cast\<close>, which keeps the bits. The
  conversion of a floating-point number is the parameter \<open>trunc\<close>.
\<close>

fun get_int64 :: "(u64 \<Rightarrow> int) \<Rightarrow> json \<Rightarrow> error + int" where
  "get_int64 trunc (JSint w) = Inr (sint w)"
| "get_int64 trunc (JUint w) = Inr (sint w)"
| "get_int64 trunc (JReal r) = Inr (trunc r)"
| "get_int64 trunc _ = raise_error TypeError ''json::get<long long>: not a number''"

fun get_uint64 :: "(u64 \<Rightarrow> u64) \<Rightarrow> json \<Rightarrow> error + u64" where
  "get_uint64 trunc (JUint w) = Inr w"
| "get_uint64 trunc (JSint w) = Inr w"
| "get_uint64 trunc (JReal r) = Inr (trunc r)"
| "get_uint64 trunc _ = raise_error TypeError ''json::get<unsigned long long>: not a number''"

text \<open>\<open>value(key, default)\<close>: the default when the member is missing, null or not convertible.\<close>

definition json_value :: "(json \<Rightarrow> error + 'a) \<Rightarrow> json \<Rightarrow> string \<Rightarrow> 'a \<Rightarrow> 'a" where
  "json_value conv j k d =
     (if \<not> is_object j then d
      else let child = json_get j k
           in if is_null child then d
              else case conv child of Inl _ \<Rightarrow> d | Inr v \<Rightarrow> v)"

section \<open>Equality\<close>

text \<open>
  \<open>operator==\<close>: objects compare by looking up each member of the left one in the right one, so
  member order does not matter; integers compare by value across the two subtypes. (For objects
  with repeated keys, which only a parsed text can contain, the representation's lookup resumes
  where the last one stopped; the model looks up the first member.)
\<close>

lemma size_zip_left [termination_simp]:
  "(a, b) \<in> set (zip xs ys) \<Longrightarrow> size a < Suc (size_list size xs)"
  by (meson le_imp_less_Suc order_refl set_zip_leftD size_list_estimation')

fun json_eq :: "json \<Rightarrow> json \<Rightarrow> bool" where
  "json_eq JNull JNull = True"
| "json_eq (JBool a) (JBool b) = (a = b)"
| "json_eq (JUint a) (JUint b) = (a = b)"
| "json_eq (JSint a) (JSint b) = (a = b)"
| "json_eq (JReal a) (JReal b) = (a = b)"
| "json_eq (JSint a) (JUint b) = (0 \<le> sint a \<and> a = b)"
| "json_eq (JUint a) (JSint b) = (0 \<le> sint b \<and> a = b)"
| "json_eq (JString a) (JString b) = (a = b)"
| "json_eq (JArray xs) (JArray ys) = (length xs = length ys \<and> list_all (\<lambda>(x, y). json_eq x y) (zip xs ys))"
| "json_eq (JObject m) (JObject n) =
     (length m = length n \<and>
      list_all (\<lambda>(k, x). case map_of n k of None \<Rightarrow> False | Some y \<Rightarrow> json_eq x y) m)"
| "json_eq _ _ = False"

section \<open>Laws\<close>

lemma obj_put_find [simp]: "map_of (obj_put k v m) = (map_of m)(k \<mapsto> v)"
proof (induction m)
  case (Cons p m)
  have "map_of (filter (\<lambda>p. fst p \<noteq> k) m) = (map_of m)(k := None)"
    using smap_find_erase[of k m] by (simp add: smap_erase_def)
  with Cons show ?case by (cases p) (auto simp: fun_eq_iff)
qed simp

lemma obj_put_keys: "set (map fst (obj_put k v m)) = insert k (set (map fst m))"
proof -
  have "dom (map_of (obj_put k v m)) = insert k (dom (map_of m))"
    by (simp only: obj_put_find dom_fun_upd) simp
  then show ?thesis by (simp only: dom_map_of_conv_image_fst set_map)
qed

lemma obj_put_distinct: "distinct (map fst m) \<Longrightarrow> distinct (map fst (obj_put k v m))"
proof (induction m)
  case (Cons p m)
  have keys: "fst ` set (obj_put k v m) = insert k (fst ` set m)"
    using obj_put_keys[of k v m] by simp
  show ?case
    using Cons by (cases p) (auto simp: keys distinct_map_filter)
qed simp

lemma obj_put_append: "k \<notin> fst ` set m \<Longrightarrow> obj_put k v m = m @ [(k, v)]"
  by (induction m) auto

text \<open>The laws a client of JSON objects uses.\<close>

lemma json_get_set_same [simp]: "is_object j \<or> is_null j \<Longrightarrow> json_get (json_set k v j) k = v"
  by (cases j) auto

lemma json_get_set_other [simp]: "k \<noteq> l \<Longrightarrow> json_get (json_set k v j) l = json_get j l"
  by (cases j) auto

lemma json_contains_set [simp]:
  "is_object j \<or> is_null j \<Longrightarrow> json_contains (json_set k v j) l \<longleftrightarrow> l = k \<or> json_contains j l"
  by (cases j) auto

lemma is_object_set [simp]: "is_object (json_set k v j) \<longleftrightarrow> is_object j \<or> is_null j"
  by (cases j) auto

lemma json_contains_erase [simp]: "json_contains (json_erase k j) l \<longleftrightarrow> l \<noteq> k \<and> json_contains j l"
  by (cases j) (auto simp: map_of_eq_None_iff)

lemma json_get_object_absent: "\<not> json_contains j k \<Longrightarrow> json_get j k = JNull"
  by (cases j) (auto split: option.splits)

lemma json_at_contains: "json_contains j k \<Longrightarrow> json_at j k = Inr (json_get j k)"
  by (cases j) (auto split: option.splits)

text \<open>Objects without repeated members, at every level.\<close>

fun json_wf :: "json \<Rightarrow> bool" where
  "json_wf (JArray xs) = list_all json_wf xs"
| "json_wf (JObject m) = (distinct (map fst m) \<and> list_all (\<lambda>(k, v). json_wf v) m)"
| "json_wf _ = True"

lemma json_eq_refl: "json_wf j \<Longrightarrow> json_eq j j"
proof (induction j rule: json_wf.induct)
  case (1 xs)
  then show ?case by (simp add: list_all_iff set_zip in_set_conv_nth) (metis nth_mem)
next
  case (2 m)
  then have d: "distinct (map fst m)" by simp
  have "case map_of m k of None \<Rightarrow> False | Some y \<Rightarrow> json_eq x y" if "(k, x) \<in> set m" for k x
  proof -
    have "map_of m k = Some x" using d that by simp
    moreover have "json_eq x x" using 2 that by (auto simp: list_all_iff)
    ultimately show ?thesis by simp
  qed
  then show ?case by (auto simp: list_all_iff)
qed simp_all

end
