(* ===== verification/NG_Types.thy ===== *)
theory NG_Types
  imports NG_Json
begin

text \<open>
  The value types of \<open>src/include/neograph/graph/types.h\<close> that the components exchange: channel
  writes, sends, commands and node results. \<open>'m\<close> is the type of provider messages, which the
  SchemaProvider SDK defines; the components here only carry such messages.
\<close>

datatype write_mode = Reduce | Overwrite

record 'm channel_write =
  cw_channel :: string
  cw_value :: json
  cw_mode :: write_mode
  cw_native :: "'m list option"

record send =
  target_node :: string
  send_input :: json
  source_node :: string

record 'm command =
  goto_node :: string
  updates :: "'m channel_write list"

record 'm node_result =
  nr_writes :: "'m channel_write list"
  nr_command :: "'m command option"
  nr_sends :: "send list"

datatype reducer_type = OVERWRITE | APPEND | CUSTOM

datatype retention_policy = Unbounded | Latest | Bounded

datatype persistence_policy = Checkpointed | Ephemeral

record lifecycle_policy =
  retention :: retention_policy
  retention_limit :: u64
  persistence :: persistence_policy

record channel_def =
  cd_name :: string
  cd_type :: reducer_type
  cd_reducer_name :: string
  cd_initial_value :: json
  cd_has_initial :: bool
  cd_retention :: retention_policy
  cd_retention_limit :: u64
  cd_persistence :: persistence_policy

text \<open>
  Checkpoints (\<open>src/include/neograph/graph/checkpoint.h\<close>). \<open>'n\<close> is the in-memory custody a
  checkpoint may carry (typed provider history), which is never read from JSON.
\<close>

datatype checkpoint_phase = Before | After | Completed | NodeInterrupt | Updated

fun phase_to_string :: "checkpoint_phase \<Rightarrow> string" where
  "phase_to_string Before = ''before''"
| "phase_to_string After = ''after''"
| "phase_to_string Completed = ''completed''"
| "phase_to_string NodeInterrupt = ''node_interrupt''"
| "phase_to_string Updated = ''updated''"

definition CHECKPOINT_SCHEMA_VERSION :: "32 word" where
  "CHECKPOINT_SCHEMA_VERSION = 4"

record 'n checkpoint =
  cp_id :: string
  cp_thread_id :: string
  cp_channel_values :: json
  cp_channel_versions :: json
  cp_parent_id :: string
  cp_current_node :: string
  cp_next_nodes :: "string list"
  cp_interrupt_phase :: checkpoint_phase
  cp_barrier_state :: "(string \<times> string list) list"
  cp_metadata :: json
  cp_native :: "'n option"
  cp_step :: int
  cp_timestamp :: int
  cp_schema_version :: "32 word"

end
