(* ===== verification/NG_Scheduler.thy ===== *)
theory NG_Scheduler
  imports NG_Types
begin

text \<open>
  The scheduler (\<open>src/src/core/scheduler.cpp\<close>): the routing oracle of a compiled graph. A
  \<open>scheduler\<close> holds the edges, the conditional edges, the barrier and join declarations, the
  failure edges and the registry of conditions; \<open>plan_impl\<close> turns the routing signals of one
  super-step into the ready set of the next one and the new barrier bookkeeping.

  The state a condition reads is a type parameter: the scheduler only hands it to condition
  functions, which the registry supplies. A condition may throw, so it returns a result.
\<close>

section \<open>Data\<close>

record edge =
  edge_from :: string
  edge_to :: string

record conditional_edge =
  ce_from :: string
  ce_condition :: string
  ce_routes :: "(string \<times> string) list"

record condition_spec =
  cs_labels :: "string list"
  cs_open :: bool

record 's registry =
  reg_condition :: "string \<Rightarrow> ('s \<Rightarrow> error + string) option"
  reg_condition_spec :: "string \<Rightarrow> condition_spec option"

record step_routing =
  node_name :: string
  command_goto :: "string option"

record next_step_plan =
  ready :: "string list"
  hit_end :: bool
  hit_explicit_end :: bool
  winning_command_goto :: "string option"

type_synonym barrier_state = "(string \<times> string list) list"
type_synonym barrier_specs = "(string \<times> string list) list"
type_synonym join_specs = "(string \<times> string list list) list"

record 's scheduler =
  edges :: "edge list"
  conditional_edges :: "conditional_edge list"
  barrier_specs :: barrier_specs
  join_specs :: join_specs
  failure_targets :: "(string \<times> string) list"
  registry :: "'s registry"

definition START_NODE :: string where
  "START_NODE = ''__start__''"

definition END_NODE :: string where
  "END_NODE = ''__end__''"

definition DEFAULT_ROUTE :: string where
  "DEFAULT_ROUTE = ''default''"

definition kLegacyDefaultRoute :: string where
  "kLegacyDefaultRoute = CHR 0x1F # ''neograph-legacy-default''"

section \<open>Routing of one node\<close>

definition failure_target :: "'s scheduler \<Rightarrow> string \<Rightarrow> string option" where
  "failure_target sch node = map_of (failure_targets sch) node"

definition outside_closed_contract :: "condition_spec option \<Rightarrow> string \<Rightarrow> bool" where
  "outside_closed_contract spec result =
     (case spec of None \<Rightarrow> False | Some sp \<Rightarrow> \<not> cs_open sp \<and> result \<notin> set (cs_labels sp))"

text \<open>The branch of \<open>resolve_next_nodes\<close> for a node with a conditional edge.\<close>

definition resolve_conditional :: "'s registry \<Rightarrow> conditional_edge \<Rightarrow> 's \<Rightarrow> error + string list" where
  "resolve_conditional reg ce state =
     (case reg_condition reg (ce_condition ce) of
        None \<Rightarrow> raise_error RuntimeError ''Unknown condition''
      | Some cond_fn \<Rightarrow>
          bind_result (cond_fn state) (\<lambda>result.
            let spec = reg_condition_spec reg (ce_condition ce);
                outside = outside_closed_contract spec result;
                exact = (if outside then None else map_of (ce_routes ce) result);
                legacy = map_of (ce_routes ce) kLegacyDefaultRoute;
                fallback = map_of (ce_routes ce) DEFAULT_ROUTE
            in case exact of
                 Some t \<Rightarrow> Inr [t]
               | None \<Rightarrow>
                   (case legacy of
                      Some t \<Rightarrow> Inr [t]
                    | None \<Rightarrow>
                        (case fallback of
                           Some t \<Rightarrow>
                             if \<not> outside \<and> (case spec of None \<Rightarrow> True | Some sp \<Rightarrow> cs_open sp)
                             then Inr [t]
                             else raise_error RuntimeError ''Conditional routing failed''
                         | None \<Rightarrow> raise_error RuntimeError ''Conditional routing failed''))))"

definition static_successors :: "'s scheduler \<Rightarrow> string \<Rightarrow> string list" where
  "static_successors sch current =
     map edge_to (filter (\<lambda>e. edge_from e = current) (edges sch))"

definition resolve_next_nodes :: "'s scheduler \<Rightarrow> string \<Rightarrow> 's \<Rightarrow> error + string list" where
  "resolve_next_nodes sch current state =
     (case find (\<lambda>ce. ce_from ce = current) (conditional_edges sch) of
        Some ce \<Rightarrow> resolve_conditional (registry sch) ce state
      | None \<Rightarrow>
          let successors = static_successors sch current
          in if successors = [] then Inr [END_NODE] else Inr successors)"

definition ends_implicitly :: "'s scheduler \<Rightarrow> string \<Rightarrow> bool" where
  "ends_implicitly sch node \<longleftrightarrow>
     (\<forall>ce \<in> set (conditional_edges sch). ce_from ce \<noteq> node) \<and>
     (\<forall>e \<in> set (edges sch). edge_from e \<noteq> node)"

definition plan_start_step :: "'s scheduler \<Rightarrow> string list" where
  "plan_start_step sch =
     map edge_to (filter (\<lambda>e. edge_from e = START_NODE \<and> edge_to e \<noteq> END_NODE) (edges sch))"

section \<open>Planning a super-step\<close>

definition empty_plan :: next_step_plan where
  "empty_plan = \<lparr>ready = [], hit_end = False, hit_explicit_end = False,
                 winning_command_goto = None\<rparr>"

text \<open>\<open>successors_of\<close>: a handled failure routes along its failure edge only.\<close>

definition successors_of ::
    "'s scheduler \<Rightarrow> 's \<Rightarrow> bool \<Rightarrow> step_routing \<Rightarrow> error + string list" where
  "successors_of sch state is_failed r =
     (if is_failed then
        (case failure_target sch (node_name r) of
           None \<Rightarrow> raise_error LogicError ''failed as handled but has no failure edge''
         | Some t \<Rightarrow> Inr [t])
      else resolve_next_nodes sch (node_name r) state)"

text \<open>The \<open>failed\<close> flag of each routing; a null or empty vector means that none failed.\<close>

definition failed_flags :: "bool list option \<Rightarrow> step_routing list \<Rightarrow> bool list" where
  "failed_flags failed routings =
     (case failed of
        None \<Rightarrow> replicate (length routings) False
      | Some fs \<Rightarrow> if fs = [] then replicate (length routings) False else fs)"

text \<open>Pass 1: the last routing that carries a \<open>Command.goto\<close> wins.\<close>

fun last_command_goto :: "string option \<Rightarrow> step_routing list \<Rightarrow> string option" where
  "last_command_goto acc [] = acc"
| "last_command_goto acc (r # rs) =
     last_command_goto (case command_goto r of None \<Rightarrow> acc | Some g \<Rightarrow> Some g) rs"

definition goto_plan :: "string \<Rightarrow> next_step_plan" where
  "goto_plan g =
     (if g = END_NODE
      then empty_plan\<lparr>winning_command_goto := Some g, hit_end := True, hit_explicit_end := True\<rparr>
      else empty_plan\<lparr>winning_command_goto := Some g, ready := [g]\<rparr>)"

text \<open>Reaching \<open>END_NODE\<close>, in either of the two loops over the routings.\<close>

definition mark_end :: "'s scheduler \<Rightarrow> string \<Rightarrow> next_step_plan \<Rightarrow> next_step_plan" where
  "mark_end sch node plan =
     plan\<lparr>hit_end := True,
          hit_explicit_end := hit_explicit_end plan \<or> \<not> ends_implicitly sch node\<rparr>"

text \<open>The inner loop over the successors of one routing, without barrier gating.\<close>

fun push_successors :: "'s scheduler \<Rightarrow> string \<Rightarrow> string list \<Rightarrow> next_step_plan \<Rightarrow> next_step_plan" where
  "push_successors sch node [] plan = plan"
| "push_successors sch node (n # ns) plan =
     push_successors sch node ns
       (if n = END_NODE then mark_end sch node plan else plan\<lparr>ready := ready plan @ [n]\<rparr>)"

fun plan_free ::
    "'s scheduler \<Rightarrow> 's \<Rightarrow> (bool \<times> step_routing) list \<Rightarrow> next_step_plan \<Rightarrow> error + next_step_plan" where
  "plan_free sch state [] plan = Inr (plan\<lparr>ready := sort_unique (ready plan)\<rparr>)"
| "plan_free sch state ((f, r) # rs) plan =
     bind_result (successors_of sch state f r) (\<lambda>ns.
       plan_free sch state rs (push_successors sch (node_name r) ns plan))"

text \<open>Pass 2: which upstreams signal which target in this super-step.\<close>

type_synonym signals = "(string \<times> string list) list"

definition add_signal :: "string \<Rightarrow> string \<Rightarrow> signals \<Rightarrow> signals" where
  "add_signal target source sg =
     smap_put target (sset_insert source (case map_of sg target of None \<Rightarrow> [] | Some ss \<Rightarrow> ss)) sg"

fun signal_successors ::
    "'s scheduler \<Rightarrow> string \<Rightarrow> string list \<Rightarrow> next_step_plan \<times> signals \<Rightarrow> next_step_plan \<times> signals" where
  "signal_successors sch node [] acc = acc"
| "signal_successors sch node (n # ns) (plan, sg) =
     signal_successors sch node ns
       (if n = END_NODE then (mark_end sch node plan, sg) else (plan, add_signal n node sg))"

fun collect_signals ::
    "'s scheduler \<Rightarrow> 's \<Rightarrow> (bool \<times> step_routing) list \<Rightarrow> next_step_plan \<times> signals \<Rightarrow>
     error + (next_step_plan \<times> signals)" where
  "collect_signals sch state [] acc = Inr acc"
| "collect_signals sch state ((f, r) # rs) acc =
     bind_result (successors_of sch state f r) (\<lambda>ns.
       collect_signals sch state rs (signal_successors sch (node_name r) ns acc))"

text \<open>Pass 3: barrier gating.\<close>

definition barrier_satisfied :: "string list \<Rightarrow> string list \<Rightarrow> bool" where
  "barrier_satisfied accum spec \<longleftrightarrow> list_all (\<lambda>s. s \<in> set accum) spec"

definition join_satisfied :: "string list \<Rightarrow> string list list \<Rightarrow> bool" where
  "join_satisfied accum slots \<longleftrightarrow> list_all (list_ex (\<lambda>s. s \<in> set accum)) slots"

definition gate_satisfied :: "'s scheduler \<Rightarrow> string \<Rightarrow> string list \<Rightarrow> bool" where
  "gate_satisfied sch target accum =
     (case map_of (barrier_specs sch) target of
        Some spec \<Rightarrow> barrier_satisfied accum spec
      | None \<Rightarrow>
          (case map_of (join_specs sch) target of
             Some slots \<Rightarrow> join_satisfied accum slots
           | None \<Rightarrow> True))"

definition is_barrier :: "'s scheduler \<Rightarrow> string \<Rightarrow> bool" where
  "is_barrier sch target \<longleftrightarrow>
     map_of (barrier_specs sch) target \<noteq> None \<or> map_of (join_specs sch) target \<noteq> None"

definition accumulated :: "barrier_state \<Rightarrow> string \<Rightarrow> string list" where
  "accumulated bs target = (case map_of bs target of None \<Rightarrow> [] | Some ss \<Rightarrow> ss)"

fun gate_targets ::
    "'s scheduler \<Rightarrow> signals \<Rightarrow> barrier_state \<Rightarrow> string list \<Rightarrow> string list \<times> barrier_state" where
  "gate_targets sch [] bs ready_set = (ready_set, bs)"
| "gate_targets sch ((target, signalers) # sg) bs ready_set =
     (if \<not> is_barrier sch target then gate_targets sch sg bs (sset_insert target ready_set)
      else
        let accum = sset_union (accumulated bs target) signalers
        in if gate_satisfied sch target accum
           then gate_targets sch sg (smap_put target [] bs) (sset_insert target ready_set)
           else gate_targets sch sg (smap_put target accum bs) ready_set)"

text \<open>
  \<open>plan_impl\<close>. \<open>None\<close> for the barrier state is the null pointer of the overloads without
  barrier bookkeeping. The caller's map is only changed by pass 3, which cannot throw, so an
  error leaves it as it was; the model returns the new map with the plan.
\<close>

definition plan_impl ::
    "'s scheduler \<Rightarrow> step_routing list \<Rightarrow> 's \<Rightarrow> barrier_state option \<Rightarrow> bool list option \<Rightarrow>
     error + (next_step_plan \<times> barrier_state option)" where
  "plan_impl sch routings state bstate failed =
     (if (case failed of None \<Rightarrow> False | Some fs \<Rightarrow> fs \<noteq> [] \<and> length fs \<noteq> length routings)
      then raise_error InvalidArgument ''Scheduler::plan_next_step: failed and routings size mismatch''
      else
        let flagged = zip (failed_flags failed routings) routings
        in case last_command_goto None routings of
             Some g \<Rightarrow> Inr (goto_plan g, bstate)
           | None \<Rightarrow>
               (case bstate of
                  None \<Rightarrow>
                    bind_result (plan_free sch state flagged empty_plan) (\<lambda>plan. Inr (plan, None))
                | Some bs \<Rightarrow>
                    if barrier_specs sch = [] \<and> join_specs sch = []
                    then bind_result (plan_free sch state flagged empty_plan) (\<lambda>plan. Inr (plan, Some bs))
                    else
                      bind_result (collect_signals sch state flagged (empty_plan, [])) (\<lambda>(plan, sg).
                        let (rs, bs') = gate_targets sch sg bs []
                        in Inr (plan\<lparr>ready := rs\<rparr>, Some bs'))))"

text \<open>The overloads of \<open>plan_next_step\<close>.\<close>

definition plan_next_step ::
    "'s scheduler \<Rightarrow> step_routing list \<Rightarrow> 's \<Rightarrow> error + next_step_plan" where
  "plan_next_step sch routings state =
     bind_result (plan_impl sch routings state None None) (\<lambda>(plan, _). Inr plan)"

definition plan_next_step_barrier ::
    "'s scheduler \<Rightarrow> step_routing list \<Rightarrow> 's \<Rightarrow> barrier_state \<Rightarrow>
     error + (next_step_plan \<times> barrier_state)" where
  "plan_next_step_barrier sch routings state bs =
     bind_result (plan_impl sch routings state (Some bs) None) (\<lambda>(plan, b).
       Inr (plan, case b of None \<Rightarrow> bs | Some bs' \<Rightarrow> bs'))"

definition plan_next_step_failed ::
    "'s scheduler \<Rightarrow> step_routing list \<Rightarrow> 's \<Rightarrow> barrier_state \<Rightarrow> bool list \<Rightarrow>
     error + (next_step_plan \<times> barrier_state)" where
  "plan_next_step_failed sch routings state bs failed =
     bind_result (plan_impl sch routings state (Some bs) (Some failed)) (\<lambda>(plan, b).
       Inr (plan, case b of None \<Rightarrow> bs | Some bs' \<Rightarrow> bs'))"

text \<open>\<open>zip_routings\<close>: a node result contributes a goto when its command has a nonempty target.\<close>

definition routing_of :: "string \<Rightarrow> 'm node_result \<Rightarrow> step_routing" where
  "routing_of node result =
     \<lparr>node_name = node,
      command_goto =
        (case nr_command result of
           None \<Rightarrow> None
         | Some c \<Rightarrow> if goto_node c = [] then None else Some (goto_node c))\<rparr>"

definition zip_routings :: "string list \<Rightarrow> 'm node_result list \<Rightarrow> error + step_routing list" where
  "zip_routings just_ran results =
     (if length just_ran \<noteq> length results
      then raise_error InvalidArgument ''Scheduler::plan_next_step: just_ran and results size mismatch''
      else Inr (map (\<lambda>(n, r). routing_of n r) (zip just_ran results)))"

definition plan_next_step_results ::
    "'s scheduler \<Rightarrow> string list \<Rightarrow> 'm node_result list \<Rightarrow> 's \<Rightarrow> barrier_state \<Rightarrow>
     error + (next_step_plan \<times> barrier_state)" where
  "plan_next_step_results sch just_ran results state bs =
     bind_result (zip_routings just_ran results) (\<lambda>routings.
       plan_next_step_barrier sch routings state bs)"

section \<open>What one super-step signals\<close>

definition step_signals ::
    "'s scheduler \<Rightarrow> 's \<Rightarrow> (bool \<times> step_routing) list \<Rightarrow> string \<Rightarrow> string set" where
  "step_signals sch state flagged t =
     {node_name r | f r ns. (f, r) \<in> set flagged \<and> successors_of sch state f r = Inr ns \<and> t \<in> set ns}"

definition explicit_end_signals ::
    "'s scheduler \<Rightarrow> 's \<Rightarrow> (bool \<times> step_routing) list \<Rightarrow> bool" where
  "explicit_end_signals sch state flagged \<longleftrightarrow>
     (\<exists>n \<in> step_signals sch state flagged END_NODE. \<not> ends_implicitly sch n)"

lemma step_signals_Nil [simp]: "step_signals sch state [] t = {}"
  by (simp add: step_signals_def)

lemma step_signals_Cons:
  assumes "successors_of sch state f r = Inr ns"
  shows "step_signals sch state ((f, r) # rs) t =
           (if t \<in> set ns then {node_name r} else {}) \<union> step_signals sch state rs t"
  using assms by (auto simp: step_signals_def)

lemma push_successors_props:
  "set (ready (push_successors sch node ns plan)) = set (ready plan) \<union> (set ns - {END_NODE})"
  "hit_end (push_successors sch node ns plan) \<longleftrightarrow> hit_end plan \<or> END_NODE \<in> set ns"
  "hit_explicit_end (push_successors sch node ns plan) \<longleftrightarrow>
     hit_explicit_end plan \<or> (END_NODE \<in> set ns \<and> \<not> ends_implicitly sch node)"
  "winning_command_goto (push_successors sch node ns plan) = winning_command_goto plan"
  by (induction sch node ns plan rule: push_successors.induct) (auto simp: mark_end_def)

lemma plan_free_spec:
  "plan_free sch state flagged plan0 = Inr plan \<Longrightarrow>
     sset_ok (ready plan) \<and>
     set (ready plan) = set (ready plan0) \<union> {t. t \<noteq> END_NODE \<and> step_signals sch state flagged t \<noteq> {}} \<and>
     (hit_end plan \<longleftrightarrow> hit_end plan0 \<or> step_signals sch state flagged END_NODE \<noteq> {}) \<and>
     (hit_explicit_end plan \<longleftrightarrow> hit_explicit_end plan0 \<or> explicit_end_signals sch state flagged) \<and>
     winning_command_goto plan = winning_command_goto plan0"
proof (induction sch state flagged plan0 rule: plan_free.induct)
  case (1 sch state plan)
  then show ?case by (auto simp: explicit_end_signals_def)
next
  case (2 sch state f r rs plan0)
  from "2.prems" obtain ns where ns: "successors_of sch state f r = Inr ns"
    and rec: "plan_free sch state rs (push_successors sch (node_name r) ns plan0) = Inr plan"
    by auto
  from "2.IH"[OF rec] show ?case
    by (auto simp: step_signals_Cons[OF ns] push_successors_props explicit_end_signals_def)
qed

definition signals_at :: "signals \<Rightarrow> string \<Rightarrow> string set" where
  "signals_at sg t = (case map_of sg t of None \<Rightarrow> {} | Some ss \<Rightarrow> set ss)"

lemma add_signal_props:
  "signals_at (add_signal t n sg) u = signals_at sg u \<union> (if u = t then {n} else {})"
  "fst ` set (add_signal t n sg) = insert t (fst ` set sg)"
  "smap_ok sg \<Longrightarrow> smap_ok (add_signal t n sg)"
  by (auto simp: add_signal_def signals_at_def split: option.splits)

lemma signal_successors_plan:
  "hit_end (fst (signal_successors sch node ns (plan, sg))) \<longleftrightarrow> hit_end plan \<or> END_NODE \<in> set ns"
  "hit_explicit_end (fst (signal_successors sch node ns (plan, sg))) \<longleftrightarrow>
     hit_explicit_end plan \<or> (END_NODE \<in> set ns \<and> \<not> ends_implicitly sch node)"
  "winning_command_goto (fst (signal_successors sch node ns (plan, sg))) = winning_command_goto plan"
  by (induction ns arbitrary: plan sg) (auto simp: mark_end_def)

lemma signal_successors_signals:
  "signals_at (snd (signal_successors sch node ns (plan, sg))) u =
     signals_at sg u \<union> (if u \<in> set ns - {END_NODE} then {node} else {})"
  by (induction ns arbitrary: plan sg) (auto simp: add_signal_props)

lemma signal_successors_keys:
  "fst ` set (snd (signal_successors sch node ns (plan, sg))) = fst ` set sg \<union> (set ns - {END_NODE})"
  by (induction ns arbitrary: plan sg) (auto simp: add_signal_props)

lemma signal_successors_ok:
  "smap_ok sg \<Longrightarrow> smap_ok (snd (signal_successors sch node ns (plan, sg)))"
  by (induction ns arbitrary: plan sg) (auto simp: add_signal_props)

lemma collect_signals_spec:
  "collect_signals sch state flagged (plan0, sg0) = Inr (plan, sg) \<Longrightarrow>
     (smap_ok sg0 \<longrightarrow> smap_ok sg) \<and>
     (\<forall>t. t \<noteq> END_NODE \<longrightarrow> signals_at sg t = signals_at sg0 t \<union> step_signals sch state flagged t) \<and>
     fst ` set sg = fst ` set sg0 \<union> {t. t \<noteq> END_NODE \<and> step_signals sch state flagged t \<noteq> {}} \<and>
     (hit_end plan \<longleftrightarrow> hit_end plan0 \<or> step_signals sch state flagged END_NODE \<noteq> {}) \<and>
     (hit_explicit_end plan \<longleftrightarrow> hit_explicit_end plan0 \<or> explicit_end_signals sch state flagged) \<and>
     winning_command_goto plan = winning_command_goto plan0"
proof (induction flagged arbitrary: plan0 sg0)
  case Nil
  then show ?case by (simp add: explicit_end_signals_def)
next
  case (Cons fr rs)
  obtain f r where fr: "fr = (f, r)" by (cases fr)
  from Cons.prems fr obtain ns where ns: "successors_of sch state f r = Inr ns"
    and rec: "collect_signals sch state rs (signal_successors sch (node_name r) ns (plan0, sg0)) = Inr (plan, sg)"
    by auto
  obtain plan1 sg1 where one: "signal_successors sch (node_name r) ns (plan0, sg0) = (plan1, sg1)"
    by fastforce
  note step = signal_successors_plan[of sch "node_name r" ns plan0 sg0]
    signal_successors_signals[of sch "node_name r" ns plan0 sg0]
    signal_successors_keys[of sch "node_name r" ns plan0 sg0]
    signal_successors_ok[of sg0 sch "node_name r" ns plan0]
  note ih = Cons.IH[OF rec[unfolded one]]
  show ?case
    using step ih unfolding one fr explicit_end_signals_def step_signals_Cons[OF ns]
    by (intro conjI) auto
qed

text \<open>The gate of a barrier or join, over sets of sources.\<close>

definition gate_holds :: "'s scheduler \<Rightarrow> string \<Rightarrow> string set \<Rightarrow> bool" where
  "gate_holds sch t A =
     (case map_of (barrier_specs sch) t of
        Some spec \<Rightarrow> set spec \<subseteq> A
      | None \<Rightarrow> (case map_of (join_specs sch) t of
                  Some slots \<Rightarrow> \<forall>slot \<in> set slots. set slot \<inter> A \<noteq> {}
                | None \<Rightarrow> True))"

lemma gate_satisfied_iff: "gate_satisfied sch t accum \<longleftrightarrow> gate_holds sch t (set accum)"
  by (auto simp: gate_satisfied_def gate_holds_def barrier_satisfied_def join_satisfied_def
      list_all_iff list_ex_iff split: option.splits)

lemma gate_holds_mono: "gate_holds sch t A \<Longrightarrow> A \<subseteq> B \<Longrightarrow> gate_holds sch t B"
  by (fastforce simp: gate_holds_def split: option.splits)

text \<open>A target fires when it is signalled and, if it is a barrier, its gate holds.\<close>

definition target_fires :: "'s scheduler \<Rightarrow> (string \<Rightarrow> string set) \<Rightarrow> (string \<Rightarrow> string set) \<Rightarrow> string \<Rightarrow> bool" where
  "target_fires sch acc sig t \<longleftrightarrow>
     t \<noteq> END_NODE \<and> sig t \<noteq> {} \<and> (is_barrier sch t \<longrightarrow> gate_holds sch t (acc t \<union> sig t))"

definition next_accumulated ::
    "'s scheduler \<Rightarrow> (string \<Rightarrow> string set) \<Rightarrow> (string \<Rightarrow> string set) \<Rightarrow> string \<Rightarrow> string set" where
  "next_accumulated sch acc sig t =
     (if is_barrier sch t \<and> t \<noteq> END_NODE \<and> sig t \<noteq> {}
      then (if target_fires sch acc sig t then {} else acc t \<union> sig t)
      else acc t)"

lemma signals_at_Cons [simp]:
  "signals_at ((u, ss) # sg) t = (if t = u then set ss else signals_at sg t)"
  by (simp add: signals_at_def)

lemma accumulated_put [simp]:
  "accumulated (smap_put u x bs) t = (if t = u then x else accumulated bs t)"
  by (simp add: accumulated_def)

lemma gate_targets_ready:
  "smap_ok sg \<Longrightarrow>
     t \<in> set (fst (gate_targets sch sg bs rdy)) \<longleftrightarrow>
       t \<in> set rdy \<or> (t \<in> fst ` set sg \<and> (is_barrier sch t \<longrightarrow>
            gate_holds sch t (set (accumulated bs t) \<union> signals_at sg t)))"
proof (induction sch sg bs rdy rule: gate_targets.induct)
  case (2 sch u ss sg bs rdy)
  have notin: "u \<notin> fst ` set sg" and ok: "smap_ok sg"
    using "2.prems" by auto
  show ?case
    using 2 ok notin by (cases "t = u") (simp_all add: Let_def gate_satisfied_iff)
qed simp

definition gate_next :: "'s scheduler \<Rightarrow> string \<Rightarrow> bool \<Rightarrow> string set \<Rightarrow> string set \<Rightarrow> string set" where
  "gate_next sch t signalled A S =
     (if signalled \<and> is_barrier sch t then (if gate_holds sch t (A \<union> S) then {} else A \<union> S) else A)"

lemma gate_targets_state:
  "smap_ok sg \<Longrightarrow>
     set (accumulated (snd (gate_targets sch sg bs rdy)) t) =
       gate_next sch t (t \<in> fst ` set sg) (set (accumulated bs t)) (signals_at sg t)"
proof (induction sch sg bs rdy rule: gate_targets.induct)
  case (1 sch bs rdy)
  then show ?case by (simp add: gate_next_def)
next
  case (2 sch u ss sg bs rdy)
  have notin: "u \<notin> fst ` set sg" and ok: "smap_ok sg"
    using "2.prems" by auto
  show ?case
  proof (cases "t = u")
    case True
    have frame: "gate_next sch u False A S = A" for A S by (simp add: gate_next_def)
    have new: "gate_next sch u True A S =
      (if is_barrier sch u then if gate_holds sch u (A \<union> S) then {} else A \<union> S else A)" for A S
      by (simp add: gate_next_def)
    show ?thesis using 2 ok notin True by (simp add: Let_def gate_satisfied_iff frame new)
  next
    case False
    then show ?thesis using 2 ok by (simp add: Let_def)
  qed
qed

lemma gate_targets_ok:
  "sset_ok rdy \<Longrightarrow> sset_ok (fst (gate_targets sch sg bs rdy))"
  "smap_ok bs \<Longrightarrow> smap_ok (snd (gate_targets sch sg bs rdy))"
  by (induction sch sg bs rdy rule: gate_targets.induct) (auto simp: Let_def)

section \<open>The plan of one super-step\<close>

text \<open>The signals a planning call acts on: none when a \<open>Command.goto\<close> takes over.\<close>

definition effective_signals ::
    "'s scheduler \<Rightarrow> step_routing list \<Rightarrow> 's \<Rightarrow> bool list option \<Rightarrow> string \<Rightarrow> string set" where
  "effective_signals sch routings state failed t =
     (if last_command_goto None routings \<noteq> None then {}
      else step_signals sch state (zip (failed_flags failed routings) routings) t)"

lemma no_gates_accumulate:
  "barrier_specs sch = [] \<Longrightarrow> join_specs sch = [] \<Longrightarrow> \<not> is_barrier sch t"
  by (simp add: is_barrier_def)

lemma empty_plan_simps [simp]:
  "ready empty_plan = []" "hit_end empty_plan = False" "hit_explicit_end empty_plan = False"
  "winning_command_goto empty_plan = None"
  by (simp_all add: empty_plan_def)

lemma plan_impl_no_goto:
  assumes plan: "plan_impl sch routings state (Some bs) failed = Inr (plan, bs')"
    and no_goto: "last_command_goto None routings = None"
  defines "sig \<equiv> step_signals sch state (zip (failed_flags failed routings) routings)"
    and "acc \<equiv> (\<lambda>t. set (accumulated bs t))"
  shows "sset_ok (ready plan) \<and> set (ready plan) = {t. target_fires sch acc sig t} \<and>
         (hit_end plan \<longleftrightarrow> sig END_NODE \<noteq> {}) \<and>
         (hit_explicit_end plan \<longleftrightarrow> explicit_end_signals sch state (zip (failed_flags failed routings) routings)) \<and>
         winning_command_goto plan = None \<and>
         (\<exists>bs''. bs' = Some bs'' \<and> (smap_ok bs \<longrightarrow> smap_ok bs'') \<and>
                (\<forall>t. set (accumulated bs'' t) = next_accumulated sch acc sig t))"
proof (cases "barrier_specs sch = [] \<and> join_specs sch = []")
  case True
  with plan no_goto have free: "plan_free sch state (zip (failed_flags failed routings) routings) empty_plan = Inr plan"
    and bs': "bs' = Some bs"
    by (auto simp: plan_impl_def Let_def raise_error_def split: if_splits)
  from plan_free_spec[OF free] no_gates_accumulate[of sch] True bs' show ?thesis
    by (auto simp: sig_def acc_def target_fires_def next_accumulated_def)
next
  case False
  with plan no_goto obtain plan1 sg where
    coll: "collect_signals sch state (zip (failed_flags failed routings) routings) (empty_plan, []) = Inr (plan1, sg)"
    and eq: "plan = plan1\<lparr>ready := fst (gate_targets sch sg bs [])\<rparr>"
            "bs' = Some (snd (gate_targets sch sg bs []))"
    by (auto simp: plan_impl_def Let_def raise_error_def case_prod_beta split: if_splits)
  from collect_signals_spec[OF coll] have ok: "smap_ok sg"
    and sigs: "\<And>t. t \<noteq> END_NODE \<Longrightarrow> signals_at sg t = sig t"
    and keys: "fst ` set sg = {t. t \<noteq> END_NODE \<and> sig t \<noteq> {}}"
    and flags: "hit_end plan1 \<longleftrightarrow> sig END_NODE \<noteq> {}"
      "hit_explicit_end plan1 \<longleftrightarrow> explicit_end_signals sch state (zip (failed_flags failed routings) routings)"
      "winning_command_goto plan1 = None"
    by (simp_all add: sig_def signals_at_def)
  have "set (ready plan) = {t. target_fires sch acc sig t}"
    using gate_targets_ready[OF ok, of _ sch bs "[]"] sigs
    by (auto simp: eq keys target_fires_def acc_def)
  moreover have "set (accumulated (snd (gate_targets sch sg bs [])) t) = next_accumulated sch acc sig t" for t
    using gate_targets_state[OF ok, of sch bs "[]" t] sigs[of t]
    by (auto simp: keys gate_next_def target_fires_def next_accumulated_def acc_def)
  ultimately show ?thesis
    using flags gate_targets_ok[where sch = sch and sg = sg and bs = bs and rdy = "[]"] by (auto simp: eq)
qed

lemma plan_impl_goto:
  assumes "plan_impl sch routings state (Some bs) failed = Inr (plan, bs')"
    and "last_command_goto None routings = Some g"
  shows "plan = goto_plan g \<and> bs' = Some bs"
  using assms by (auto simp: plan_impl_def Let_def raise_error_def split: if_splits)

lemma plan_barrier_iff:
  "plan_next_step_failed sch routings state bs failed = Inr (plan, bs') \<longleftrightarrow>
     plan_impl sch routings state (Some bs) (Some failed) = Inr (plan, Some bs')"
proof -
  have "b \<noteq> None" if "plan_impl sch routings state (Some bs) (Some failed) = Inr (p, b)" for p b
    using that
    by (auto simp: plan_impl_def Let_def raise_error_def case_prod_beta split: if_splits option.splits)
  then show ?thesis
    by (fastforce simp: plan_next_step_failed_def split: option.splits)
qed

lemma collect_signals_resolves:
  "collect_signals sch state flagged acc = Inr res \<Longrightarrow> (f, r) \<in> set flagged \<Longrightarrow>
     \<exists>ns. successors_of sch state f r = Inr ns"
proof (induction flagged arbitrary: acc)
  case (Cons fr rs)
  obtain ns where ns: "successors_of sch state (fst fr) (snd fr) = Inr ns"
    and rest: "collect_signals sch state rs
      (signal_successors sch (node_name (snd fr)) ns acc) = Inr res"
    using Cons.prems(1) by (cases fr) auto
  show ?case using Cons.IH[OF rest] Cons.prems(2) ns by (cases fr) auto
qed simp

lemma plan_free_resolves:
  "plan_free sch state flagged p = Inr res \<Longrightarrow> (f, r) \<in> set flagged \<Longrightarrow>
     \<exists>ns. successors_of sch state f r = Inr ns"
proof (induction flagged arbitrary: p)
  case (Cons fr rs)
  then show ?case by (cases fr) auto
qed simp

lemma plan_impl_resolves:
  assumes "plan_impl sch routings state (Some bs) failed = Inr res"
    and "last_command_goto None routings = None"
    and "(f, r) \<in> set (zip (failed_flags failed routings) routings)"
  shows "\<exists>ns. successors_of sch state f r = Inr ns"
  using assms
  by (auto simp: plan_impl_def Let_def raise_error_def case_prod_beta split: if_splits
      intro: collect_signals_resolves plan_free_resolves)

section \<open>Sequences of super-steps\<close>

text \<open>
  The engine owns the barrier map and threads it through the planning calls of a run. A call is
  the routings of one super-step, the state the conditions read, and the handled-failure flags.
\<close>

type_synonym 's plan_call = "step_routing list \<times> 's \<times> bool list"

fun plan_run ::
    "'s scheduler \<Rightarrow> barrier_state \<Rightarrow> 's plan_call list \<Rightarrow> error + (next_step_plan list \<times> barrier_state)" where
  "plan_run sch bs [] = Inr ([], bs)"
| "plan_run sch bs ((routings, state, failed) # calls) =
     bind_result (plan_next_step_failed sch routings state bs failed) (\<lambda>(p, bs').
       bind_result (plan_run sch bs' calls) (\<lambda>(ps, bs'').
         Inr (p # ps, bs'')))"

definition call_signals :: "'s scheduler \<Rightarrow> 's plan_call \<Rightarrow> string \<Rightarrow> string set" where
  "call_signals sch c t =
     (case c of (routings, state, failed) \<Rightarrow> effective_signals sch routings state (Some failed) t)"

definition call_goto :: "'s plan_call \<Rightarrow> bool" where
  "call_goto c \<longleftrightarrow> last_command_goto None (fst c) \<noteq> None"

text \<open>A super-step in which a barrier fired because its gate held.\<close>

definition gate_fired :: "'s plan_call \<Rightarrow> next_step_plan \<Rightarrow> string \<Rightarrow> bool" where
  "gate_fired c p t \<longleftrightarrow> \<not> call_goto c \<and> t \<in> set (ready p)"

lemma plan_call_step:
  assumes "plan_next_step_failed sch routings state bs failed = Inr (p, bs')"
    and t: "is_barrier sch t" "t \<noteq> END_NODE"
  defines "c \<equiv> (routings, state, failed)"
  shows "gate_fired c p t \<longleftrightarrow>
           call_signals sch c t \<noteq> {} \<and> gate_holds sch t (set (accumulated bs t) \<union> call_signals sch c t)"
    and "set (accumulated bs' t) =
           (if gate_fired c p t then {} else set (accumulated bs t) \<union> call_signals sch c t)"
proof -
  have plan: "plan_impl sch routings state (Some bs) (Some failed) = Inr (p, Some bs')"
    using assms(1) by (simp add: plan_barrier_iff)
  have "(gate_fired c p t \<longleftrightarrow>
           call_signals sch c t \<noteq> {} \<and> gate_holds sch t (set (accumulated bs t) \<union> call_signals sch c t)) \<and>
        set (accumulated bs' t) =
           (if gate_fired c p t then {} else set (accumulated bs t) \<union> call_signals sch c t)"
  proof (cases "last_command_goto None routings")
    case None
    from plan_impl_no_goto[OF plan None] t None show ?thesis
      by (auto simp: c_def gate_fired_def call_goto_def call_signals_def effective_signals_def
          target_fires_def next_accumulated_def)
  next
    case (Some g)
    from plan_impl_goto[OF plan Some] Some show ?thesis
      by (auto simp: c_def gate_fired_def call_goto_def call_signals_def effective_signals_def)
  qed
  then show "gate_fired c p t \<longleftrightarrow>
           call_signals sch c t \<noteq> {} \<and> gate_holds sch t (set (accumulated bs t) \<union> call_signals sch c t)"
    and "set (accumulated bs' t) =
           (if gate_fired c p t then {} else set (accumulated bs t) \<union> call_signals sch c t)" by blast+
qed

lemma plan_run_append:
  "plan_run sch bs (cs @ ds) =
     bind_result (plan_run sch bs cs) (\<lambda>(ps, bs').
       bind_result (plan_run sch bs' ds) (\<lambda>(qs, bs''). Inr (ps @ qs, bs'')))"
proof (induction sch bs cs rule: plan_run.induct)
  case (1 sch bs)
  then show ?case by (cases "plan_run sch bs ds") auto
next
  case (2 sch bs routings state failed calls)
  show ?case
  proof (cases "plan_next_step_failed sch routings state bs failed")
    case (Inr pb)
    obtain p b where pb: "pb = (p, b)" by (cases pb)
    show ?thesis
      using 2[of b] Inr pb
      by (simp add: bind_result_assoc case_prod_beta)
  qed simp
qed

lemma plan_run_length: "plan_run sch bs cs = Inr (ps, bs') \<Longrightarrow> length ps = length cs"
  by (induction sch bs cs arbitrary: ps bs' rule: plan_run.induct) auto

text \<open>What a barrier holds after a run: the signals since the last super-step in which it fired.\<close>

lemma run_window:
  assumes "plan_run sch bs cs = Inr (ps, bs')" and "accumulated bs t = []"
    and t: "is_barrier sch t" "t \<noteq> END_NODE"
  shows "\<exists>j \<le> length cs. set (accumulated bs' t) = (\<Union>i \<in> {j..<length cs}. call_signals sch (cs ! i) t) \<and>
           (\<forall>i \<in> {j..<length cs}. \<not> gate_fired (cs ! i) (ps ! i) t)"
  using assms(1)
proof (induction cs arbitrary: ps bs' rule: rev_induct)
  case Nil
  then show ?case using assms(2) by auto
next
  case (snoc c cs)
  obtain routings state failed where c: "c = (routings, state, failed)" by (cases c)
  from snoc.prems c obtain qs b p where run: "plan_run sch bs cs = Inr (qs, b)"
    and last: "plan_next_step_failed sch routings state b failed = Inr (p, bs')"
    and ps: "ps = qs @ [p]"
    by (auto simp: plan_run_append)
  have len: "length qs = length cs" using plan_run_length[OF run] .
  note step = plan_call_step[OF last t, folded c]
  show ?case
  proof (cases "gate_fired c p t")
    case True
    then show ?thesis using step(2) by (intro exI[of _ "length (cs @ [c])"]) simp
  next
    case False
    from snoc.IH[OF run] obtain j where j: "j \<le> length cs"
      "set (accumulated b t) = (\<Union>i \<in> {j..<length cs}. call_signals sch (cs ! i) t)"
      "\<forall>i \<in> {j..<length cs}. \<not> gate_fired (cs ! i) (qs ! i) t" by blast
    have ivl: "{j..<length (cs @ [c])} = insert (length cs) {j..<length cs}" using j(1) by auto
    have "set (accumulated bs' t) = (\<Union>i \<in> {j..<length (cs @ [c])}. call_signals sch ((cs @ [c]) ! i) t)"
      unfolding ivl using step(2) False j(2) by (auto simp: nth_append)
    moreover have "\<forall>i \<in> {j..<length (cs @ [c])}. \<not> gate_fired ((cs @ [c]) ! i) (ps ! i) t"
      unfolding ivl using False j(3) ps len by (auto simp: nth_append)
    ultimately show ?thesis using j(1) by (intro exI[of _ j]) simp
  qed
qed

lemma plan_run_take:
  assumes "plan_run sch bs cs = Inr (ps, bs')" and "k < length cs"
  shows "\<exists>b b' routings state failed. plan_run sch bs (take k cs) = Inr (take k ps, b) \<and>
           cs ! k = (routings, state, failed) \<and>
           plan_next_step_failed sch routings state b failed = Inr (ps ! k, b')"
proof -
  obtain routings state failed where c: "cs ! k = (routings, state, failed)" by (cases "cs ! k")
  have split: "cs = take k cs @ cs ! k # drop (Suc k) cs" using assms(2) by (simp add: id_take_nth_drop)
  from assms(1) obtain qs b q b' rs where run: "plan_run sch bs (take k cs) = Inr (qs, b)"
    and q: "plan_next_step_failed sch routings state b failed = Inr (q, b')"
    and ps: "ps = qs @ q # rs"
    by (subst (asm) split) (auto simp: plan_run_append c)
  have "length qs = k" using plan_run_length[OF run] assms(2) by simp
  then show ?thesis using run q c ps by auto
qed

lemma gate_fires_in_window:
  assumes run: "plan_run sch bs cs = Inr (ps, bs')" and fresh: "accumulated bs t = []"
    and t: "is_barrier sch t" "t \<noteq> END_NODE" and k: "k < length cs"
    and fired: "gate_fired (cs ! k) (ps ! k) t"
  shows "\<exists>j \<le> k. gate_holds sch t (\<Union>i \<in> {j..k}. call_signals sch (cs ! i) t) \<and>
           (\<forall>i \<in> {j..<k}. \<not> gate_fired (cs ! i) (ps ! i) t)"
proof -
  from plan_run_take[OF run k] obtain b b' routings state failed where
    pre: "plan_run sch bs (take k cs) = Inr (take k ps, b)" and c: "cs ! k = (routings, state, failed)"
    and step: "plan_next_step_failed sch routings state b failed = Inr (ps ! k, b')" by blast
  from run_window[OF pre fresh t] k obtain j where j: "j \<le> k"
    "set (accumulated b t) = (\<Union>i \<in> {j..<k}. call_signals sch (take k cs ! i) t)"
    "\<forall>i \<in> {j..<k}. \<not> gate_fired (take k cs ! i) (take k ps ! i) t"
    by (auto simp: min_def)
  have ivl: "{j..k} = insert k {j..<k}" using j(1) by auto
  have "gate_holds sch t (set (accumulated b t) \<union> call_signals sch (cs ! k) t)"
    using plan_call_step(1)[OF step t] fired c by simp
  then have "gate_holds sch t (\<Union>i \<in> {j..k}. call_signals sch (cs ! i) t)"
    unfolding ivl using j(2) by (simp add: Un_commute)
  then show ?thesis using j(1,3) by (intro exI[of _ j]) auto
qed

lemma gate_liveness:
  "plan_run sch bs cs = Inr (ps, bs') \<Longrightarrow> is_barrier sch t \<Longrightarrow> t \<noteq> END_NODE \<Longrightarrow>
     (\<exists>c \<in> set cs. call_signals sch c t \<noteq> {}) \<Longrightarrow>
     gate_holds sch t (set (accumulated bs t) \<union> (\<Union>c \<in> set cs. call_signals sch c t)) \<Longrightarrow>
     \<exists>i < length cs. gate_fired (cs ! i) (ps ! i) t"
proof (induction cs arbitrary: bs ps)
  case (Cons c cs)
  obtain routings state failed where c: "c = (routings, state, failed)" by (cases c)
  from Cons.prems(1) c obtain p b qs where one: "plan_next_step_failed sch routings state bs failed = Inr (p, b)"
    and rest: "plan_run sch b cs = Inr (qs, bs')" and ps: "ps = p # qs"
    by auto
  note step = plan_call_step[OF one Cons.prems(2,3), folded c]
  show ?case
  proof (cases "gate_fired c p t")
    case True
    then show ?thesis using ps by auto
  next
    case False
    have acc: "set (accumulated b t) = set (accumulated bs t) \<union> call_signals sch c t"
      using step(2) False by simp
    have later: "\<exists>c \<in> set cs. call_signals sch c t \<noteq> {}"
    proof (rule ccontr)
      assume "\<not> ?thesis"
      then have "(\<Union>c \<in> set (c # cs). call_signals sch c t) = call_signals sch c t"
        and "call_signals sch c t \<noteq> {}" using Cons.prems(4) by auto
      then show False using Cons.prems(5) step(1) False by simp
    qed
    from Cons.IH[OF rest Cons.prems(2,3) later] Cons.prems(5) acc
    obtain i where "i < length cs" "gate_fired (cs ! i) (qs ! i) t" by (auto simp: Un_assoc)
    then show ?thesis using ps by (intro exI[of _ "Suc i"]) simp
  qed
qed simp

section \<open>The fast path, and barriers as joins\<close>

lemma plan_free_error:
  "plan_free sch state flagged p = Inl e \<longleftrightarrow> collect_signals sch state flagged q = Inl e"
proof (induction flagged arbitrary: p q)
  case (Cons fr rs)
  then show ?case by (cases fr) (simp add: bind_result_eq_Inl, blast)
qed simp

lemma plan_free_total:
  "(\<exists>plan. plan_free sch state flagged p = Inr plan) \<longleftrightarrow> (\<exists>r. collect_signals sch state flagged q = Inr r)"
  by (metis plan_free_error obj_sumE sum.distinct(1))

text \<open>
  The general passes 2 and 3 of the planner, as they would run without the shortcut for graphs
  that declare no barrier and no join.
\<close>

definition plan_gated ::
    "'s scheduler \<Rightarrow> 's \<Rightarrow> (bool \<times> step_routing) list \<Rightarrow> barrier_state \<Rightarrow>
     error + (next_step_plan \<times> barrier_state)" where
  "plan_gated sch state flagged bs =
     bind_result (collect_signals sch state flagged (empty_plan, [])) (\<lambda>(plan, sg).
       Inr (plan\<lparr>ready := fst (gate_targets sch sg bs [])\<rparr>, snd (gate_targets sch sg bs [])))"

lemma gate_targets_free:
  "(\<And>t. \<not> is_barrier sch t) \<Longrightarrow> snd (gate_targets sch sg bs rdy) = bs"
  by (induction sch sg bs rdy rule: gate_targets.induct) auto

lemma plan_record_eqI:
  "ready p = ready q \<Longrightarrow> hit_end p = hit_end q \<Longrightarrow> hit_explicit_end p = hit_explicit_end q \<Longrightarrow>
   winning_command_goto p = winning_command_goto q \<Longrightarrow> (p :: next_step_plan) = q"
  by simp

lemma fast_path_equals_gated:
  assumes none: "barrier_specs sch = []" "join_specs sch = []"
  shows "bind_result (plan_free sch state flagged empty_plan) (\<lambda>plan. Inr (plan, bs)) =
         plan_gated sch state flagged bs"
proof (cases "plan_free sch state flagged empty_plan")
  case (Inl e)
  then show ?thesis using plan_free_error[of sch state flagged empty_plan e "(empty_plan, [])"]
    by (simp add: plan_gated_def)
next
  case (Inr plan)
  then obtain plan1 sg where coll: "collect_signals sch state flagged (empty_plan, []) = Inr (plan1, sg)"
    using plan_free_total[of sch state flagged empty_plan "(empty_plan, [])"] by auto
  note f = plan_free_spec[OF Inr] and c = collect_signals_spec[OF coll]
  have nb: "\<not> is_barrier sch t" for t using none by (rule no_gates_accumulate)
  have ok: "smap_ok sg" using c by simp
  have "set (fst (gate_targets sch sg bs [])) = set (ready plan)"
    using gate_targets_ready[OF ok, of _ sch bs "[]"] nb f c by auto
  then have "fst (gate_targets sch sg bs []) = ready plan"
    using gate_targets_ok(1)[of "[]" sch sg bs] f by (intro sset_eqI) auto
  then have "plan1\<lparr>ready := fst (gate_targets sch sg bs [])\<rparr> = plan"
    using f c by (intro plan_record_eqI) auto
  then show ?thesis using Inr coll gate_targets_free[of sch sg bs "[]"] nb
    by (simp add: plan_gated_def)
qed

lemma gate_targets_cong:
  assumes "\<And>t. is_barrier sch t = is_barrier sch' t"
    and "\<And>t A. gate_satisfied sch t A = gate_satisfied sch' t A"
  shows "gate_targets sch sg bs rdy = gate_targets sch' sg bs rdy"
  using assms by (induction sg arbitrary: bs rdy) (auto simp: Let_def)

lemma signal_successors_cong:
  "(\<And>n. ends_implicitly sch n = ends_implicitly sch' n) \<Longrightarrow>
   signal_successors sch node ns acc = signal_successors sch' node ns acc"
proof (induction ns arbitrary: acc)
  case (Cons n ns)
  then show ?case by (cases acc) (simp add: mark_end_def)
qed simp

lemma collect_signals_cong:
  assumes "\<And>f r. successors_of sch state f r = successors_of sch' state f r"
    and "\<And>n. ends_implicitly sch n = ends_implicitly sch' n"
  shows "collect_signals sch state flagged acc = collect_signals sch' state flagged acc"
proof (induction flagged arbitrary: acc)
  case (Cons fr rs)
  then show ?case
    using assms signal_successors_cong[of sch sch', OF assms(2)] by (cases fr) (simp add: fun_eq_iff)
qed simp

definition barrier_to_join :: "string \<Rightarrow> string list \<Rightarrow> 's scheduler \<Rightarrow> 's scheduler" where
  "barrier_to_join t spec sch =
     sch\<lparr>barrier_specs := smap_erase t (barrier_specs sch),
         join_specs := smap_put t (map (\<lambda>s. [s]) spec) (join_specs sch)\<rparr>"

lemma barrier_to_join_plan:
  assumes spec: "map_of (barrier_specs sch) t = Some spec"
  shows "plan_impl (barrier_to_join t spec sch) routings state (Some bs) failed =
         plan_impl sch routings state (Some bs) failed"
proof -
  let ?sch = "barrier_to_join t spec sch"
  have succ: "successors_of ?sch state f r = successors_of sch state f r" for f r
    by (simp add: successors_of_def failure_target_def resolve_next_nodes_def static_successors_def
        barrier_to_join_def split: option.splits)
  have ends: "ends_implicitly ?sch n = ends_implicitly sch n" for n
    by (simp add: ends_implicitly_def barrier_to_join_def)
  have bar: "is_barrier ?sch u = is_barrier sch u" for u
    using spec by (auto simp: is_barrier_def barrier_to_join_def)
  have sat: "gate_satisfied ?sch u A = gate_satisfied sch u A" for u A
    using spec by (auto simp: gate_satisfied_def barrier_to_join_def barrier_satisfied_def
        join_satisfied_def list_all_iff split: option.splits)
  have nonempty: "barrier_specs sch \<noteq> []" "join_specs ?sch \<noteq> []"
    using spec by (auto simp: barrier_to_join_def)
  show ?thesis
    using nonempty
    by (cases "last_command_goto None routings")
      (simp_all add: plan_impl_def Let_def collect_signals_cong[of ?sch state sch, OF succ ends]
        gate_targets_cong[of ?sch sch, OF bar sat])
qed

section \<open>Properties\<close>

text \<open>
  A graph to exercise the properties on: \<open>a\<close> and \<open>b\<close> start together, both lead to the join
  \<open>j\<close>, which waits for both, and \<open>j\<close> leads to \<open>__end__\<close>; \<open>a\<close> has a failure edge to \<open>h\<close>.
\<close>

definition diamond :: "unit scheduler" where
  "diamond =
     \<lparr>edges = [\<lparr>edge_from = START_NODE, edge_to = ''a''\<rparr>, \<lparr>edge_from = START_NODE, edge_to = ''b''\<rparr>,
               \<lparr>edge_from = ''a'', edge_to = ''j''\<rparr>, \<lparr>edge_from = ''b'', edge_to = ''j''\<rparr>,
               \<lparr>edge_from = ''j'', edge_to = END_NODE\<rparr>],
      conditional_edges = [], barrier_specs = [(''j'', [''a'', ''b''])], join_specs = [],
      failure_targets = [(''a'', ''h'')],
      registry = \<lparr>reg_condition = (\<lambda>_. None), reg_condition_spec = (\<lambda>_. None)\<rparr>\<rparr>"

abbreviation ran :: "string \<Rightarrow> step_routing" where
  "ran n \<equiv> \<lparr>node_name = n, command_goto = None\<rparr>"

lemmas scheduler_eval =
  diamond_def plan_next_step_failed_def plan_impl_def failed_flags_def successors_of_def
  resolve_next_nodes_def static_successors_def failure_target_def add_signal_def is_barrier_def
  gate_satisfied_def barrier_satisfied_def accumulated_def empty_plan_def mark_end_def END_NODE_def
  START_NODE_def ends_implicitly_def call_signals_def effective_signals_def step_signals_def
  gate_fired_def call_goto_def raise_error_def goto_plan_def

text \<open>C2: What a planning call decides. Without a \<open>Command.goto\<close> the ready set is the strictly sorted
  list of exactly the targets that were signalled and whose gate, if they have one, is filled by
  the signals held before and the new ones; the end flag says whether a signal reached \<open>__end__\<close>,
  and every gate keeps its signals until it fires and then starts empty. With a goto the last one
  wins, and the barrier bookkeeping does not change.\<close>

theorem plan_super_step:
  assumes "plan_next_step_failed sch routings state bs failed = Inr (plan, bs')"
  shows "case last_command_goto None routings of
           Some g \<Rightarrow> ready plan = (if g = END_NODE then [] else [g]) \<and>
                     hit_end plan = (g = END_NODE) \<and> winning_command_goto plan = Some g \<and> bs' = bs
         | None \<Rightarrow>
             (let sig = step_signals sch state (zip (failed_flags (Some failed) routings) routings);
                  acc = (\<lambda>t. set (accumulated bs t))
              in sset_ok (ready plan) \<and> set (ready plan) = {t. target_fires sch acc sig t} \<and>
                 hit_end plan = (sig END_NODE \<noteq> {}) \<and>
                 (\<forall>t. set (accumulated bs' t) = next_accumulated sch acc sig t))"
proof -
  have plan: "plan_impl sch routings state (Some bs) (Some failed) = Inr (plan, Some bs')"
    using assms by (simp add: plan_barrier_iff)
  show ?thesis
  proof (cases "last_command_goto None routings")
    case None
    from plan_impl_no_goto[OF plan None] None show ?thesis by simp
  next
    case (Some g)
    from plan_impl_goto[OF plan Some] Some show ?thesis by (simp add: goto_plan_def)
  qed
qed

theorem plan_super_step_witness:
  "ready (empty_plan\<lparr>ready := [''j'']\<rparr>) = [''j''] \<and>
   {t. target_fires diamond (\<lambda>t. set (accumulated [] t))
         (step_signals diamond () (zip [False, False] [ran ''a'', ran ''b''])) t} = {''j''}"
proof -
  have run: "plan_next_step_failed diamond [ran ''a'', ran ''b''] () [] [] =
      Inr (empty_plan\<lparr>ready := [''j'']\<rparr>, [(''j'', [])])"
    by code_simp
  from plan_super_step[OF run] show ?thesis
    by (simp add: failed_flags_def Let_def numeral_2_eq_2)
qed

text \<open>C6: A barrier or join that fires has its gate filled by signals that arrived since the last
  time it fired: over a run that starts with no pending signals, a firing at call \<open>k\<close> has a window
  \<open>{j..k}\<close> of calls whose signals fill the gate and in which the gate did not fire before \<open>k\<close>. So it
  never fires early, and no signal is counted for two firings.\<close>

theorem barrier_fires_once_complete:
  assumes "plan_run sch [] calls = Inr (plans, bs')" and "is_barrier sch t" and "t \<noteq> END_NODE"
    and "k < length calls" and "gate_fired (calls ! k) (plans ! k) t"
  shows "\<exists>j \<le> k. gate_holds sch t (\<Union>i \<in> {j..k}. call_signals sch (calls ! i) t) \<and>
           (\<forall>i \<in> {j..<k}. \<not> gate_fired (calls ! i) (plans ! i) t)"
  using gate_fires_in_window[OF assms(1) _ assms(2,3,4,5)] by (simp add: accumulated_def)

theorem barrier_fires_once_complete_witness:
  "\<exists>j \<le> 1. gate_holds diamond ''j'' (\<Union>i \<in> {j..1}. call_signals diamond
       ([([ran ''a''], (), []), ([ran ''b''], (), [])] ! i) ''j'')"
proof -
  let ?calls = "[([ran ''a''], (), []), ([ran ''b''], (), [])]"
  let ?plans = "[empty_plan, empty_plan\<lparr>ready := [''j'']\<rparr>]"
  have run: "plan_run diamond [] ?calls = Inr (?plans, [(''j'', [])])" by code_simp
  have bar: "is_barrier diamond ''j''" "''j'' \<noteq> END_NODE" by code_simp+
  have k: "1 < length ?calls" by simp
  have fired: "gate_fired (?calls ! 1) (?plans ! 1) ''j''" by (simp add: gate_fired_def call_goto_def)
  from barrier_fires_once_complete[OF run bar k fired] show ?thesis by blast
qed

text \<open>C5: A barrier or join does fire: when the signals it holds at the start of a sequence of
  planning calls together with the signals of the calls fill its gate, and at least one call
  signals it, then one of the calls puts it into the ready set.\<close>

theorem barrier_fires_eventually:
  assumes "plan_run sch bs calls = Inr (plans, bs')" and "is_barrier sch t" and "t \<noteq> END_NODE"
    and "\<exists>c \<in> set calls. call_signals sch c t \<noteq> {}"
    and "gate_holds sch t (set (accumulated bs t) \<union> (\<Union>c \<in> set calls. call_signals sch c t))"
  shows "\<exists>p \<in> set plans. t \<in> set (ready p)"
proof -
  obtain i where "i < length calls" "gate_fired (calls ! i) (plans ! i) t"
    using gate_liveness[OF assms] by blast
  then show ?thesis using plan_run_length[OF assms(1)] by (auto simp: gate_fired_def intro!: bexI[of _ "plans ! i"])
qed

theorem barrier_fires_eventually_witness:
  "\<exists>p \<in> set [empty_plan, empty_plan\<lparr>ready := [''j'']\<rparr>]. ''j'' \<in> set (ready p)"
proof -
  let ?calls = "[([ran ''b''], (), []), ([ran ''a''], (), [False])]"
  let ?plans = "[empty_plan, empty_plan\<lparr>ready := [''j'']\<rparr>]"
  have run: "plan_run diamond [] ?calls = Inr (?plans, [(''j'', [])])" by code_simp
  have bar: "is_barrier diamond ''j''" "''j'' \<noteq> END_NODE" by code_simp+
  have a: "call_signals diamond ([ran ''a''], (), [False]) ''j'' = {''a''}"
    and b: "call_signals diamond ([ran ''b''], (), []) ''j'' = {''b''}"
    by (auto simp: scheduler_eval)
  have sig: "\<exists>c \<in> set ?calls. call_signals diamond c ''j'' \<noteq> {}" using a by simp
  have gate: "gate_holds diamond ''j'' (set (accumulated [] ''j'') \<union>
      (\<Union>c \<in> set ?calls. call_signals diamond c ''j''))"
    using a b by (simp add: gate_holds_def diamond_def)
  from barrier_fires_eventually[OF run bar sig gate] show ?thesis .
qed



text \<open>A legacy barrier is the join whose slots are its sources, one per slot: moving the
  declaration from the barriers to the joins changes no plan and no barrier map.\<close>

theorem barrier_is_singleton_join:
  assumes "map_of (barrier_specs sch) t = Some spec"
  shows "plan_impl (barrier_to_join t spec sch) routings state (Some bs) failed =
         plan_impl sch routings state (Some bs) failed"
  using assms by (rule barrier_to_join_plan)

theorem barrier_is_singleton_join_witness:
  "plan_impl (barrier_to_join ''j'' [''a'', ''b''] diamond) [ran ''a''] () (Some []) None =
   plan_impl diamond [ran ''a''] () (Some []) None"
  by (rule barrier_is_singleton_join) (simp add: diamond_def)



end
