(* ===== verification/NG_Channels.thy ===== *)
theory NG_Channels
  imports NG_Types "HOL-Library.Sublist"
begin

text \<open>
  The state channels of a run (\<open>src/src/core/graph_state.cpp\<close>): reducers, retention, version
  stamps, the provider history that is kept beside a message channel, checkpoint snapshots and
  their restoration.

  A provider message is a value of the SchemaProvider SDK; \<open>message_codec\<close> holds what the code
  obtains from one: its portable projection, the message read from a portable value, and the
  identity of the native replay group it belongs to. The part of a snapshot that archives provider
  histories, loops and the budget bank is decoded through the SDK's archive, so restoring it is a
  parameter of the restore operations.
\<close>

section \<open>Data\<close>

record channel =
  ch_reducer_type :: reducer_type
  ch_reducer :: "json \<Rightarrow> json \<Rightarrow> error + json"
  ch_lifecycle :: lifecycle_policy
  ch_value :: json
  ch_version :: u64

record 'm provider_history =
  ph_messages :: "'m list"
  ph_projection :: json

record 'm graph_state =
  channels :: "(string \<times> channel) list"
  global_version :: u64
  provider_histories :: "(string \<times> 'm provider_history) list"

record 'm message_codec =
  mc_project :: "'m \<Rightarrow> json"
  mc_portable :: "json \<Rightarrow> error + 'm"
  mc_native :: "'m \<Rightarrow> nat option"

definition empty_history :: "'m provider_history" where
  "empty_history = \<lparr>ph_messages = [], ph_projection = JArray []\<rparr>"

section \<open>Reducers and retention\<close>

definition reducer_overwrite :: "json \<Rightarrow> json \<Rightarrow> error + json" where
  "reducer_overwrite current incoming = Inr incoming"

definition reducer_append :: "json \<Rightarrow> json \<Rightarrow> error + json" where
  "reducer_append current incoming =
     (let result = (if is_array current then json_elems current else [])
      in if is_array incoming then Inr (JArray (result @ json_elems incoming))
         else Inr (JArray (result @ [incoming])))"

definition apply_retention :: "json \<Rightarrow> lifecycle_policy \<Rightarrow> error + json" where
  "apply_retention value lifecycle =
     (if retention lifecycle = Unbounded \<or> \<not> is_array value then Inr value
      else if retention lifecycle = Latest then
        (if json_empty value then Inr value
         else bind_result (json_back value) (\<lambda>v. Inr (JArray [v])))
      else if retention_limit lifecycle = 0
        then raise_error InvalidArgument ''bounded channel retention requires a positive retention_limit''
      else
        (let size = json_size value;
             limit = unat (retention_limit lifecycle);
             first = (if size > limit then size - limit else 0)
         in Inr (JArray (drop first (json_elems value)))))"

section \<open>Channels\<close>

definition init_channel ::
    "string \<Rightarrow> reducer_type \<Rightarrow> (json \<Rightarrow> json \<Rightarrow> error + json) \<Rightarrow> json \<Rightarrow> lifecycle_policy \<Rightarrow>
     'm graph_state \<Rightarrow> error + 'm graph_state" where
  "init_channel name type reducer initial lifecycle st =
     (if retention lifecycle = Bounded \<and> retention_limit lifecycle = 0
      then raise_error InvalidArgument ''bounded channel retention requires a positive retention_limit''
      else bind_result (apply_retention initial lifecycle) (\<lambda>v.
        Inr (st\<lparr>channels := smap_put name
               \<lparr>ch_reducer_type = type, ch_reducer = reducer, ch_lifecycle = lifecycle,
                ch_value = v, ch_version = 0\<rparr> (channels st)\<rparr>)))"

definition get_channel :: "'m graph_state \<Rightarrow> string \<Rightarrow> json" where
  "get_channel st name = (case map_of (channels st) name of None \<Rightarrow> JNull | Some ch \<Rightarrow> ch_value ch)"

definition channel_version :: "'m graph_state \<Rightarrow> string \<Rightarrow> u64" where
  "channel_version st name =
     (case map_of (channels st) name of None \<Rightarrow> 0 | Some ch \<Rightarrow> ch_version ch)"

definition channel_names :: "'m graph_state \<Rightarrow> string list" where
  "channel_names st = map fst (channels st)"

definition has_channel :: "'m graph_state \<Rightarrow> string \<Rightarrow> bool" where
  "has_channel st name \<longleftrightarrow> map_of (channels st) name \<noteq> None"

definition get_provider_messages :: "'m message_codec \<Rightarrow> 'm graph_state \<Rightarrow> string \<Rightarrow> error + 'm list" where
  "get_provider_messages cod st name =
     (case map_of (provider_histories st) name of
        Some h \<Rightarrow> Inr (ph_messages h)
      | None \<Rightarrow>
          (case map_of (channels st) name of
             None \<Rightarrow> Inr []
           | Some ch \<Rightarrow>
               if is_array (ch_value ch) then map_result (mc_portable cod) (json_elems (ch_value ch))
               else Inr []))"

definition captured_provider_messages :: "'m graph_state \<Rightarrow> string \<Rightarrow> 'm list option" where
  "captured_provider_messages st name =
     map_option ph_messages (map_of (provider_histories st) name)"

section \<open>Provider history\<close>

text \<open>A native write must agree with the portable value it is paired with.\<close>

definition native_matches :: "'m message_codec \<Rightarrow> 'm list \<Rightarrow> json \<Rightarrow> bool" where
  "native_matches cod native incoming \<longleftrightarrow>
     is_array incoming \<and> length native = json_size incoming \<and>
     list_all2 (\<lambda>m j. json_eq (mc_project cod m) j) native (json_elems incoming)"

text \<open>The guard of the append shortcut.\<close>

definition appends_cleanly :: "channel \<Rightarrow> json \<Rightarrow> json \<Rightarrow> json \<Rightarrow> json \<Rightarrow> bool" where
  "appends_cleanly ch projection before incoming after \<longleftrightarrow>
     json_eq before projection \<and> is_array before \<and> is_array incoming \<and>
     ch_reducer_type ch = APPEND \<and> retention (ch_lifecycle ch) = Unbounded \<and>
     json_size after = json_size before + json_size incoming \<and>
     list_all2 json_eq (json_elems before @ json_elems incoming) (json_elems after)"

definition incoming_messages :: "'m message_codec \<Rightarrow> json \<Rightarrow> 'm list option \<Rightarrow> error + 'm list" where
  "incoming_messages cod incoming native =
     (case native of
        Some ms \<Rightarrow> Inr ms
      | None \<Rightarrow> if is_array incoming then map_result (mc_portable cod) (json_elems incoming) else Inr [])"

text \<open>The messages a reducer may keep, each with its portable projection.\<close>

definition history_candidates ::
    "'m message_codec \<Rightarrow> 'm provider_history \<Rightarrow> json \<Rightarrow> json \<Rightarrow> 'm list option \<Rightarrow>
     error + ('m list \<times> json list)" where
  "history_candidates cod h before incoming native =
     bind_result
       (if json_eq before (ph_projection h) then Inr (ph_messages h, json_elems before)
        else if is_array before
          then bind_result (map_result (mc_portable cod) (json_elems before))
                 (\<lambda>ms. Inr (ms, json_elems before))
        else Inr ([], []))
       (\<lambda>(cands, projs).
          bind_result (incoming_messages cod incoming native) (\<lambda>ms.
            Inr (cands @ ms,
                 projs @ (if is_array incoming \<or> native \<noteq> None then json_elems incoming else []))))"

text \<open>Matching the reduced value against the candidates, in order.\<close>

fun select_messages :: "(json \<times> 'm) list \<Rightarrow> json list \<Rightarrow> error + 'm list" where
  "select_messages cands [] = Inr []"
| "select_messages cands (item # items) =
     (case dropWhile (\<lambda>(p, m). \<not> json_eq p item) cands of
        [] \<Rightarrow> raise_error InvalidArgument ''Message reducer cannot manufacture native history''
      | (p, m) # rest \<Rightarrow>
          bind_result (select_messages rest items) (\<lambda>ms. Inr (m # ms)))"

definition group_count :: "'m message_codec \<Rightarrow> 'm list \<Rightarrow> nat \<Rightarrow> nat" where
  "group_count cod ms g = length (filter (\<lambda>m. mc_native cod m = Some g) ms)"

definition groups_whole :: "'m message_codec \<Rightarrow> 'm list \<Rightarrow> 'm list \<Rightarrow> bool" where
  "groups_whole cod cands selected \<longleftrightarrow>
     list_all (\<lambda>g. group_count cod selected g \<noteq> 0 \<longrightarrow> group_count cod cands g = group_count cod selected g)
       (List.map_filter (mc_native cod) (cands @ selected))"

definition history_update ::
    "'m message_codec \<Rightarrow> channel \<Rightarrow> json \<Rightarrow> json \<Rightarrow> json \<Rightarrow> 'm list option \<Rightarrow> 'm provider_history \<Rightarrow>
     error + 'm provider_history" where
  "history_update cod ch before incoming after native h =
     (if \<not> is_array after
      then raise_error InvalidArgument ''provider history channel must be an array''
      else if (case native of None \<Rightarrow> False | Some ms \<Rightarrow> \<not> native_matches cod ms incoming)
      then raise_error InvalidArgument ''Native message write differs from portable projection''
      else if appends_cleanly ch (ph_projection h) before incoming after
      then bind_result (incoming_messages cod incoming native) (\<lambda>ms.
             Inr \<lparr>ph_messages = ph_messages h @ ms, ph_projection = after\<rparr>)
      else bind_result (history_candidates cod h before incoming native) (\<lambda>(cands, projs).
             bind_result (select_messages (zip projs cands) (json_elems after)) (\<lambda>selected.
               if groups_whole cod cands selected
               then Inr \<lparr>ph_messages = selected, ph_projection = after\<rparr>
               else raise_error InvalidArgument ''Message retention split a native replay group'')))"

text \<open>
  \<open>update_provider_history_locked\<close> indexes the history map before it checks anything, so a call
  that throws has still created the (empty) history of the channel.
\<close>

definition history_of :: "'m graph_state \<Rightarrow> string \<Rightarrow> 'm provider_history" where
  "history_of st name =
     (case map_of (provider_histories st) name of None \<Rightarrow> empty_history | Some h \<Rightarrow> h)"

definition put_history :: "string \<Rightarrow> 'm provider_history \<Rightarrow> 'm graph_state \<Rightarrow> 'm graph_state" where
  "put_history name h st = st\<lparr>provider_histories := smap_put name h (provider_histories st)\<rparr>"

definition update_provider_history ::
    "'m message_codec \<Rightarrow> string \<Rightarrow> channel \<Rightarrow> json \<Rightarrow> json \<Rightarrow> json \<Rightarrow> 'm list option \<Rightarrow>
     'm graph_state \<Rightarrow> error option \<times> 'm graph_state" where
  "update_provider_history cod name ch before incoming after native st =
     (let h = history_of st name
      in case history_update cod ch before incoming after native h of
           Inl e \<Rightarrow> (Some e, put_history name h st)
         | Inr h' \<Rightarrow> (None, put_history name h' st))"

section \<open>Writes\<close>

definition has_history :: "'m graph_state \<Rightarrow> string \<Rightarrow> bool" where
  "has_history st name \<longleftrightarrow> map_of (provider_histories st) name \<noteq> None"

definition store_value :: "string \<Rightarrow> channel \<Rightarrow> json \<Rightarrow> 'm graph_state \<Rightarrow> 'm graph_state" where
  "store_value name ch v st =
     st\<lparr>channels := smap_put name (ch\<lparr>ch_value := v, ch_version := global_version st + 1\<rparr>) (channels st),
        global_version := global_version st + 1\<rparr>"

definition unknown_channel :: error where
  "unknown_channel = Error RuntimeError ''Write to unknown channel''"

text \<open>A fallible update of the state returns the state also when it throws.\<close>

definition then_store :: "string \<Rightarrow> channel \<Rightarrow> json \<Rightarrow> error option \<times> 'm graph_state \<Rightarrow>
    error option \<times> 'm graph_state" where
  "then_store name ch v r =
     (case r of (Some e, st) \<Rightarrow> (Some e, st) | (None, st) \<Rightarrow> (None, store_value name ch v st))"

definition write_channel ::
    "'m message_codec \<Rightarrow> string \<Rightarrow> json \<Rightarrow> 'm graph_state \<Rightarrow> error option \<times> 'm graph_state" where
  "write_channel cod name value st =
     (case map_of (channels st) name of
        None \<Rightarrow> (Some unknown_channel, st)
      | Some ch \<Rightarrow>
          (case bind_result (ch_reducer ch (ch_value ch) value) (\<lambda>v. apply_retention v (ch_lifecycle ch)) of
             Inl e \<Rightarrow> (Some e, st)
           | Inr combined \<Rightarrow>
               then_store name ch combined
                 (if has_history st name
                  then update_provider_history cod name ch (ch_value ch) value combined None st
                  else (None, st))))"

text \<open>The value one write of a batch leaves, and the history update it triggers.\<close>

definition written_value :: "channel \<Rightarrow> 'm channel_write \<Rightarrow> error + json" where
  "written_value ch w =
     bind_result
       (if cw_mode w = Overwrite then Inr (cw_value w) else ch_reducer ch (ch_value ch) (cw_value w))
       (\<lambda>v. apply_retention v (ch_lifecycle ch))"

definition write_history ::
    "'m message_codec \<Rightarrow> 'm channel_write \<Rightarrow> channel \<Rightarrow> json \<Rightarrow> 'm graph_state \<Rightarrow>
     error option \<times> 'm graph_state" where
  "write_history cod w ch retained st =
     (if cw_native w \<noteq> None \<or> has_history st (cw_channel w)
      then update_provider_history cod (cw_channel w) ch
             (if cw_mode w = Overwrite then JArray [] else ch_value ch)
             (cw_value w) retained (cw_native w) st
      else (None, st))"

definition apply_write ::
    "'m message_codec \<Rightarrow> 'm channel_write \<Rightarrow> 'm graph_state \<Rightarrow> error option \<times> 'm graph_state" where
  "apply_write cod w st =
     (case map_of (channels st) (cw_channel w) of
        None \<Rightarrow> (Some unknown_channel, st)
      | Some ch \<Rightarrow>
          (case written_value ch w of
             Inl e \<Rightarrow> (Some e, st)
           | Inr retained \<Rightarrow>
               then_store (cw_channel w) ch retained (write_history cod w ch retained st)))"

fun apply_writes ::
    "'m message_codec \<Rightarrow> 'm channel_write list \<Rightarrow> 'm graph_state \<Rightarrow> error option \<times> 'm graph_state" where
  "apply_writes cod [] st = (None, st)"
| "apply_writes cod (w # ws) st =
     (case apply_write cod w st of
        (Some e, st') \<Rightarrow> (Some e, st')
      | (None, st') \<Rightarrow> apply_writes cod ws st')"

section \<open>Snapshots\<close>

definition is_ephemeral :: "channel \<Rightarrow> bool" where
  "is_ephemeral ch \<longleftrightarrow> persistence (ch_lifecycle ch) = Ephemeral"

definition channel_entry :: "channel \<Rightarrow> json" where
  "channel_entry ch = JObject [(''value'', ch_value ch), (''version'', JUint (ch_version ch))]"

definition channel_snapshot :: "'m graph_state \<Rightarrow> bool \<Rightarrow> json" where
  "channel_snapshot st skip_ephemeral =
     (let kept = filter (\<lambda>(name, ch). \<not> (skip_ephemeral \<and> is_ephemeral ch)) (channels st);
          entries = map (\<lambda>(name, ch). (name, channel_entry ch)) kept
      in JObject ((if entries = [] then [] else [(''channels'', JObject entries)])
                  @ [(''global_version'', JUint (global_version st))]))"

definition guard_of :: "(channel \<Rightarrow> bool) \<Rightarrow> (string \<times> channel) list \<Rightarrow> json" where
  "guard_of flag chs =
     (let eph = filter (\<lambda>(name, ch). is_ephemeral ch) chs
      in if eph = [] then JNull else JObject (map (\<lambda>(name, ch). (name, JBool (flag ch))) eph))"

definition ephemeral_checkpoint_guard :: "'m graph_state \<Rightarrow> json" where
  "ephemeral_checkpoint_guard st = guard_of (\<lambda>ch. ch_version ch \<noteq> 0) (channels st)"

text \<open>The loop that takes channel values and versions from a snapshot.\<close>

definition take_entry :: "(u64 \<Rightarrow> u64) \<Rightarrow> (channel \<Rightarrow> bool) \<Rightarrow> string \<Rightarrow> json \<Rightarrow>
    (string \<times> channel) list \<Rightarrow> (string \<times> channel) list" where
  "take_entry trunc accept name ch_data chs =
     (case map_of chs name of
        Some ch \<Rightarrow>
          if accept ch
          then smap_put name
                 (ch\<lparr>ch_value := json_get ch_data ''value'',
                     ch_version := json_value (get_uint64 trunc) ch_data ''version'' 0\<rparr>) chs
          else chs
      | None \<Rightarrow> chs)"

definition restore_channels ::
    "(u64 \<Rightarrow> u64) \<Rightarrow> (channel \<Rightarrow> bool) \<Rightarrow> json \<Rightarrow> 'm graph_state \<Rightarrow> 'm graph_state" where
  "restore_channels trunc accept data st =
     st\<lparr>channels :=
          (if json_contains data ''channels''
           then fold (\<lambda>(name, ch_data). take_entry trunc accept name ch_data)
                  (json_items (json_get data ''channels'')) (channels st)
           else channels st),
        global_version := json_value (get_uint64 trunc) data ''global_version'' 0\<rparr>"

definition runtime_entry_present :: "json \<Rightarrow> string \<Rightarrow> bool" where
  "runtime_entry_present data name \<longleftrightarrow>
     json_contains data ''channels'' \<and> json_contains (json_get data ''channels'') name \<and>
     (let e = json_get (json_get data ''channels'') name
      in is_object e \<and> json_contains e ''value'' \<and> json_contains e ''version'')"

type_synonym 'm history_restore = "json \<Rightarrow> 'm graph_state \<Rightarrow> error + 'm graph_state"

definition restore_runtime ::
    "(u64 \<Rightarrow> u64) \<Rightarrow> 'm history_restore \<Rightarrow> json \<Rightarrow> 'm graph_state \<Rightarrow> error + 'm graph_state" where
  "restore_runtime trunc histories data st =
     (if list_ex (\<lambda>(name, ch). is_ephemeral ch \<and> \<not> runtime_entry_present data name) (channels st)
      then raise_error RuntimeError ''Runtime snapshot is missing ephemeral channel state''
      else bind_result (histories data st) (\<lambda>st'.
        Inr (restore_channels trunc (\<lambda>ch. True) data st')))"

definition native_required :: "json \<Rightarrow> bool" where
  "native_required data \<longleftrightarrow> json_value get_bool data ''native_checkpoint_required'' False"

definition guard_accepted :: "json \<Rightarrow> json \<Rightarrow> bool" where
  "guard_accepted guard expected \<longleftrightarrow>
     (if is_null expected then is_null guard \<or> json_eq guard (JObject []) else json_eq guard expected)"

text \<open>\<open>restore_checkpoint\<close> from JSON alone (no in-memory checkpoint is passed).\<close>

definition restore_checkpoint ::
    "(u64 \<Rightarrow> u64) \<Rightarrow> 'm history_restore \<Rightarrow> json \<Rightarrow> json \<Rightarrow> 'm graph_state \<Rightarrow> error + 'm graph_state" where
  "restore_checkpoint trunc histories data guard st =
     (if native_required data
      then raise_error InvalidArgument ''Native checkpoint cannot be restored from JSON alone''
      else if list_ex (\<lambda>(name, ch). is_ephemeral ch \<and> ch_version ch \<noteq> 0) (channels st)
      then raise_error RuntimeError ''Cannot restore checkpoint into live ephemeral channel''
      else if \<not> guard_accepted guard (guard_of (\<lambda>ch. False) (channels st))
      then (if is_null (guard_of (\<lambda>ch. False) (channels st))
            then raise_error RuntimeError ''Checkpoint contains incompatible ephemeral channel policy''
            else raise_error RuntimeError ''Cannot resume checkpoint'')
      else bind_result (histories data st) (\<lambda>st'.
        Inr (restore_channels trunc (\<lambda>ch. \<not> is_ephemeral ch) data st')))"

definition restore ::
    "(u64 \<Rightarrow> u64) \<Rightarrow> 'm history_restore \<Rightarrow> json \<Rightarrow> 'm graph_state \<Rightarrow> error + 'm graph_state" where
  "restore trunc histories data st =
     (if native_required data
      then raise_error InvalidArgument ''Native checkpoint cannot be restored from JSON alone''
      else if list_ex (\<lambda>(name, ch). is_ephemeral ch) (channels st)
      then raise_error RuntimeError ''Cannot restore ephemeral channel without a checkpoint guard''
      else bind_result (histories data st) (\<lambda>st'.
        Inr (restore_channels trunc (\<lambda>ch. \<not> is_ephemeral ch) data st')))"

section \<open>How a batch of writes unfolds\<close>

lemma apply_writes_append:
  "apply_writes cod (ws @ vs) st =
     (case apply_writes cod ws st of
        (Some e, st') \<Rightarrow> (Some e, st')
      | (None, st') \<Rightarrow> apply_writes cod vs st')"
  by (induction ws arbitrary: st) (auto split: prod.splits option.splits)

lemma history_keeps_channels [simp]:
  "channels (snd (update_provider_history cod name ch b i a n st)) = channels st"
  "global_version (snd (update_provider_history cod name ch b i a n st)) = global_version st"
  by (simp_all add: update_provider_history_def put_history_def Let_def split: sum.splits)

lemma write_history_keeps_channels [simp]:
  "channels (snd (write_history cod w ch v st)) = channels st"
  "global_version (snd (write_history cod w ch v st)) = global_version st"
  by (simp_all add: write_history_def)

lemma then_store_ok: "then_store name ch v r = (None, st') \<longleftrightarrow> fst r = None \<and> st' = store_value name ch v (snd r)"
  by (auto simp: then_store_def split: prod.splits option.splits)

lemma then_store_fail: "then_store name ch v r = (Some e, st') \<longleftrightarrow> fst r = Some e \<and> st' = snd r"
  by (auto simp: then_store_def split: prod.splits option.splits)

text \<open>A write that succeeds stores its retained value and stamps the channel.\<close>

lemma apply_write_okE:
  assumes "apply_write cod w st = (None, st')"
  obtains ch v where "map_of (channels st) (cw_channel w) = Some ch" "written_value ch w = Inr v"
    "fst (write_history cod w ch v st) = None"
    "st' = store_value (cw_channel w) ch v (snd (write_history cod w ch v st))"
    "channels st' = smap_put (cw_channel w) (ch\<lparr>ch_value := v, ch_version := global_version st + 1\<rparr>) (channels st)"
    "global_version st' = global_version st + 1"
proof -
  from assms obtain ch v where *: "map_of (channels st) (cw_channel w) = Some ch" "written_value ch w = Inr v"
    "then_store (cw_channel w) ch v (write_history cod w ch v st) = (None, st')"
    by (auto simp: apply_write_def split: option.splits sum.splits)
  then show thesis using that by (simp add: then_store_ok store_value_def)
qed

lemma apply_write_fail:
  assumes "apply_write cod w st = (Some e, st')"
  shows "channels st' = channels st" "global_version st' = global_version st"
  using assms by (auto simp: apply_write_def then_store_fail split: option.splits sum.splits)

lemma apply_writes_ConsE:
  assumes "apply_writes cod (w # ws) st = (None, st')"
  obtains st1 where "apply_write cod w st = (None, st1)" "apply_writes cod ws st1 = (None, st')"
  using assms by (auto split: prod.splits option.splits)

text \<open>The channel declarations never change.\<close>

definition same_declaration :: "channel \<Rightarrow> channel \<Rightarrow> bool" where
  "same_declaration c d \<longleftrightarrow> ch_reducer_type c = ch_reducer_type d \<and> ch_reducer c = ch_reducer d \<and>
     ch_lifecycle c = ch_lifecycle d"

section \<open>Retention\<close>

definition keep_limit :: "lifecycle_policy \<Rightarrow> nat \<Rightarrow> nat" where
  "keep_limit lc n =
     (case retention lc of Unbounded \<Rightarrow> n | Latest \<Rightarrow> 1 | Bounded \<Rightarrow> unat (retention_limit lc))"

definition kept :: "lifecycle_policy \<Rightarrow> json list \<Rightarrow> json list" where
  "kept lc xs = drop (length xs - keep_limit lc (length xs)) xs"

definition lifecycle_ok :: "lifecycle_policy \<Rightarrow> bool" where
  "lifecycle_ok lc \<longleftrightarrow> (retention lc = Bounded \<longrightarrow> retention_limit lc \<noteq> 0)"

lemma drop_last_one: "xs \<noteq> [] \<Longrightarrow> drop (length xs - Suc 0) xs = [last xs]"
  by (cases xs rule: rev_cases) auto

lemma apply_retention_array:
  assumes "lifecycle_ok lc"
  shows "apply_retention (JArray xs) lc = Inr (JArray (kept lc xs))"
proof (cases "retention lc")
  case Latest
  then show ?thesis
    by (cases "xs = []")
       (simp_all add: apply_retention_def kept_def keep_limit_def json_empty_def drop_last_one last_conv_nth)
qed (use assms in \<open>auto simp: apply_retention_def kept_def keep_limit_def lifecycle_ok_def Let_def\<close>)

lemma drop_window:
  "drop (length (drop (length xs - k) xs @ ys) - k) (drop (length xs - k) xs @ ys) =
   drop (length (xs @ ys) - k) (xs @ ys)"
proof (cases "length xs \<le> k")
  case False
  then have "length (drop (length xs - k) xs) = k" by simp
  then show ?thesis using False by (simp add: add.commute)
qed simp

lemma kept_append: "kept lc (kept lc xs @ ys) = kept lc (xs @ ys)"
  using drop_window[of xs 1 ys] drop_window[of xs "unat (retention_limit lc)" ys]
  by (cases "retention lc") (simp_all add: kept_def keep_limit_def)

definition incoming_elems :: "json \<Rightarrow> json list" where
  "incoming_elems j = (if is_array j then json_elems j else [j])"

definition append_channel :: "lifecycle_policy \<Rightarrow> json list \<Rightarrow> channel \<Rightarrow> bool" where
  "append_channel lc xs ch \<longleftrightarrow> ch_reducer ch = reducer_append \<and> ch_lifecycle ch = lc \<and> ch_value ch = JArray xs"

lemma append_channel_write:
  assumes "append_channel lc xs ch" "lifecycle_ok lc" "cw_mode w = Reduce"
  shows "written_value ch w = Inr (JArray (kept lc (xs @ incoming_elems (cw_value w))))"
  using assms by (simp add: append_channel_def written_value_def reducer_append_def incoming_elems_def
      apply_retention_array)

lemma append_channel_apply_write:
  assumes "apply_write cod w st = (None, st')" "lifecycle_ok lc"
    and "map_of (channels st) c = Some ch" "append_channel lc xs ch"
    and "cw_channel w = c \<Longrightarrow> cw_mode w = Reduce"
  shows "\<exists>ch'. map_of (channels st') c = Some ch' \<and>
           append_channel lc (if cw_channel w = c then kept lc (xs @ incoming_elems (cw_value w)) else xs) ch'"
proof -
  from assms(1) obtain d v where d: "map_of (channels st) (cw_channel w) = Some d" "written_value d w = Inr v"
    "channels st' = smap_put (cw_channel w) (d\<lparr>ch_value := v, ch_version := global_version st + 1\<rparr>) (channels st)"
    by (rule apply_write_okE)
  show ?thesis
  proof (cases "cw_channel w = c")
    case True
    then have "v = JArray (kept lc (xs @ incoming_elems (cw_value w)))"
      using d assms append_channel_write[of lc xs ch w] by simp
    then show ?thesis using True d assms by (simp add: append_channel_def)
  next
    case False
    then show ?thesis using d assms by simp
  qed
qed

lemma append_channel_apply_writes:
  assumes "apply_writes cod ws st = (None, st')" "lifecycle_ok lc"
    and "map_of (channels st) c = Some ch" "append_channel lc (kept lc xs) ch"
    and "\<forall>w \<in> set ws. cw_channel w = c \<longrightarrow> cw_mode w = Reduce"
  shows "\<exists>ch'. map_of (channels st') c = Some ch' \<and> append_channel lc
    (kept lc (xs @ concat (map (incoming_elems \<circ> cw_value) (filter (\<lambda>w. cw_channel w = c) ws)))) ch'"
  using assms
proof (induction ws arbitrary: st ch xs)
  case (Cons w ws)
  from Cons.prems(1) obtain st1 where st1: "apply_write cod w st = (None, st1)"
    "apply_writes cod ws st1 = (None, st')" by (rule apply_writes_ConsE)
  let ?ys = "if cw_channel w = c then xs @ incoming_elems (cw_value w) else xs"
  obtain ch1 where "map_of (channels st1) c = Some ch1" "append_channel lc (kept lc ?ys) ch1"
    using append_channel_apply_write[OF st1(1) Cons.prems(2,3,4)] Cons.prems(5)
    by (cases "cw_channel w = c") (auto simp: kept_append)
  from Cons.IH[OF st1(2) Cons.prems(2) this] Cons.prems(5) show ?case
    by (auto split: if_splits)
qed auto

section \<open>Version stamps\<close>

lemma apply_writes_version:
  "apply_writes cod ws st = (None, st') \<Longrightarrow> global_version st' = global_version st + of_nat (length ws)"
proof (induction ws arbitrary: st)
  case (Cons w ws)
  from Cons.prems obtain st1 where st1: "apply_write cod w st = (None, st1)"
    "apply_writes cod ws st1 = (None, st')" by (rule apply_writes_ConsE)
  from st1(1) have "global_version st1 = global_version st + 1" by (rule apply_write_okE)
  with Cons.IH[OF st1(2)] show ?case by simp
qed simp

lemma apply_writes_untouched:
  "apply_writes cod ws st = (None, st') \<Longrightarrow> c \<notin> cw_channel ` set ws \<Longrightarrow>
     map_of (channels st') c = map_of (channels st) c"
proof (induction ws arbitrary: st)
  case (Cons w ws)
  from Cons.prems(1) obtain st1 where st1: "apply_write cod w st = (None, st1)"
    "apply_writes cod ws st1 = (None, st')" by (rule apply_writes_ConsE)
  from st1(1) have "map_of (channels st1) c = map_of (channels st) c"
    by (rule apply_write_okE) (use Cons.prems(2) in auto)
  with Cons.IH[OF st1(2)] Cons.prems(2) show ?case by simp
qed simp

lemma apply_writes_stamp:
  assumes "apply_writes cod (ws @ w # vs) st = (None, st')" "cw_channel w \<notin> cw_channel ` set vs"
  shows "channel_version st' (cw_channel w) = global_version st + of_nat (length ws) + 1"
proof -
  from assms(1) obtain st1 where 1: "apply_writes cod ws st = (None, st1)"
    "apply_writes cod (w # vs) st1 = (None, st')"
    unfolding apply_writes_append by (auto split: prod.splits option.splits)
  from 1(2) obtain st2 where 2: "apply_write cod w st1 = (None, st2)"
    "apply_writes cod vs st2 = (None, st')" by (rule apply_writes_ConsE)
  have "channel_version st2 (cw_channel w) = global_version st1 + 1"
    by (rule apply_write_okE[OF 2(1)]) (simp add: channel_version_def)
  moreover have "channel_version st' (cw_channel w) = channel_version st2 (cw_channel w)"
    using apply_writes_untouched[OF 2(2) assms(2)] by (simp add: channel_version_def)
  ultimately show ?thesis using apply_writes_version[OF 1(1)] by simp
qed

section \<open>Failures\<close>

lemma apply_writes_fails_at:
  "apply_writes cod ws st = (Some e, st') \<Longrightarrow>
     \<exists>i < length ws. \<exists>st1. apply_writes cod (take i ws) st = (None, st1) \<and>
        apply_write cod (ws ! i) st1 = (Some e, st')"
proof (induction ws arbitrary: st)
  case (Cons w ws)
  show ?case
  proof (cases "apply_write cod w st")
    case (Pair r st1)
    show ?thesis
    proof (cases r)
      case None
      with Cons.prems Pair have "apply_writes cod ws st1 = (Some e, st')" by simp
      from Cons.IH[OF this] obtain i st2 where "i < length ws" "apply_writes cod (take i ws) st1 = (None, st2)"
        "apply_write cod (ws ! i) st2 = (Some e, st')" by blast
      then show ?thesis using Pair None by (intro exI[of _ "Suc i"]) auto
    next
      case (Some e')
      with Cons.prems Pair show ?thesis by (intro exI[of _ 0]) auto
    qed
  qed
qed simp

section \<open>Provider histories stay aligned with their channel\<close>

definition history_ok :: "json \<Rightarrow> 'm provider_history \<Rightarrow> bool" where
  "history_ok v h \<longleftrightarrow> ph_projection h = v \<and> is_array v \<and> length (ph_messages h) = json_size v"

definition histories_aligned :: "'m graph_state \<Rightarrow> bool" where
  "histories_aligned st \<longleftrightarrow>
     (\<forall>c h. map_of (provider_histories st) c = Some h \<longrightarrow>
        has_channel st c \<and> history_ok (get_channel st c) h)"

lemma json_elems_length [simp]: "is_array j \<Longrightarrow> length (json_elems j) = json_size j"
  by (cases j) auto

lemma json_eq_array_size: "json_eq a b \<Longrightarrow> is_array b \<Longrightarrow> is_array a \<and> json_size a = json_size b"
  by (cases a; cases b) auto

lemma select_messages_length: "select_messages cands items = Inr ms \<Longrightarrow> length ms = length items"
  by (induction cands items arbitrary: ms rule: select_messages.induct) (auto split: list.splits prod.splits)

lemma incoming_messages_length:
  "incoming_messages cod incoming native = Inr ms \<Longrightarrow>
   (case native of None \<Rightarrow> True | Some n \<Rightarrow> native_matches cod n incoming) \<Longrightarrow> is_array incoming \<Longrightarrow>
   length ms = json_size incoming"
  by (auto simp: incoming_messages_def native_matches_def dest!: map_result_length split: option.splits)

lemma history_update_ok:
  assumes "history_update cod ch before incoming after native h = Inr h'"
    and "is_array (ph_projection h)" "length (ph_messages h) = json_size (ph_projection h)"
  shows "history_ok after h'"
proof -
  have arr: "is_array after" and nat: "case native of None \<Rightarrow> True | Some n \<Rightarrow> native_matches cod n incoming"
    using assms(1) by (auto simp: history_update_def split: if_splits option.splits)
  show ?thesis
  proof (cases "appends_cleanly ch (ph_projection h) before incoming after")
    case True
    then obtain ms where ms: "incoming_messages cod incoming native = Inr ms"
      "h' = \<lparr>ph_messages = ph_messages h @ ms, ph_projection = after\<rparr>"
      using assms(1) arr nat by (auto simp: history_update_def split: if_splits option.splits)
    have "json_size before = json_size (ph_projection h)"
      using True assms(2) json_eq_array_size by (auto simp: appends_cleanly_def)
    with ms True incoming_messages_length[OF ms(1) nat] arr assms(3) show ?thesis
      by (simp add: history_ok_def appends_cleanly_def)
  next
    case False
    then obtain cands projs ms where "select_messages (zip projs cands) (json_elems after) = Inr ms"
      "h' = \<lparr>ph_messages = ms, ph_projection = after\<rparr>"
      using assms(1) arr nat by (auto simp: history_update_def split: if_splits option.splits prod.splits)
    with select_messages_length[OF this(1)] arr show ?thesis by (simp add: history_ok_def)
  qed
qed

lemma apply_write_aligned:
  assumes "histories_aligned st" "apply_write cod w st = (None, st')"
  shows "histories_aligned st'"
proof -
  let ?c = "cw_channel w"
  from assms(2) obtain ch v where ch: "map_of (channels st) ?c = Some ch"
    "fst (write_history cod w ch v st) = None"
    "st' = store_value ?c ch v (snd (write_history cod w ch v st))"
    by (rule apply_write_okE)
  have chs: "map_of (channels st') d = (if d = ?c then Some (ch\<lparr>ch_value := v, ch_version := global_version st + 1\<rparr>)
      else map_of (channels st) d)" for d
    using ch(3) by (simp add: store_value_def)
  have lookup: "get_channel st' d = (if d = ?c then v else get_channel st d)"
    "has_channel st' d \<longleftrightarrow> d = ?c \<or> has_channel st d" for d
    by (simp_all add: get_channel_def has_channel_def chs)
  show ?thesis
  proof (cases "cw_native w \<noteq> None \<or> has_history st ?c")
    case True
    let ?before = "if cw_mode w = Overwrite then JArray [] else ch_value ch"
    obtain h' where h': "history_update cod ch ?before (cw_value w) v (cw_native w) (history_of st ?c) = Inr h'"
      and st': "provider_histories st' = smap_put ?c h' (provider_histories st)"
      using ch(2,3) True
      by (auto simp: write_history_def update_provider_history_def Let_def store_value_def put_history_def
          split: sum.splits)
    have "is_array (ph_projection (history_of st ?c)) \<and>
          length (ph_messages (history_of st ?c)) = json_size (ph_projection (history_of st ?c))"
      using assms(1)
      by (auto simp: history_of_def empty_history_def histories_aligned_def history_ok_def split: option.splits)
    then have "history_ok v h'" using history_update_ok[OF h'] by blast
    then show ?thesis using assms(1)
      by (auto simp: histories_aligned_def lookup st' split: if_splits)
  next
    case False
    then have "provider_histories st' = provider_histories st" "map_of (provider_histories st) ?c = None"
      using ch(3) by (simp_all add: write_history_def store_value_def has_history_def)
    then show ?thesis using assms(1) by (auto simp: histories_aligned_def lookup)
  qed
qed

lemma apply_writes_aligned:
  "histories_aligned st \<Longrightarrow> apply_writes cod ws st = (None, st') \<Longrightarrow> histories_aligned st'"
proof (induction ws arbitrary: st)
  case (Cons w ws)
  from Cons.prems(2) obtain st1 where st1: "apply_write cod w st = (None, st1)"
    "apply_writes cod ws st1 = (None, st')" by (rule apply_writes_ConsE)
  show ?case using Cons.IH[OF apply_write_aligned[OF Cons.prems(1) st1(1)] st1(2)] .
qed simp

text \<open>A reducer keeps messages in order and never splits a native replay group.\<close>

lemma select_messages_subseq: "select_messages cands items = Inr ms \<Longrightarrow> subseq ms (map snd cands)"
proof (induction cands items arbitrary: ms rule: select_messages.induct)
  case (2 cands item items)
  from "2.prems" obtain p m rest ms' where *: "dropWhile (\<lambda>(p, m). \<not> json_eq p item) cands = (p, m) # rest"
    "select_messages rest items = Inr ms'" "ms = m # ms'"
    by (auto split: list.splits prod.splits)
  have "subseq ms' (map snd rest)" using "2.IH"[OF *(1)] * by simp
  then have "subseq ms (map snd ((p, m) # rest))" using * by simp
  moreover have "cands = takeWhile (\<lambda>(p, m). \<not> json_eq p item) cands @ (p, m) # rest"
    using *(1) takeWhile_dropWhile_id by metis
  ultimately show ?case by (metis list_emb_append2 map_append)
qed simp

lemma subseq_map_snd_zip: "subseq (map snd (zip xs ys)) ys"
  by (metis append_take_drop_id list_emb_append2 map_snd_zip_take prefix_imp_subseq take_is_prefix)

lemma mem_map_filter: "y \<in> set (List.map_filter f xs) \<longleftrightarrow> (\<exists>x \<in> set xs. f x = Some y)"
  by (force simp: map_filter_def)

lemma group_count_zero: "g \<notin> set (List.map_filter (mc_native cod) ms) \<Longrightarrow> group_count cod ms g = 0"
  by (auto simp: group_count_def mem_map_filter filter_empty_conv)

lemma groups_whole_count:
  assumes "groups_whole cod cands selected"
  shows "group_count cod selected g = 0 \<or> group_count cod selected g = group_count cod cands g"
proof (cases "g \<in> set (List.map_filter (mc_native cod) selected)")
  case True
  then have "g \<in> set (List.map_filter (mc_native cod) (cands @ selected))" by (auto simp: mem_map_filter)
  then show ?thesis using assms by (auto simp: groups_whole_def list_all_iff)
qed (simp add: group_count_zero)

lemma history_update_selects:
  assumes "history_update cod ch before incoming after native h = Inr h'"
  shows "\<exists>cands projs. history_candidates cod h before incoming native = Inr (cands, projs) \<and>
           subseq (ph_messages h') cands \<and>
           (\<forall>g. group_count cod (ph_messages h') g \<in> {0, group_count cod cands g})"
proof (cases "appends_cleanly ch (ph_projection h) before incoming after")
  case True
  then obtain ms where "incoming_messages cod incoming native = Inr ms" "ph_messages h' = ph_messages h @ ms"
    using assms by (auto simp: history_update_def split: if_splits option.splits)
  then show ?thesis using True by (simp add: history_candidates_def appends_cleanly_def)
next
  case False
  then obtain cands projs ms where *: "history_candidates cod h before incoming native = Inr (cands, projs)"
    "select_messages (zip projs cands) (json_elems after) = Inr ms" "groups_whole cod cands ms" "ph_messages h' = ms"
    using assms by (auto simp: history_update_def split: if_splits option.splits prod.splits)
  have "subseq ms cands"
    using select_messages_subseq[OF *(2)] subseq_map_snd_zip subseq_order.order_trans by blast
  then show ?thesis using * groups_whole_count[OF *(3)] by auto
qed

section \<open>Checkpoints\<close>

lemma fold_take_entry:
  assumes "distinct (map fst es)"
  shows "map_of (fold (\<lambda>(n, d). take_entry trunc accept n d) es chs) c =
     (case map_of es c of
        None \<Rightarrow> map_of chs c
      | Some d \<Rightarrow> map_option (\<lambda>ch. if accept ch
            then ch\<lparr>ch_value := json_get d ''value'',
                    ch_version := json_value (get_uint64 trunc) d ''version'' 0\<rparr> else ch) (map_of chs c))"
  using assms
proof (induction es arbitrary: chs)
  case (Cons e es)
  obtain n d where e: "e = (n, d)" by (cases e)
  have "map_of es n = None" using Cons.prems e by (simp add: map_of_eq_None_iff)
  with Cons e show ?case
    by (auto simp: take_entry_def split: option.splits)
qed simp

definition same_lifecycles :: "'m graph_state \<Rightarrow> 'm graph_state \<Rightarrow> bool" where
  "same_lifecycles st st0 \<longleftrightarrow>
     list_all2 (\<lambda>(n, ch) (n0, ch0). n = n0 \<and> ch_lifecycle ch = ch_lifecycle ch0) (channels st) (channels st0)"

definition ephemeral_written :: "'m graph_state \<Rightarrow> bool" where
  "ephemeral_written st \<longleftrightarrow> list_ex (\<lambda>(n, ch). is_ephemeral ch \<and> ch_version ch \<noteq> 0) (channels st)"

lemma guard_of_same:
  assumes "list_all2 (\<lambda>(n, ch) (n0, ch0). n = n0 \<and> ch_lifecycle ch = ch_lifecycle ch0) chs chs0"
  shows "guard_of (\<lambda>ch. False) chs0 = guard_of (\<lambda>ch. False) chs"
proof -
  have "map (\<lambda>(n, ch). (n, JBool False)) (filter (\<lambda>(n, ch). is_ephemeral ch) chs0) =
        map (\<lambda>(n, ch). (n, JBool False)) (filter (\<lambda>(n, ch). is_ephemeral ch) chs)"
    using assms by (induction chs chs0 rule: list_all2_induct) (auto simp: is_ephemeral_def)
  moreover from this have "filter (\<lambda>(n, ch). is_ephemeral ch) chs0 = [] \<longleftrightarrow>
      filter (\<lambda>(n, ch). is_ephemeral ch) chs = []"
    by (metis Nil_is_map_conv)
  ultimately show ?thesis by (simp add: guard_of_def Let_def)
qed

lemma map_of_all_False:
  "n \<in> fst ` set xs \<Longrightarrow> map_of (map (\<lambda>(n, ch). (n, JBool False)) xs) n = Some (JBool False)"
  by (induction xs) auto

lemma guard_accepted_iff:
  "guard_accepted (guard_of flag chs) (guard_of (\<lambda>ch. False) chs) \<longleftrightarrow>
     \<not> list_ex (\<lambda>(n, ch). is_ephemeral ch \<and> flag ch) chs"
proof -
  let ?eph = "filter (\<lambda>(n, ch). is_ephemeral ch) chs"
  have "json_eq (JObject (map (\<lambda>(n, ch). (n, JBool (flag ch))) ?eph))
          (JObject (map (\<lambda>(n, ch). (n, JBool False)) ?eph)) \<longleftrightarrow>
        (\<forall>(n, ch) \<in> set ?eph. \<not> flag ch)"
    using map_of_all_False[of _ ?eph] by (fastforce simp: list_all_iff split: option.splits)
  then show ?thesis
    by (auto simp: guard_accepted_def guard_of_def Let_def list_ex_iff filter_empty_conv)
qed

definition snapshot_entries :: "'m graph_state \<Rightarrow> (string \<times> json) list" where
  "snapshot_entries st = map (\<lambda>(n, ch). (n, channel_entry ch)) (filter (\<lambda>(n, ch). \<not> is_ephemeral ch) (channels st))"

lemma channel_snapshot_members:
  "channel_snapshot st True =
     JObject ((if snapshot_entries st = [] then [] else [(''channels'', JObject (snapshot_entries st))])
              @ [(''global_version'', JUint (global_version st))])"
  by (simp add: channel_snapshot_def snapshot_entries_def)

lemma snapshot_entries_distinct: "smap_ok (channels st) \<Longrightarrow> distinct (map fst (snapshot_entries st))"
  using smap_ok_distinct[of "channels st"] distinct_map_filter[of fst "channels st"]
  by (simp add: snapshot_entries_def comp_def case_prod_beta)

lemma map_of_snapshot_entries:
  assumes "smap_ok (channels st)"
  shows "map_of (snapshot_entries st) c =
    (case map_of (channels st) c of
       None \<Rightarrow> None
     | Some ch \<Rightarrow> if is_ephemeral ch then None else Some (channel_entry ch))"
proof -
  have "map_of (map (\<lambda>(n, ch). (n, channel_entry ch)) (filter (\<lambda>(n, ch). \<not> is_ephemeral ch) m)) c =
    (case map_of m c of None \<Rightarrow> None | Some ch \<Rightarrow> if is_ephemeral ch then None else Some (channel_entry ch))"
    if "distinct (map fst m)" for m
    using that
  proof (induction m)
    case (Cons p m)
    have "map_of m (fst p) = None" using Cons.prems by (simp add: map_of_eq_None_iff)
    then show ?case using Cons by (cases p) (auto split: option.splits)
  qed simp
  then show ?thesis using smap_ok_distinct[OF assms] by (simp add: snapshot_entries_def)
qed

text \<open>A snapshot with further members, as the archive of provider histories adds them.\<close>

definition extended_snapshot :: "'m graph_state \<Rightarrow> (string \<times> json) list \<Rightarrow> json" where
  "extended_snapshot st extra = (case channel_snapshot st True of JObject m \<Rightarrow> JObject (m @ extra) | j \<Rightarrow> j)"

definition foreign_members :: "(string \<times> json) list \<Rightarrow> bool" where
  "foreign_members extra \<longleftrightarrow>
     list_all (\<lambda>(k, v). k \<notin> {''channels'', ''global_version'', ''native_checkpoint_required''}) extra"

lemma foreign_members_absent:
  "foreign_members extra \<Longrightarrow> k \<in> {''channels'', ''global_version'', ''native_checkpoint_required''} \<Longrightarrow>
     map_of extra k = None"
  by (fastforce simp: foreign_members_def list_all_iff map_of_eq_None_iff)

lemma extended_snapshot_reads:
  assumes "foreign_members extra"
  shows "native_required (extended_snapshot st extra) = False"
    and "json_value (get_uint64 trunc) (extended_snapshot st extra) ''global_version'' 0 = global_version st"
    and "json_contains (extended_snapshot st extra) ''channels'' \<longleftrightarrow> snapshot_entries st \<noteq> []"
    and "snapshot_entries st \<noteq> [] \<Longrightarrow>
      json_items (json_get (extended_snapshot st extra) ''channels'') = snapshot_entries st"
  using foreign_members_absent[OF assms]
  by (simp_all add: extended_snapshot_def channel_snapshot_members native_required_def json_value_def)

lemma restore_channels_snapshot:
  assumes "foreign_members extra" "smap_ok (channels st)"
  shows "map_of (channels (restore_channels trunc accept (extended_snapshot st extra) st0)) c =
    (case map_of (snapshot_entries st) c of
       None \<Rightarrow> map_of (channels st0) c
     | Some d \<Rightarrow> map_option (\<lambda>ch. if accept ch
            then ch\<lparr>ch_value := json_get d ''value'',
                    ch_version := json_value (get_uint64 trunc) d ''version'' 0\<rparr> else ch) (map_of (channels st0) c))"
  using fold_take_entry[OF snapshot_entries_distinct[OF assms(2)], of trunc accept "channels st0" c]
  by (auto simp: restore_channels_def extended_snapshot_reads[OF assms(1)])

lemma same_lifecycles_find:
  assumes "same_lifecycles st st0" "map_of (channels st) c = Some ch"
  shows "\<exists>ch0. map_of (channels st0) c = Some ch0 \<and> ch_lifecycle ch0 = ch_lifecycle ch"
proof -
  have "\<exists>ch0. map_of ys c = Some ch0 \<and> ch_lifecycle ch0 = ch_lifecycle ch"
    if "list_all2 (\<lambda>(n, ch) (n0, ch0). n = n0 \<and> ch_lifecycle ch = ch_lifecycle ch0) xs ys" "map_of xs c = Some ch"
    for xs ys
    using that by (induction xs ys rule: list_all2_induct) (auto split: if_splits)
  with assms show ?thesis by (simp add: same_lifecycles_def)
qed

lemma restore_checkpoint_guarded:
  assumes "\<not> native_required data" "same_lifecycles st st0" "\<not> ephemeral_written st0"
  shows "restore_checkpoint trunc histories data (ephemeral_checkpoint_guard st) st0 =
    (if ephemeral_written st then Inl (Error RuntimeError ''Cannot resume checkpoint'')
     else bind_result (histories data st0) (\<lambda>st1.
        Inr (restore_channels trunc (\<lambda>ch. \<not> is_ephemeral ch) data st1)))"
proof -
  let ?e = "guard_of (\<lambda>ch. False) (channels st0)"
  have e: "?e = guard_of (\<lambda>ch. False) (channels st)"
    using guard_of_same assms(2) by (auto simp: same_lifecycles_def)
  have acc: "guard_accepted (ephemeral_checkpoint_guard st) ?e \<longleftrightarrow> \<not> ephemeral_written st"
    unfolding e by (simp add: ephemeral_checkpoint_guard_def guard_accepted_iff ephemeral_written_def)
  have nn: "\<not> is_null ?e" if "ephemeral_written st"
    using that unfolding e
    by (auto simp: guard_of_def Let_def ephemeral_written_def list_ex_iff filter_empty_conv)
  have "\<not> list_ex (\<lambda>(n, ch). is_ephemeral ch \<and> ch_version ch \<noteq> 0) (channels st0)"
    using assms(3) by (simp add: ephemeral_written_def)
  then show ?thesis using acc nn
    by (simp add: restore_checkpoint_def raise_error_def assms(1))
qed

lemma restore_checkpoint_snapshot:
  assumes "foreign_members extra" "same_lifecycles st st0" "\<not> ephemeral_written st0"
  shows "restore_checkpoint trunc histories (extended_snapshot st extra) (ephemeral_checkpoint_guard st) st0 =
    (if ephemeral_written st then Inl (Error RuntimeError ''Cannot resume checkpoint'')
     else bind_result (histories (extended_snapshot st extra) st0) (\<lambda>st1.
        Inr (restore_channels trunc (\<lambda>ch. \<not> is_ephemeral ch) (extended_snapshot st extra) st1)))"
  using assms by (intro restore_checkpoint_guarded) (simp_all add: extended_snapshot_reads(1))

section \<open>Properties\<close>

text \<open>An example state: a bounded message log, a scratch channel that is not checkpointed, and a
  codec whose messages are their portable values.\<close>

definition demo_codec :: "json message_codec" where
  "demo_codec = \<lparr>mc_project = (\<lambda>m. m), mc_portable = Inr, mc_native = (\<lambda>m. None)\<rparr>"

definition demo_state :: "json graph_state" where
  "demo_state = \<lparr>channels =
     [(''log'', \<lparr>ch_reducer_type = APPEND, ch_reducer = reducer_append,
          ch_lifecycle = \<lparr>retention = Bounded, retention_limit = 2, persistence = Checkpointed\<rparr>,
          ch_value = JArray [], ch_version = 0\<rparr>),
      (''tmp'', \<lparr>ch_reducer_type = OVERWRITE, ch_reducer = reducer_overwrite,
          ch_lifecycle = \<lparr>retention = Unbounded, retention_limit = 0, persistence = Ephemeral\<rparr>,
          ch_value = JNull, ch_version = 0\<rparr>)],
     global_version = 0, provider_histories = []\<rparr>"

abbreviation put_in :: "string \<Rightarrow> json \<Rightarrow> json channel_write" where
  "put_in c v \<equiv> \<lparr>cw_channel = c, cw_value = v, cw_mode = Reduce, cw_native = None\<rparr>"

definition demo_writes :: "json channel_write list" where
  "demo_writes = [put_in ''log'' (JUint 1), put_in ''log'' (JArray [JUint 2, JUint 3])]"

text \<open>C29: An append channel holds the newest elements of its whole write history: after any number
  of reducing writes, in one batch with writes to other channels, its value is what the retention
  policy keeps of the starting elements followed by all elements written, in order. Truncating
  after every write loses nothing that truncating once at the end would keep.\<close>

theorem append_channel_keeps_newest:
  assumes "apply_writes cod ws st = (None, st')" and "map_of (channels st) c = Some ch"
    and "ch_reducer ch = reducer_append" and "lifecycle_ok (ch_lifecycle ch)"
    and "ch_value ch = JArray (kept (ch_lifecycle ch) xs)"
    and "\<forall>w \<in> set ws. cw_channel w = c \<longrightarrow> cw_mode w = Reduce"
  shows "get_channel st' c = JArray (kept (ch_lifecycle ch)
           (xs @ concat (map (incoming_elems \<circ> cw_value) (filter (\<lambda>w. cw_channel w = c) ws))))"
  using append_channel_apply_writes[OF assms(1,4,2) _ assms(6), of xs] assms(3,5)
  by (auto simp: append_channel_def get_channel_def)

theorem append_channel_keeps_newest_witness:
  "get_channel (snd (apply_writes demo_codec demo_writes demo_state)) ''log'' = JArray [JUint 2, JUint 3]"
proof -
  have run: "apply_writes demo_codec demo_writes demo_state =
      (None, snd (apply_writes demo_codec demo_writes demo_state))"
    by (simp add: demo_writes_def demo_state_def apply_write_def written_value_def write_history_def
        then_store_def has_history_def store_value_def reducer_append_def apply_retention_def)
  obtain ch where ch: "map_of (channels demo_state) ''log'' = Some ch" "ch_reducer ch = reducer_append"
    "lifecycle_ok (ch_lifecycle ch)" "ch_value ch = JArray (kept (ch_lifecycle ch) [])"
    "retention (ch_lifecycle ch) = Bounded" "retention_limit (ch_lifecycle ch) = 2"
    by (simp add: demo_state_def lifecycle_ok_def kept_def)
  have "\<forall>w \<in> set demo_writes. cw_channel w = ''log'' \<longrightarrow> cw_mode w = Reduce"
    by (simp add: demo_writes_def)
  from append_channel_keeps_newest[OF run ch(1-4) this] show ?thesis
    by (simp add: demo_writes_def incoming_elems_def kept_def keep_limit_def ch)
qed

text \<open>C30: Version stamps order the writes of a batch: the counter grows by one per write, modulo
  \<open>2^64\<close>; the last write to a channel stamps it with the counter's value at that write; a channel
  that is not written keeps its value and its stamp.\<close>

theorem apply_writes_stamps:
  assumes "apply_writes cod (ws @ w # vs) st = (None, st')" and "cw_channel w \<notin> cw_channel ` set vs"
  shows "global_version st' = global_version st + of_nat (length ws + Suc (length vs)) \<and>
         channel_version st' (cw_channel w) = global_version st + of_nat (Suc (length ws)) \<and>
         (\<forall>c. c \<notin> cw_channel ` set (ws @ w # vs) \<longrightarrow>
            get_channel st' c = get_channel st c \<and> channel_version st' c = channel_version st c)"
proof -
  have "get_channel st' c = get_channel st c \<and> channel_version st' c = channel_version st c"
    if "c \<notin> cw_channel ` set (ws @ w # vs)" for c
    using apply_writes_untouched[OF assms(1) that] by (simp add: get_channel_def channel_version_def)
  then show ?thesis using apply_writes_version[OF assms(1)] apply_writes_stamp[OF assms] by simp
qed

theorem apply_writes_stamps_witness:
  "channel_version (snd (apply_writes demo_codec demo_writes demo_state)) ''log'' = 2"
proof -
  have run: "apply_writes demo_codec ([put_in ''log'' (JUint 1)] @ put_in ''log'' (JArray [JUint 2, JUint 3]) # [])
      demo_state = (None, snd (apply_writes demo_codec demo_writes demo_state))"
    by (simp add: demo_writes_def demo_state_def apply_write_def written_value_def write_history_def
        then_store_def has_history_def store_value_def reducer_append_def apply_retention_def)
  from apply_writes_stamps[OF run] show ?thesis by (simp add: demo_state_def)
qed

text \<open>C34: A batch is not undone when one of its writes throws: the channels and the counter are those
  the writes before the failing one left.\<close>

theorem apply_writes_failure_keeps_prefix:
  assumes "apply_writes cod ws st = (Some e, st')"
  shows "\<exists>i < length ws. \<exists>st1. apply_writes cod (take i ws) st = (None, st1) \<and>
           fst (apply_write cod (ws ! i) st1) = Some e \<and>
           channels st' = channels st1 \<and> global_version st' = global_version st + of_nat i"
proof -
  from apply_writes_fails_at[OF assms] obtain i st1 where i: "i < length ws"
    "apply_writes cod (take i ws) st = (None, st1)" "apply_write cod (ws ! i) st1 = (Some e, st')"
    by blast
  then show ?thesis
    using apply_write_fail[OF i(3)] apply_writes_version[OF i(2)] by (intro exI[of _ i]) auto
qed

theorem apply_writes_failure_keeps_prefix_witness:
  "\<exists>i < 2. \<exists>st1. apply_writes demo_codec (take i [put_in ''log'' JNull, put_in ''nope'' JNull]) demo_state = (None, st1)"
proof -
  let ?ws = "[put_in ''log'' JNull, put_in ''nope'' JNull]"
  have run: "apply_writes demo_codec ?ws demo_state =
      (Some unknown_channel, snd (apply_writes demo_codec ?ws demo_state))"
    by (simp add: demo_state_def apply_write_def written_value_def write_history_def
        then_store_def has_history_def store_value_def reducer_append_def apply_retention_def)
  have "length ?ws = 2" by simp
  with apply_writes_failure_keeps_prefix[OF run] show ?thesis by metis
qed

text \<open>C35: A provider history stays in step with its channel: if every history's projection is its
  channel's value with one message per element, it is so after a batch of writes that succeeds,
  whatever the reducers and retention policies are.\<close>

theorem provider_histories_aligned:
  assumes "histories_aligned st" and "apply_writes cod ws st = (None, st')"
  shows "histories_aligned st'"
  using apply_writes_aligned[OF assms] .

theorem provider_histories_aligned_witness:
  "histories_aligned (snd (apply_writes demo_codec
     [\<lparr>cw_channel = ''log'', cw_value = JArray [JUint 7], cw_mode = Reduce, cw_native = Some [JUint 7]\<rparr>] demo_state))"
proof -
  let ?ws = "[\<lparr>cw_channel = ''log'', cw_value = JArray [JUint 7], cw_mode = Reduce, cw_native = Some [JUint 7]\<rparr>]"
  have "fst (apply_writes demo_codec ?ws demo_state) = None" by code_simp
  then have run: "apply_writes demo_codec ?ws demo_state = (None, snd (apply_writes demo_codec ?ws demo_state))"
    by (simp add: prod_eq_iff)
  have "histories_aligned demo_state" by (simp add: histories_aligned_def demo_state_def)
  from provider_histories_aligned[OF this run] show ?thesis .
qed

text \<open>Updating a provider history keeps a subsequence of the messages it had and of the incoming
  ones, and every native replay group is kept whole or dropped whole.\<close>

theorem history_keeps_groups_whole:
  assumes "history_update cod ch before incoming after native h = Inr h'"
  shows "\<exists>cands projs. history_candidates cod h before incoming native = Inr (cands, projs) \<and>
           subseq (ph_messages h') cands \<and>
           (\<forall>g. group_count cod (ph_messages h') g \<in> {0, group_count cod cands g})"
  using history_update_selects[OF assms] .

theorem history_keeps_groups_whole_witness:
  "\<exists>cands. subseq [JUint 3] cands \<and> set cands \<subseteq> {JUint 1, JUint 3}"
proof -
  let ?ch = "\<lparr>ch_reducer_type = CUSTOM, ch_reducer = reducer_overwrite,
     ch_lifecycle = \<lparr>retention = Latest, retention_limit = 0, persistence = Checkpointed\<rparr>,
     ch_value = JArray [JUint 1], ch_version = 1\<rparr>"
  let ?h = "\<lparr>ph_messages = [JUint 1], ph_projection = JArray [JUint 1]\<rparr>"
  have run: "history_update demo_codec ?ch (JArray [JUint 1]) (JArray [JUint 3]) (JArray [JUint 3]) None ?h =
      Inr \<lparr>ph_messages = [JUint 3], ph_projection = JArray [JUint 3]\<rparr>"
    by code_simp
  have "history_candidates demo_codec ?h (JArray [JUint 1]) (JArray [JUint 3]) None =
      Inr ([JUint 1, JUint 3], [JUint 1, JUint 3])" by code_simp
  with history_keeps_groups_whole[OF run] show ?thesis by auto
qed

text \<open>C36: A native write that does not match its portable value is refused, but it leaves an empty
  history behind when the channel had none: the channel's provider messages, read back from the
  portable value before the failed write, read as empty after it.\<close>

theorem refused_native_write_empties_history:
  assumes "map_of (channels st) (cw_channel w) = Some ch" and "map_of (provider_histories st) (cw_channel w) = None"
    and "cw_native w = Some ms" and "\<not> native_matches cod ms (cw_value w)"
    and "written_value ch w = Inr v" and "is_array v"
  shows "\<exists>st'. apply_write cod w st =
           (Some (Error InvalidArgument ''Native message write differs from portable projection''), st') \<and>
         channels st' = channels st \<and> get_provider_messages cod st' (cw_channel w) = Inr []"
  using assms
  by (simp add: apply_write_def then_store_def write_history_def update_provider_history_def
      history_of_def history_update_def raise_error_def put_history_def get_provider_messages_def empty_history_def)

theorem refused_native_write_empties_history_witness:
  "get_provider_messages demo_codec (snd (apply_writes demo_codec [put_in ''log'' (JUint 5)] demo_state)) ''log''
     = Inr [JUint 5] \<and>
   (\<exists>st'. apply_write demo_codec
       \<lparr>cw_channel = ''log'', cw_value = JArray [JUint 7], cw_mode = Reduce, cw_native = Some [JUint 8]\<rparr>
       (snd (apply_writes demo_codec [put_in ''log'' (JUint 5)] demo_state)) =
         (Some (Error InvalidArgument ''Native message write differs from portable projection''), st') \<and>
     get_provider_messages demo_codec st' ''log'' = Inr [])"
proof -
  let ?st = "snd (apply_writes demo_codec [put_in ''log'' (JUint 5)] demo_state)"
  let ?w = "\<lparr>cw_channel = ''log'', cw_value = JArray [JUint 7], cw_mode = Reduce, cw_native = Some [JUint 8]\<rparr>"
  have st: "map_of (channels ?st) ''log'' = Some \<lparr>ch_reducer_type = APPEND, ch_reducer = reducer_append,
      ch_lifecycle = \<lparr>retention = Bounded, retention_limit = 2, persistence = Checkpointed\<rparr>,
      ch_value = JArray [JUint 5], ch_version = 1\<rparr>"
    "map_of (provider_histories ?st) ''log'' = None"
    by (simp_all add: demo_state_def apply_write_def written_value_def write_history_def
        then_store_def has_history_def store_value_def reducer_append_def apply_retention_def)
  have bad: "\<not> native_matches demo_codec [JUint 8] (cw_value ?w)" by code_simp
  have v: "written_value \<lparr>ch_reducer_type = APPEND, ch_reducer = reducer_append,
      ch_lifecycle = \<lparr>retention = Bounded, retention_limit = 2, persistence = Checkpointed\<rparr>,
      ch_value = JArray [JUint 5], ch_version = 1\<rparr> ?w = Inr (JArray [JUint 5, JUint 7])"
    by (simp add: written_value_def reducer_append_def apply_retention_def)
  have "get_provider_messages demo_codec ?st ''log'' = Inr [JUint 5]"
    using st by (simp add: get_provider_messages_def demo_codec_def)
  then show ?thesis
    using refused_native_write_empties_history[of ?st ?w, OF _ _ _ bad v] st by auto
qed

text \<open>C22: A checkpoint restores what it recorded. For a state with the same channel declarations whose
  ephemeral channels are unwritten, restoring the snapshot of a state under that state's guard is
  refused if and only if the saved state had written an ephemeral channel; otherwise every
  checkpointed channel has its saved value and version, the counter is the saved one, and ephemeral
  channels stay as they were. Members that provider histories add to the snapshot do not matter.\<close>

theorem checkpoint_roundtrip:
  assumes "smap_ok (channels st)" and "same_lifecycles st st0" and "\<not> ephemeral_written st0"
    and "foreign_members extra"
    and "histories (extended_snapshot st extra) st0 = Inr st1" and "channels st1 = channels st0"
  shows "if ephemeral_written st
         then restore_checkpoint trunc histories (extended_snapshot st extra) (ephemeral_checkpoint_guard st) st0
                = Inl (Error RuntimeError ''Cannot resume checkpoint'')
         else \<exists>st'. restore_checkpoint trunc histories (extended_snapshot st extra)
                  (ephemeral_checkpoint_guard st) st0 = Inr st' \<and> global_version st' = global_version st \<and>
                (\<forall>c ch. map_of (channels st) c = Some ch \<longrightarrow>
                   (if is_ephemeral ch then map_of (channels st') c = map_of (channels st0) c
                    else get_channel st' c = ch_value ch \<and> channel_version st' c = ch_version ch))"
proof (cases "ephemeral_written st")
  case True
  then show ?thesis using restore_checkpoint_snapshot[OF assms(4,2,3)] by simp
next
  case False
  let ?st' = "restore_channels trunc (\<lambda>ch. \<not> is_ephemeral ch) (extended_snapshot st extra) st1"
  have "restore_checkpoint trunc histories (extended_snapshot st extra) (ephemeral_checkpoint_guard st) st0 = Inr ?st'"
    using False restore_checkpoint_snapshot[OF assms(4,2,3)] assms(5) by simp
  moreover have "global_version ?st' = global_version st"
    by (simp add: restore_channels_def extended_snapshot_reads(2)[OF assms(4)])
  moreover have "if is_ephemeral ch then map_of (channels ?st') c = map_of (channels st0) c
      else get_channel ?st' c = ch_value ch \<and> channel_version ?st' c = ch_version ch"
    if ch: "map_of (channels st) c = Some ch" for c ch
  proof -
    obtain ch0 where "map_of (channels st0) c = Some ch0" "is_ephemeral ch0 = is_ephemeral ch"
      using same_lifecycles_find[OF assms(2) ch] by (auto simp: is_ephemeral_def)
    then show ?thesis
      using ch restore_channels_snapshot[OF assms(4,1), of trunc "\<lambda>ch. \<not> is_ephemeral ch" st1 c]
        map_of_snapshot_entries[OF assms(1), of c] assms(6)
      by (simp add: get_channel_def channel_version_def channel_entry_def json_value_def)
  qed
  ultimately show ?thesis using False by auto
qed

theorem checkpoint_roundtrip_witness:
  "\<exists>st'. restore_checkpoint (\<lambda>r. 0) (\<lambda>d s. Inr s)
      (extended_snapshot (snd (apply_writes demo_codec demo_writes demo_state)) [])
      (ephemeral_checkpoint_guard (snd (apply_writes demo_codec demo_writes demo_state))) demo_state = Inr st' \<and>
    global_version st' = 2"
proof -
  let ?st = "snd (apply_writes demo_codec demo_writes demo_state)"
  have chs: "channels ?st = [(''log'', \<lparr>ch_reducer_type = APPEND, ch_reducer = reducer_append,
          ch_lifecycle = \<lparr>retention = Bounded, retention_limit = 2, persistence = Checkpointed\<rparr>,
          ch_value = JArray [JUint 2, JUint 3], ch_version = 2\<rparr>),
      (''tmp'', \<lparr>ch_reducer_type = OVERWRITE, ch_reducer = reducer_overwrite,
          ch_lifecycle = \<lparr>retention = Unbounded, retention_limit = 0, persistence = Ephemeral\<rparr>,
          ch_value = JNull, ch_version = 0\<rparr>)]" "global_version ?st = 2"
    by (simp_all add: demo_writes_def demo_state_def apply_write_def written_value_def write_history_def
        then_store_def has_history_def store_value_def reducer_append_def apply_retention_def)
  have ok: "smap_ok (channels ?st)" unfolding chs by code_simp
  have same: "same_lifecycles ?st demo_state" unfolding same_lifecycles_def chs by (simp add: demo_state_def)
  have fresh: "\<not> ephemeral_written demo_state" "\<not> ephemeral_written ?st"
    unfolding ephemeral_written_def chs by (simp_all add: demo_state_def is_ephemeral_def)
  have "foreign_members []" by (simp add: foreign_members_def)
  from checkpoint_roundtrip[OF ok same fresh(1) this, of "\<lambda>d s. Inr s" demo_state "\<lambda>r. 0"] fresh(2) chs(2)
  show ?thesis by auto
qed

end
