(* ===== verification/NG_Classify.thy ===== *)
theory NG_Classify
  imports NG_Types
begin

text \<open>
  The failure classifier (\<open>src/src/core/tool_failure.cpp\<close>) and the precedence of the endings of a
  step's invocations (\<open>step_outcome\<close> in \<open>src/src/core/graph_executor.cpp\<close>).

  A C++ exception is a value of \<open>exn\<close>: what the \<open>catch\<close> clauses of \<open>CauseWalker::visit\<close> can
  tell about it, the cause a \<open>NodeExecutionError\<close> or \<open>ProviderOutcomeError\<close> carries, and the
  exception a \<open>std::nested_exception\<close> holds. An exception of several of the classes is the one
  whose clause comes first.
\<close>

section \<open>Failure classes\<close>

datatype node_failure_class =
    Ordinary | Timeout | ProviderFailed | EffectCommitted | CLogicError | ConfigError | SafetyBlocked
  | BudgetExhausted | EffectUncertain | Unknown | Interrupted | HookBlocked | CCancelled

text \<open>The values are ordered by severity, as the enumeration numbers them.\<close>

fun severity :: "node_failure_class \<Rightarrow> nat" where
  "severity Ordinary = 0"
| "severity Timeout = 1"
| "severity ProviderFailed = 2"
| "severity EffectCommitted = 3"
| "severity CLogicError = 4"
| "severity ConfigError = 5"
| "severity SafetyBlocked = 6"
| "severity BudgetExhausted = 7"
| "severity EffectUncertain = 8"
| "severity Unknown = 9"
| "severity Interrupted = 10"
| "severity HookBlocked = 11"
| "severity CCancelled = 12"

lemma severity_inj [simp]: "severity a = severity b \<longleftrightarrow> a = b"
  by (cases a; cases b) simp_all

instantiation node_failure_class :: linorder
begin

definition less_eq_node_failure_class :: "node_failure_class \<Rightarrow> node_failure_class \<Rightarrow> bool" where
  "less_eq_node_failure_class a b \<longleftrightarrow> severity a \<le> severity b"

definition less_node_failure_class :: "node_failure_class \<Rightarrow> node_failure_class \<Rightarrow> bool" where
  "less_node_failure_class a b \<longleftrightarrow> severity a < severity b"

instance
  by standard (auto simp: less_eq_node_failure_class_def less_node_failure_class_def order_antisym_conv)

end

fun node_failure_code :: "node_failure_class \<Rightarrow> string" where
  "node_failure_code Ordinary = ''NG.TaskFailed''"
| "node_failure_code Timeout = ''NG.Timeout''"
| "node_failure_code ProviderFailed = ''NG.ProviderFailed''"
| "node_failure_code EffectCommitted = ''NG.EffectCommitted''"
| "node_failure_code CLogicError = ''NG.LogicError''"
| "node_failure_code ConfigError = ''NG.ConfigError''"
| "node_failure_code SafetyBlocked = ''NG.SafetyBlocked''"
| "node_failure_code BudgetExhausted = ''NG.BudgetExhausted''"
| "node_failure_code EffectUncertain = ''NG.EffectUncertain''"
| "node_failure_code Unknown = ''NG.UnknownFailure''"
| "node_failure_code Interrupted = ''NG.Interrupted''"
| "node_failure_code HookBlocked = ''NG.HookBlocked''"
| "node_failure_code CCancelled = ''NG.Cancelled''"

definition node_failure_retryable :: "node_failure_class \<Rightarrow> bool" where
  "node_failure_retryable c \<longleftrightarrow> c = Ordinary \<or> c = Timeout"

definition node_failure_routable :: "node_failure_class \<Rightarrow> bool" where
  "node_failure_routable c \<longleftrightarrow> c \<le> EffectCommitted"

datatype node_failure_kind =
    Exhausted | NonRetryable | KEffectCommitted | Deadline | Ceiling | VisitLimit

fun kind_to_string :: "node_failure_kind \<Rightarrow> string" where
  "kind_to_string Exhausted = ''exhausted''"
| "kind_to_string NonRetryable = ''non_retryable''"
| "kind_to_string KEffectCommitted = ''effect_committed''"
| "kind_to_string Deadline = ''deadline''"
| "kind_to_string Ceiling = ''ceiling''"
| "kind_to_string VisitLimit = ''visit_limit''"

record failure_effect =
  fe_tool :: string
  fe_ordinal :: u64
  fe_status :: string

record node_failure =
  nf_node :: string
  nf_code :: string
  nf_public_message :: string
  nf_class :: node_failure_class
  nf_kind :: node_failure_kind
  nf_retryable :: bool
  nf_routable :: bool
  nf_attempts :: int
  nf_effects :: "failure_effect list"

section \<open>Exceptions\<close>

text \<open>The provider error kinds the classifier distinguishes, and what it reads of a failed outcome.\<close>

datatype provider_error_kind =
    Transport | Truncated | DeadlineExceeded | Overloaded | RateLimited | RemoteFailure
  | QuotaExhausted | ResourceLimit | InvalidConfig | InvalidRequest | Unsupported | Misuse
  | ReplayIneligible | Authentication | Permission | NotFound | LimitUnknown | PCancelled
  | ProtocolCorrupt

record provider_failure =
  pf_safety_stop :: bool
  pf_kind :: provider_error_kind
  pf_http_status :: int

datatype asio_code = OperationAborted | TimedOut | OtherCode

record tool_result =
  tr_effect_uncertain :: bool
  tr_reconciliation :: bool
  tr_timed_out :: bool
  tr_refused :: bool
  tr_retryable :: bool

datatype exn_kind =
    XCancelled
  | XHookBlocked
  | XInterrupt string json
  | XAttemptTimeout bool
  | XConfiguration
  | XNodeFailure string string "bool option"
  | XNodeExecution "node_failure option"
  | XProviderOutcome
  | XToolExecution tool_result
  | XProviderFailure "provider_failure option"
  | XAsio asio_code
  | XBadAlloc
  | XLogicError
  | XRuntimeError "bool option"
  | XStdException
  | XForeign

datatype exn = Exn (exn_kind: exn_kind) (exn_cause: "exn option") (exn_nested: "exn option")

definition provider_failure_class :: "bool \<Rightarrow> provider_failure option \<Rightarrow> node_failure_class" where
  "provider_failure_class cancelled failure =
     (case failure of
        None \<Rightarrow> Unknown
      | Some f \<Rightarrow>
          if pf_safety_stop f then SafetyBlocked
          else
            (case pf_kind f of
               Transport \<Rightarrow> ProviderFailed
             | Truncated \<Rightarrow> ProviderFailed
             | DeadlineExceeded \<Rightarrow> ProviderFailed
             | Overloaded \<Rightarrow> ProviderFailed
             | RateLimited \<Rightarrow> ProviderFailed
             | RemoteFailure \<Rightarrow>
                 if pf_http_status f \<ge> 500 \<and> pf_http_status f \<le> 599 then ProviderFailed else Unknown
             | QuotaExhausted \<Rightarrow> BudgetExhausted
             | ResourceLimit \<Rightarrow> BudgetExhausted
             | PCancelled \<Rightarrow> if cancelled then CCancelled else Unknown
             | ProtocolCorrupt \<Rightarrow> Unknown
             | _ \<Rightarrow> ConfigError))"

section \<open>The cause walk\<close>

record walker =
  w_class :: "node_failure_class option"
  w_code :: string
  w_message :: string
  w_not_retryable :: bool

definition new_walker :: walker where
  "new_walker = \<lparr>w_class = None, w_code = [], w_message = [], w_not_retryable = False\<rparr>"

definition found :: "node_failure_class \<Rightarrow> string \<Rightarrow> string \<Rightarrow> walker \<Rightarrow> walker" where
  "found c code msg w =
     (if (case w_class w of None \<Rightarrow> False | Some best \<Rightarrow> c \<le> best) then w
      else w\<lparr>w_class := Some c, w_code := code, w_message := msg\<rparr>)"

text \<open>
  \<open>finding\<close> is what \<open>visit\<close> reports about one exception: its class, code and message, and
  whether it rules out a retry whatever else is found. \<open>cancelled\<close> says whether the run's own
  token was cancelled.
\<close>

definition finding :: "bool \<Rightarrow> exn_kind \<Rightarrow> node_failure_class \<times> string \<times> string" where
  "finding cancelled k =
     (case k of
        XCancelled \<Rightarrow> (CCancelled, [], [])
      | XHookBlocked \<Rightarrow> (HookBlocked, [], [])
      | XInterrupt _ _ \<Rightarrow> (Interrupted, [], [])
      | XAttemptTimeout stopped \<Rightarrow> (if stopped then Timeout else EffectUncertain, [], [])
      | XConfiguration \<Rightarrow> (ConfigError, [], [])
      | XNodeFailure code msg _ \<Rightarrow> (Ordinary, code, msg)
      | XNodeExecution rec \<Rightarrow>
          (case rec of
             Some r \<Rightarrow> if nf_class r \<noteq> Ordinary then (nf_class r, nf_code r, nf_public_message r)
                       else (Ordinary, ''NG.SubgraphFailed'', [])
           | None \<Rightarrow> (Ordinary, ''NG.SubgraphFailed'', []))
      | XProviderOutcome \<Rightarrow> (EffectUncertain, [], [])
      | XToolExecution r \<Rightarrow>
          (if tr_effect_uncertain r \<or> tr_reconciliation r then EffectUncertain
           else if tr_timed_out r then Timeout else Ordinary, [], [])
      | XProviderFailure f \<Rightarrow> (provider_failure_class cancelled f, [], [])
      | XAsio code \<Rightarrow>
          (if cancelled \<and> code = OperationAborted then CCancelled
           else if code = TimedOut then Timeout else Ordinary, [], [])
      | XBadAlloc \<Rightarrow> (Unknown, [], [])
      | XLogicError \<Rightarrow> (CLogicError, [], [])
      | XRuntimeError _ \<Rightarrow> (Ordinary, [], [])
      | XStdException \<Rightarrow> (Unknown, [], [])
      | XForeign \<Rightarrow> (Unknown, [], []))"

definition forbids_retry :: "exn_kind \<Rightarrow> bool" where
  "forbids_retry k =
     (case k of
        XNodeFailure _ _ r \<Rightarrow> r = Some False
      | XNodeExecution (Some r) \<Rightarrow> nf_class r = Ordinary \<and> \<not> nf_retryable r
      | XToolExecution r \<Rightarrow>
          \<not> (tr_effect_uncertain r \<or> tr_reconciliation r) \<and> \<not> tr_timed_out r \<and>
          tr_refused r \<and> \<not> tr_retryable r
      | XRuntimeError refusal \<Rightarrow> refusal = Some False
      | _ \<Rightarrow> False)"

definition visit :: "bool \<Rightarrow> exn_kind \<Rightarrow> walker \<Rightarrow> walker" where
  "visit cancelled k w =
     (case finding cancelled k of
        (c, code, msg) \<Rightarrow>
          let w' = found c code msg w
          in if forbids_retry k then w'\<lparr>w_not_retryable := True\<rparr> else w')"

text \<open>The exceptions \<open>visit\<close> returns for further inspection, the cause first.\<close>

definition next_causes :: "exn \<Rightarrow> exn list" where
  "next_causes e =
     (let cause = (case exn_cause e of None \<Rightarrow> [] | Some c \<Rightarrow> [c]);
          nested = (case exn_nested e of None \<Rightarrow> [] | Some n \<Rightarrow> [n])
      in case exn_kind e of
           XHookBlocked \<Rightarrow> []
         | XBadAlloc \<Rightarrow> []
         | XForeign \<Rightarrow> []
         | XProviderFailure _ \<Rightarrow> []
         | XNodeExecution _ \<Rightarrow> cause @ nested
         | XProviderOutcome \<Rightarrow> cause @ nested
         | _ \<Rightarrow> nested)"

definition kMaxCauseDepth :: nat where
  "kMaxCauseDepth = 64"

definition kMaxCauses :: nat where
  "kMaxCauses = 256"

lemma next_causes_size: "sum_list (map size (next_causes e)) < size e"
  by (cases e) (auto simp: next_causes_def Let_def split: exn_kind.splits option.splits)

function walk_loop :: "bool \<Rightarrow> (exn \<times> nat) list \<Rightarrow> nat \<Rightarrow> walker \<Rightarrow> walker" where
  "walk_loop cancelled [] visited w = w"
| "walk_loop cancelled ((e, depth) # pending) visited w =
     (if depth > kMaxCauseDepth \<or> visited + 1 > kMaxCauses then found Unknown [] [] w
      else walk_loop cancelled (map (\<lambda>c. (c, depth + 1)) (next_causes e) @ pending) (visited + 1)
             (visit cancelled (exn_kind e) w))"
  by pat_completeness auto

termination
  by (relation "measure (\<lambda>(_, pending, _, _). sum_list (map (size \<circ> fst) pending))")
     (use next_causes_size in \<open>auto simp: comp_def\<close>)

record verdict =
  v_class :: node_failure_class
  v_code :: string
  v_message :: string
  v_retryable :: bool
  v_routable :: bool

definition verdict_of :: "walker \<Rightarrow> verdict" where
  "verdict_of w =
     (let c = (case w_class w of None \<Rightarrow> Unknown | Some c \<Rightarrow> c)
      in \<lparr>v_class = c, v_code = (if w_code w = [] then node_failure_code c else w_code w),
          v_message = w_message w,
          v_retryable = (node_failure_retryable c \<and> \<not> w_not_retryable w),
          v_routable = node_failure_routable c\<rparr>)"

definition classify_node_failure :: "bool \<Rightarrow> exn option \<Rightarrow> verdict" where
  "classify_node_failure cancelled error =
     verdict_of (case error of None \<Rightarrow> new_walker
                 | Some e \<Rightarrow> walk_loop cancelled [(e, 0)] 0 new_walker)"

datatype tool_failure_class = TCancelled | THookBlocked | TInterrupted | TToolError

definition classify_tool_failure :: "bool \<Rightarrow> exn option \<Rightarrow> tool_failure_class" where
  "classify_tool_failure cancelled error =
     (case v_class (classify_node_failure cancelled error) of
        CCancelled \<Rightarrow> TCancelled
      | HookBlocked \<Rightarrow> THookBlocked
      | Interrupted \<Rightarrow> TInterrupted
      | _ \<Rightarrow> TToolError)"

text \<open>\<open>classify_failure\<close>: the verdict a host reports (its class, code, flags).\<close>

record failure_verdict =
  fv_class :: node_failure_class
  fv_code :: string
  fv_message :: string
  fv_retryable :: bool
  fv_retryable_by_class :: bool
  fv_routable :: bool

definition classify_failure :: "bool \<Rightarrow> exn option \<Rightarrow> failure_verdict" where
  "classify_failure cancelled error =
     (case error of
        Some (Exn (XNodeExecution (Some r)) _ _) \<Rightarrow>
          (let by_class = nf_retryable r \<or> nf_class r = ProviderFailed
           in \<lparr>fv_class = nf_class r, fv_code = nf_code r, fv_message = nf_public_message r,
               fv_retryable = (by_class \<and> nf_kind r \<noteq> Exhausted), fv_retryable_by_class = by_class,
               fv_routable = nf_routable r\<rparr>)
      | _ \<Rightarrow>
          (let classified = (case error of
                 Some (Exn (XNodeExecution None) (Some c) _) \<Rightarrow> Some c
               | _ \<Rightarrow> error);
               v = classify_node_failure cancelled classified;
               by_class = v_retryable v \<or> v_class v = ProviderFailed
           in \<lparr>fv_class = v_class v, fv_code = v_code v, fv_message = v_message v,
               fv_retryable = by_class, fv_retryable_by_class = by_class, fv_routable = v_routable v\<rparr>))"

section \<open>Author codes\<close>

definition code_lower :: "char \<Rightarrow> bool" where
  "code_lower c \<longleftrightarrow> CHR ''a'' \<le> c \<and> c \<le> CHR ''z''"

definition code_tail :: "char \<Rightarrow> bool" where
  "code_tail c \<longleftrightarrow> code_lower c \<or> (CHR ''0'' \<le> c \<and> c \<le> CHR ''9'') \<or> c = CHR ''_''"

fun scan_code :: "string \<Rightarrow> nat \<Rightarrow> nat \<Rightarrow> bool" where
  "scan_code [] segments len \<longleftrightarrow> segments \<ge> 2 \<and> len > 0"
| "scan_code (c # cs) segments len \<longleftrightarrow>
     (if c = CHR ''.'' then len \<noteq> 0 \<and> scan_code cs (segments + 1) 0
      else if code_tail c then scan_code cs segments (len + 1)
      else False)"

definition is_author_failure_code :: "string \<Rightarrow> bool" where
  "is_author_failure_code code \<longleftrightarrow>
     (if code = [] \<or> length code > 128 then False
      else if length code \<ge> 3 \<and> take 3 code = ''ng.'' then False
      else if \<not> code_lower (hd code) then False
      else scan_code (tl code) 1 1)"

section \<open>How a step ends\<close>

datatype invocation_exit = EInterrupt | EFailure | EReconciliation | EStop

definition exit_of :: "exn \<Rightarrow> invocation_exit" where
  "exit_of e =
     (case exn_kind e of
        XInterrupt _ v \<Rightarrow>
          if is_object v \<and> json_value get_string v ''kind'' [] = ''tool_effect_reconciliation''
          then EReconciliation else EInterrupt
      | XCancelled \<Rightarrow> EStop
      | XBadAlloc \<Rightarrow> EStop
      | _ \<Rightarrow> EFailure)"

record step_scan =
  ss_stop :: "nat option"
  ss_failure :: "nat option"
  ss_reconciliations :: "nat list"
  ss_interrupts :: "nat list"

record step_end =
  so_end :: "nat option"
  so_pause :: "nat list"
  so_beside_failure :: bool

fun scan_exits :: "nat \<Rightarrow> exn option list \<Rightarrow> step_scan \<Rightarrow> step_scan" where
  "scan_exits i [] s = s"
| "scan_exits i (None # es) s = scan_exits (Suc i) es s"
| "scan_exits i (Some e # es) s =
     scan_exits (Suc i) es
       (case exit_of e of
          EStop \<Rightarrow> if ss_stop s = None then s\<lparr>ss_stop := Some i\<rparr> else s
        | EFailure \<Rightarrow> if ss_failure s = None then s\<lparr>ss_failure := Some i\<rparr> else s
        | EReconciliation \<Rightarrow>
            s\<lparr>ss_reconciliations := ss_reconciliations s @ [i], ss_interrupts := ss_interrupts s @ [i]\<rparr>
        | EInterrupt \<Rightarrow> s\<lparr>ss_interrupts := ss_interrupts s @ [i]\<rparr>)"

definition step_outcome :: "exn option list \<Rightarrow> step_end" where
  "step_outcome errors =
     (let s = scan_exits 0 errors
                \<lparr>ss_stop = None, ss_failure = None, ss_reconciliations = [], ss_interrupts = []\<rparr>
      in case ss_stop s of
           Some i \<Rightarrow> \<lparr>so_end = Some i, so_pause = [], so_beside_failure = False\<rparr>
         | None \<Rightarrow>
             if ss_failure s \<noteq> None \<and> ss_reconciliations s = []
             then \<lparr>so_end = ss_failure s, so_pause = [], so_beside_failure = False\<rparr>
             else \<lparr>so_end = None,
                   so_pause = (if ss_failure s \<noteq> None then ss_reconciliations s else ss_interrupts s),
                   so_beside_failure = (ss_failure s \<noteq> None)\<rparr>)"

section \<open>What the walk visits\<close>

function members :: "nat \<Rightarrow> exn \<Rightarrow> (exn \<times> nat) list" where
  "members d e = (e, d) # concat (map (members (Suc d)) (next_causes e))"
  by pat_completeness auto

termination
proof (relation "measure (\<lambda>(d, e). size e)")
  fix d e x assume "x \<in> set (next_causes e)"
  then have "size x \<le> sum_list (map size (next_causes e))" by (simp add: member_le_sum_list)
  with next_causes_size[of e] show "((Suc d, x), d, e) \<in> measure (\<lambda>(d, e). size e)" by simp
qed simp

declare members.simps [simp del]

definition within_limits :: "nat \<Rightarrow> (exn \<times> nat) list \<Rightarrow> bool" where
  "within_limits visited ms \<longleftrightarrow>
     list_all (\<lambda>(e, d). d \<le> kMaxCauseDepth) ms \<and> visited + length ms \<le> kMaxCauses"

abbreviation pending_members :: "(exn \<times> nat) list \<Rightarrow> (exn \<times> nat) list" where
  "pending_members pending \<equiv> concat (map (\<lambda>(e, d). members d e) pending)"

abbreviation visit_all :: "bool \<Rightarrow> (exn \<times> nat) list \<Rightarrow> walker \<Rightarrow> walker" where
  "visit_all cancelled ms \<equiv> fold (\<lambda>(e, d). visit cancelled (exn_kind e)) ms"

lemma pending_members_step:
  "pending_members ((e, d) # pending) =
     (e, d) # pending_members (map (\<lambda>c. (c, d + 1)) (next_causes e) @ pending)"
  by (simp add: members.simps[of d e] comp_def)

lemma walk_loop_within:
  "within_limits visited (pending_members pending) \<Longrightarrow>
     walk_loop cancelled pending visited w = visit_all cancelled (pending_members pending) w"
proof (induction cancelled pending visited w rule: walk_loop.induct)
  case (2 cancelled e d pending visited w)
  let ?rest = "pending_members (map (\<lambda>c. (c, d + 1)) (next_causes e) @ pending)"
  have lim: "d \<le> kMaxCauseDepth" "visited + 1 \<le> kMaxCauses" "within_limits (visited + 1) ?rest"
    using "2.prems" unfolding pending_members_step by (simp_all add: within_limits_def)
  then have go: "\<not> (kMaxCauseDepth < d \<or> kMaxCauses < visited + 1)" by simp
  show ?case unfolding pending_members_step using "2.IH"[OF go lim(3)] go by simp
qed simp

lemma walk_loop_beyond:
  "\<not> within_limits visited (pending_members pending) \<Longrightarrow> visited \<le> kMaxCauses \<Longrightarrow>
     \<exists>ms. walk_loop cancelled pending visited w = found Unknown [] [] (visit_all cancelled ms w)"
proof (induction cancelled pending visited w rule: walk_loop.induct)
  case (1 cancelled visited w)
  then show ?case by (simp add: within_limits_def)
next
  case (2 cancelled e d pending visited w)
  let ?rest = "pending_members (map (\<lambda>c. (c, d + 1)) (next_causes e) @ pending)"
  show ?case
  proof (cases "kMaxCauseDepth < d \<or> kMaxCauses < visited + 1")
    case True
    then show ?thesis by (intro exI[of _ "[]"]) simp
  next
    case False
    then have "\<not> within_limits (visited + 1) ?rest" "visited + 1 \<le> kMaxCauses"
      using "2.prems"(1) unfolding pending_members_step by (simp_all add: within_limits_def)
    from "2.IH"[OF False this] obtain ms where
      "walk_loop cancelled (map (\<lambda>c. (c, d + 1)) (next_causes e) @ pending) (visited + 1)
         (visit cancelled (exn_kind e) w) =
       found Unknown [] [] (visit_all cancelled ms (visit cancelled (exn_kind e) w))" by blast
    then show ?thesis using False by (intro exI[of _ "(e, d) # ms"]) simp
  qed
qed

section \<open>The most severe finding wins\<close>

definition class_of :: "bool \<Rightarrow> exn \<times> nat \<Rightarrow> node_failure_class" where
  "class_of cancelled m = fst (finding cancelled (exn_kind (fst m)))"

definition first_worst :: "bool \<Rightarrow> (exn \<times> nat) list \<Rightarrow> (exn \<times> nat) option" where
  "first_worst cancelled ms = find (\<lambda>m. class_of cancelled m = Max (class_of cancelled ` set ms)) ms"

lemma find_append: "find P (xs @ ys) = (case find P xs of None \<Rightarrow> find P ys | Some x \<Rightarrow> Some x)"
  by (induction xs) auto

lemma find_None_greater:
  assumes "\<forall>m \<in> set ms. f m < (c :: 'a::linorder)"
  shows "find (\<lambda>m. f m = c) ms = None"
  using assms by (auto simp: find_None_iff)

lemma find_Max:
  assumes "ms \<noteq> []"
  shows "find (\<lambda>m. f m = Max (f ` set ms)) ms \<noteq> None"
proof -
  have "Max (f ` set ms) \<in> f ` set ms" using assms by (intro Max_in) auto
  then obtain m where "m \<in> set ms" "f m = Max (f ` set ms)" by (metis imageE)
  then show ?thesis unfolding find_None_iff by blast
qed

lemma first_worst_snoc:
  "first_worst cancelled (ms @ [m]) =
     (if ms \<noteq> [] \<and> class_of cancelled m \<le> Max (class_of cancelled ` set ms)
      then first_worst cancelled ms else Some m)"
proof (cases "ms = []")
  case False
  let ?c = "class_of cancelled m" and ?M = "Max (class_of cancelled ` set ms)"
  have max: "Max (class_of cancelled ` set (ms @ [m])) = max ?c ?M" using False by simp
  have some: "find (\<lambda>m. class_of cancelled m = ?M) ms \<noteq> None" using False by (rule find_Max)
  show ?thesis
  proof (cases "?c \<le> ?M")
    case True
    then show ?thesis using max some False by (auto simp: first_worst_def find_append max_def)
  next
    case less: False
    have "find (\<lambda>m. class_of cancelled m = ?c) ms = None"
      using less by (intro find_None_greater) (meson List.finite_set Max_ge finite_imageI image_eqI le_less_trans not_le)
    then show ?thesis using max less False by (simp add: first_worst_def find_append max_def)
  qed
qed (simp add: first_worst_def)

lemma Max_snoc: "ms \<noteq> [] \<Longrightarrow> Max (f ` set (ms @ [m])) = max (f m) (Max (f ` set ms))"
  by simp

lemma visit_summary:
  assumes "finding cancelled k = (c, code, msg)" "w_class w = Some best"
  shows "w_class (visit cancelled k w) = Some (max c best)"
    and "w_not_retryable (visit cancelled k w) = (w_not_retryable w \<or> forbids_retry k)"
    and "w_code (visit cancelled k w) = (if c \<le> best then w_code w else code)"
  using assms by (simp_all add: visit_def found_def Let_def max_def)

lemma visit_all_summary:
  "w_class (visit_all cancelled ms new_walker) =
     (if ms = [] then None else Some (Max (class_of cancelled ` set ms))) \<and>
   w_not_retryable (visit_all cancelled ms new_walker) = list_ex (\<lambda>m. forbids_retry (exn_kind (fst m))) ms \<and>
   (case first_worst cancelled ms of
      None \<Rightarrow> w_code (visit_all cancelled ms new_walker) = []
    | Some m \<Rightarrow> w_code (visit_all cancelled ms new_walker) = fst (snd (finding cancelled (exn_kind (fst m)))))"
proof (induction ms rule: rev_induct)
  case (snoc m ms)
  let ?w = "visit_all cancelled ms new_walker"
  have step: "visit_all cancelled (ms @ [m]) new_walker = visit cancelled (exn_kind (fst m)) ?w"
    by (simp add: case_prod_beta)
  obtain c code msg where f: "finding cancelled (exn_kind (fst m)) = (c, code, msg)" by (metis prod_cases3)
  have c: "c = class_of cancelled m" by (simp add: class_of_def f)
  show ?case
  proof (cases "ms = []")
    case True
    then show ?thesis
      by (simp add: visit_def found_def new_walker_def f c first_worst_def case_prod_beta Let_def)
  next
    case False
    then have w: "w_class ?w = Some (Max (class_of cancelled ` set ms))" using snoc.IH by simp
    note sum = visit_summary[OF f w]
    have "w_not_retryable ?w = list_ex (\<lambda>m. forbids_retry (exn_kind (fst m))) ms" using snoc.IH by blast
    moreover have "case if c \<le> Max (class_of cancelled ` set ms) then first_worst cancelled ms else Some m of
        None \<Rightarrow> (if c \<le> Max (class_of cancelled ` set ms) then w_code ?w else code) = []
      | Some m' \<Rightarrow> (if c \<le> Max (class_of cancelled ` set ms) then w_code ?w else code) =
          fst (snd (finding cancelled (exn_kind (fst m'))))"
      using snoc.IH f by (cases "c \<le> Max (class_of cancelled ` set ms)") auto
    ultimately show ?thesis
      unfolding step first_worst_snoc Max_snoc[OF False] sum using False by (simp add: c[symmetric])
  qed
qed (simp add: new_walker_def first_worst_def)

lemma found_Unknown_class: "\<exists>c. w_class (found Unknown [] [] w) = Some c \<and> Unknown \<le> c"
  by (auto simp: found_def split: option.splits)

section \<open>Closed forms of the scans\<close>

definition exits_with :: "invocation_exit \<Rightarrow> nat \<Rightarrow> exn option list \<Rightarrow> nat list" where
  "exits_with k i errors =
     map fst (filter (\<lambda>(_, e). case e of None \<Rightarrow> False | Some x \<Rightarrow> exit_of x = k) (enumerate i errors))"

definition paused_at :: "nat \<Rightarrow> exn option list \<Rightarrow> nat list" where
  "paused_at i errors =
     map fst (filter (\<lambda>(_, e). case e of None \<Rightarrow> False
       | Some x \<Rightarrow> exit_of x = EInterrupt \<or> exit_of x = EReconciliation) (enumerate i errors))"

definition first_or :: "nat option \<Rightarrow> nat list \<Rightarrow> nat option" where
  "first_or found_at xs = (case found_at of Some i \<Rightarrow> Some i | None \<Rightarrow> (case xs of [] \<Rightarrow> None | i # _ \<Rightarrow> Some i))"

lemma scan_exits_closed:
  "scan_exits i errors s =
     \<lparr>ss_stop = first_or (ss_stop s) (exits_with EStop i errors),
      ss_failure = first_or (ss_failure s) (exits_with EFailure i errors),
      ss_reconciliations = ss_reconciliations s @ exits_with EReconciliation i errors,
      ss_interrupts = ss_interrupts s @ paused_at i errors\<rparr>"
proof (induction i errors s rule: scan_exits.induct)
  case (1 i s)
  then show ?case by (simp add: first_or_def exits_with_def paused_at_def split: option.splits)
next
  case (2 i es s)
  then show ?case by (simp add: exits_with_def paused_at_def)
next
  case (3 i e es s)
  then show ?case
    by (cases "exit_of e") (auto simp: exits_with_def paused_at_def first_or_def split: option.splits)
qed

fun split_dots :: "string \<Rightarrow> string list" where
  "split_dots [] = [[]]"
| "split_dots (c # cs) =
     (if c = CHR ''.'' then [] # split_dots cs
      else case split_dots cs of [] \<Rightarrow> [[c]] | seg # segs \<Rightarrow> (c # seg) # segs)"

lemma split_dots_not_Nil [simp]: "split_dots cs \<noteq> []"
  by (induction cs) (auto split: list.splits)

lemma code_tail_dot [simp]: "\<not> code_tail CHR ''.''"
  by code_simp

definition segments_ok :: "nat \<Rightarrow> string list \<Rightarrow> bool" where
  "segments_ok len segs \<longleftrightarrow>
     list_all (list_all code_tail) segs \<and> (len > 0 \<or> hd segs \<noteq> []) \<and> list_all (\<lambda>s. s \<noteq> []) (tl segs)"

lemma scan_code_split:
  "scan_code cs n len \<longleftrightarrow> segments_ok len (split_dots cs) \<and> n + length (split_dots cs) \<ge> 3"
proof (induction cs n len rule: scan_code.induct)
  case (1 n len)
  then show ?case by (auto simp: segments_ok_def)
next
  case (2 c cs n len)
  obtain seg segs where s: "split_dots cs = seg # segs" by (cases "split_dots cs") auto
  show ?case
  proof (cases "c = CHR ''.''")
    case True
    then show ?thesis using 2(1) s by (auto simp: segments_ok_def)
  next
    case False
    then show ?thesis using 2(2) s by (cases "code_tail c") (auto simp: segments_ok_def)
  qed
qed

lemma code_lower_tail [simp]: "code_lower c \<Longrightarrow> code_tail c"
  by (simp add: code_tail_def)

lemma code_lower_not_dot: "code_lower c \<Longrightarrow> c \<noteq> CHR ''.''"
  using code_tail_dot code_lower_tail by blast

section \<open>Properties\<close>

text \<open>C31: The verdict on a failure is decided by its whole cause chain. Within the walk's limits (64
  levels, 256 members) the class is the most severe one of any member, the code is that of the
  outermost member of that class, the failure is retryable exactly when every member's class allows
  a retry and none forbids it, and routable exactly when every member is. Past the limits it fails
  closed: neither retried nor routed.\<close>

theorem classification_of_cause_chain:
  "let v = classify_node_failure cancelled (Some e); ms = members 0 e
   in if within_limits 0 ms
      then v_class v = Max (class_of cancelled ` set ms) \<and>
           (\<exists>m. first_worst cancelled ms = Some m \<and>
              v_code v = (case finding cancelled (exn_kind (fst m)) of
                (c, code, _) \<Rightarrow> if code = [] then node_failure_code c else code)) \<and>
           v_retryable v = list_all (\<lambda>m. node_failure_retryable (class_of cancelled m) \<and>
                                          \<not> forbids_retry (exn_kind (fst m))) ms \<and>
           v_routable v = list_all (\<lambda>m. node_failure_routable (class_of cancelled m)) ms
      else Unknown \<le> v_class v \<and> \<not> v_retryable v \<and> \<not> v_routable v"
proof -
  let ?ms = "members 0 e"
  have pend: "pending_members [(e, 0)] = ?ms" by simp
  show ?thesis
  proof (cases "within_limits 0 ?ms")
    case True
    let ?w = "visit_all cancelled ?ms new_walker" and ?M = "Max (class_of cancelled ` set ?ms)"
    have ne: "?ms \<noteq> []" by (simp add: members.simps)
    have v: "classify_node_failure cancelled (Some e) = verdict_of ?w"
      using walk_loop_within[of 0 "[(e, 0)]"] True pend by (simp add: classify_node_failure_def)
    have "find (\<lambda>m. class_of cancelled m = ?M) ?ms \<noteq> None" using ne by (rule find_Max)
    then obtain m where m: "first_worst cancelled ?ms = Some m" by (auto simp: first_worst_def)
    have mM: "class_of cancelled m = ?M" using m by (auto simp: first_worst_def find_Some_iff)
    have le: "(?M \<le> c) = list_all (\<lambda>m. class_of cancelled m \<le> c) ?ms" for c
      using ne by (simp add: list_all_iff)
    have retry: "node_failure_retryable c \<longleftrightarrow> c \<le> Timeout" for c
      by (cases c) (simp_all add: node_failure_retryable_def less_eq_node_failure_class_def)
    have code: "w_code ?w = fst (snd (finding cancelled (exn_kind (fst m))))"
      and cls: "w_class ?w = Some ?M"
      and nr: "w_not_retryable ?w = list_ex (\<lambda>m. forbids_retry (exn_kind (fst m))) ?ms"
      using visit_all_summary[of cancelled ?ms] m ne by simp_all
    have fm: "fst (finding cancelled (exn_kind (fst m))) = ?M" using mM by (simp add: class_of_def)
    show ?thesis
      unfolding Let_def v using True
      by (simp add: verdict_of_def code cls nr m fm retry le node_failure_routable_def case_prod_beta)
         (auto simp: list_all_iff list_ex_iff)
  next
    case False
    from walk_loop_beyond[of 0 "[(e, 0)]" cancelled new_walker] False pend obtain ms where
      "walk_loop cancelled [(e, 0)] 0 new_walker = found Unknown [] [] (visit_all cancelled ms new_walker)"
      by auto
    then obtain c where "classify_node_failure cancelled (Some e) =
        verdict_of (found Unknown [] [] (visit_all cancelled ms new_walker))"
      "w_class (found Unknown [] [] (visit_all cancelled ms new_walker)) = Some c" "Unknown \<le> c"
      using found_Unknown_class by (metis classify_node_failure_def option.simps(5))
    moreover have "\<not> node_failure_retryable c" "\<not> node_failure_routable c" if "Unknown \<le> c"
      using that by (cases c; simp add: node_failure_retryable_def node_failure_routable_def less_eq_node_failure_class_def)+
    ultimately show ?thesis using False by (simp add: Let_def verdict_of_def)
  qed
qed

text \<open>How the endings of a step's invocations combine, whatever their completion order: run control
  stops the run; otherwise an uncertain effect pauses the step for reconciliation even beside a
  failure, reporting only the reconciliations; otherwise the first failure in dispatch order fails
  the run; otherwise the step pauses on every interrupt, in dispatch order.\<close>

theorem step_outcome_precedence:
  "let stops = exits_with EStop 0 errors; failures = exits_with EFailure 0 errors;
       recs = exits_with EReconciliation 0 errors
   in step_outcome errors =
        (if stops \<noteq> [] then \<lparr>so_end = Some (hd stops), so_pause = [], so_beside_failure = False\<rparr>
         else if failures \<noteq> [] \<and> recs = []
           then \<lparr>so_end = Some (hd failures), so_pause = [], so_beside_failure = False\<rparr>
         else if failures \<noteq> [] then \<lparr>so_end = None, so_pause = recs, so_beside_failure = True\<rparr>
         else \<lparr>so_end = None, so_pause = paused_at 0 errors, so_beside_failure = False\<rparr>)"
  by (simp add: step_outcome_def scan_exits_closed first_or_def Let_def split: list.splits)

text \<open>An author code is exactly a string of at most 128 bytes, not starting with \<open>ng.\<close>, that starts
  with a lower-case letter and splits at its dots into at least two nonempty segments of lower-case
  letters, digits and underscores.\<close>

theorem author_code_grammar:
  "is_author_failure_code code =
     (length code \<le> 128 \<and> take 3 code \<noteq> ''ng.'' \<and> code \<noteq> [] \<and> code_lower (hd code) \<and>
      length (split_dots code) \<ge> 2 \<and> list_all (\<lambda>seg. seg \<noteq> [] \<and> list_all code_tail seg) (split_dots code))"
proof (cases code)
  case (Cons c cs)
  have ng: "length code \<ge> 3" if "take 3 code = ''ng.''"
  proof -
    have "length (take 3 code) = 3" using that by simp
    then show ?thesis by simp
  qed
  obtain seg segs where s: "split_dots cs = seg # segs" by (cases "split_dots cs") auto
  show ?thesis
  proof (cases "code_lower c")
    case True
    have "list_all (\<lambda>s. s \<noteq> [] \<and> list_all code_tail s) segs \<longleftrightarrow>
        list_all (\<lambda>s. s \<noteq> []) segs \<and> list_all (list_all code_tail) segs"
      by (auto simp: list_all_iff)
    then show ?thesis
      using True ng Cons s code_lower_not_dot[OF True]
      by (auto simp: is_author_failure_code_def scan_code_split segments_ok_def)
  qed (simp add: is_author_failure_code_def Cons)
qed (simp add: is_author_failure_code_def)

end
