(* ===== verification/NG_Failure.thy ===== *)
theory NG_Failure
  imports NG_Classify
begin

text \<open>
  The failure routing runtime (\<open>src/src/core/failure_routing.h\<close>, \<open>failure_routing.cpp\<close>): the
  per-node plans built from the retry policies and failure edges, the visit counters of a run with
  their checkpoint metadata, and the marker write of a handled failure.
\<close>

section \<open>Plans\<close>

record retry_policy_spec =
  rp_non_retryable :: "string list"
  rp_max_visits :: "int option"
  rp_error_text :: "bool option"

record failure_edge =
  fe_from :: string
  fe_to :: string
  fe_error_channel :: "string option"

record node_failure_plan =
  fp_non_retryable :: "string list"
  fp_max_visits :: "int option"
  fp_error_text :: bool
  fp_target :: string
  fp_error_channel :: "string option"

record failure_routing =
  fr_nodes :: "(string \<times> node_failure_plan) list"
  fr_exits :: "(string \<times> string) list"
  fr_visit_resets :: "(string \<times> string list) list"
  fr_targets :: "(string \<times> string) list"
  fr_visit_limits :: bool

definition kAbortedCode :: string where
  "kAbortedCode = ''NG.Aborted''"

definition no_plan :: node_failure_plan where
  "no_plan = \<lparr>fp_non_retryable = [], fp_max_visits = None, fp_error_text = False, fp_target = [],
              fp_error_channel = None\<rparr>"

definition plan_or_new :: "(string \<times> node_failure_plan) list \<Rightarrow> string \<Rightarrow> node_failure_plan" where
  "plan_or_new nodes n = (case map_of nodes n of None \<Rightarrow> no_plan | Some p \<Rightarrow> p)"

definition add_policy :: "string \<times> retry_policy_spec \<Rightarrow> (string \<times> node_failure_plan) list \<Rightarrow>
    (string \<times> node_failure_plan) list" where
  "add_policy p nodes =
     (case p of (node, spec) \<Rightarrow>
        let plan = plan_or_new nodes node
        in smap_put node
             (plan\<lparr>fp_non_retryable := sset_union (fp_non_retryable plan) (rp_non_retryable spec),
                   fp_max_visits := rp_max_visits spec,
                   fp_error_text := (case rp_error_text spec of None \<Rightarrow> False | Some b \<Rightarrow> b)\<rparr>) nodes)"

definition add_failure_edge :: "failure_edge \<Rightarrow> (string \<times> node_failure_plan) list \<times> (string \<times> string) list \<Rightarrow>
    (string \<times> node_failure_plan) list \<times> (string \<times> string) list" where
  "add_failure_edge e acc =
     (case acc of (nodes, targets) \<Rightarrow>
        (smap_put (fe_from e)
           ((plan_or_new nodes (fe_from e))\<lparr>fp_target := fe_to e, fp_error_channel := fe_error_channel e\<rparr>) nodes,
         smap_put (fe_from e) (fe_to e) targets))"

definition add_reset :: "string \<times> node_failure_plan \<Rightarrow> (string \<times> string list) list \<Rightarrow>
    (string \<times> string list) list" where
  "add_reset p resets =
     (case p of (node, plan) \<Rightarrow>
        if fp_max_visits plan \<noteq> None \<and> fp_target plan \<noteq> []
        then smap_put (fp_target plan)
               ((case map_of resets (fp_target plan) of None \<Rightarrow> [] | Some ns \<Rightarrow> ns) @ [node]) resets
        else resets)"

definition build ::
    "(string \<times> retry_policy_spec) list \<Rightarrow> failure_edge list \<Rightarrow> (string \<times> string) list \<Rightarrow> failure_routing" where
  "build policies edges exits =
     (case fold add_failure_edge edges (fold add_policy policies [], []) of
        (nodes, targets) \<Rightarrow>
          \<lparr>fr_nodes = nodes,
           fr_exits = fold (\<lambda>(node, code). smap_put node (if code = [] then kAbortedCode else code)) exits [],
           fr_visit_resets = fold add_reset nodes [],
           fr_targets = targets,
           fr_visit_limits = list_ex (\<lambda>(node, plan). fp_max_visits plan \<noteq> None) nodes\<rparr>)"

definition failure_plan :: "failure_routing \<Rightarrow> string \<Rightarrow> node_failure_plan option" where
  "failure_plan routing node = map_of (fr_nodes routing) node"

definition routes :: "failure_routing \<Rightarrow> bool" where
  "routes routing \<longleftrightarrow> fr_targets routing \<noteq> []"

definition counts_visits :: "failure_routing \<Rightarrow> bool" where
  "counts_visits routing \<longleftrightarrow> fr_visit_limits routing"

definition routing_active :: "failure_routing \<Rightarrow> bool" where
  "routing_active routing \<longleftrightarrow> fr_nodes routing \<noteq> [] \<or> fr_targets routing \<noteq> [] \<or> fr_exits routing \<noteq> []"

section \<open>Visit counters\<close>

record failure_run_state =
  visits :: "(string \<times> int) list"
  step_start :: "(string \<times> int) list"

definition visit_limit :: "failure_routing \<Rightarrow> string \<Rightarrow> int option" where
  "visit_limit routing node =
     (case failure_plan routing node of None \<Rightarrow> None | Some plan \<Rightarrow> fp_max_visits plan)"

definition activate :: "failure_routing \<Rightarrow> string \<Rightarrow> failure_run_state \<Rightarrow> bool \<times> failure_run_state" where
  "activate routing node rs =
     (case visit_limit routing node of
        None \<Rightarrow> (True, rs)
      | Some limit \<Rightarrow>
          let count = (case map_of (visits rs) node of None \<Rightarrow> 0 | Some c \<Rightarrow> c)
          in if count \<ge> limit
             then (False, if count = 0 then rs\<lparr>visits := smap_erase node (visits rs)\<rparr> else rs)
             else (True, rs\<lparr>visits := smap_put node (count + 1) (visits rs)\<rparr>))"

definition target_completed :: "failure_routing \<Rightarrow> string \<Rightarrow> failure_run_state \<Rightarrow> failure_run_state" where
  "target_completed routing target rs =
     (case map_of (fr_visit_resets routing) target of
        None \<Rightarrow> rs
      | Some nodes \<Rightarrow> rs\<lparr>visits := fold smap_erase nodes (visits rs)\<rparr>)"

definition encode_visits :: "(string \<times> int) list \<Rightarrow> json" where
  "encode_visits vs =
     fold (\<lambda>(node, count) encoded. if count > 0 then json_set node (JSint (word_of_int count)) encoded else encoded)
       vs JNull"

definition visits_json :: "failure_run_state \<Rightarrow> json" where
  "visits_json rs = encode_visits (visits rs)"

definition mark_step_start :: "failure_run_state \<Rightarrow> failure_run_state" where
  "mark_step_start rs = rs\<lparr>step_start := visits rs\<rparr>"

definition step_start_visits :: "failure_run_state \<Rightarrow> json" where
  "step_start_visits rs = encode_visits (step_start rs)"

text \<open>The counters a checkpoint's metadata stores; a stored count is capped at \<open>2^20\<close>.\<close>

definition read_visit :: "string \<times> json \<Rightarrow> (string \<times> int) list \<Rightarrow> (string \<times> int) list" where
  "read_visit p vs =
     (case p of (node, count) \<Rightarrow>
        if is_number_integer count
        then (case get_int64 (\<lambda>_. 0) count of
                Inr c \<Rightarrow> if c > 0 then smap_put node (min c (2 ^ 20)) vs else vs
              | Inl _ \<Rightarrow> vs)
        else vs)"

definition restore_visits :: "json \<Rightarrow> failure_run_state \<Rightarrow> failure_run_state" where
  "restore_visits metadata rs =
     (let cleared = rs\<lparr>visits := []\<rparr>
      in if \<not> is_object metadata \<or> \<not> json_contains metadata ''_neograph'' then cleared
         else let owned = json_get metadata ''_neograph''
         in if \<not> is_object owned \<or> \<not> json_contains owned ''node_visits'' then cleared
            else let stored = json_get owned ''node_visits''
            in if \<not> is_object stored then cleared
               else let vs = fold read_visit (json_items stored) []
                    in \<lparr>visits = vs, step_start = vs\<rparr>)"

section \<open>The marker write of a handled failure\<close>

definition kFailureRouteChannel :: string where
  "kFailureRouteChannel = []"

definition failure_route_record :: "'m node_result \<Rightarrow> json option" where
  "failure_route_record result =
     map_option cw_value (find (\<lambda>w. cw_channel w = kFailureRouteChannel) (nr_writes result))"

definition state_writes :: "'m channel_write list \<Rightarrow> 'm channel_write list" where
  "state_writes writes =
     (if list_all (\<lambda>w. cw_channel w \<noteq> kFailureRouteChannel) writes then writes
      else filter (\<lambda>w. cw_channel w \<noteq> kFailureRouteChannel) writes)"

definition failure_record_json :: "node_failure \<Rightarrow> int \<Rightarrow> string \<Rightarrow> string \<Rightarrow> json" where
  "failure_record_json failure step routed_to text =
     (let effects = JArray (map (\<lambda>e. JObject [(''tool'', JString (fe_tool e)),
                         (''ordinal'', JUint (fe_ordinal e)), (''status'', JString (fe_status e))])
                       (nf_effects failure));
          rec = JObject [(''node'', JString (nf_node failure)),
                         (''kind'', JString (kind_to_string (nf_kind failure))),
                         (''code'', JString (nf_code failure)),
                         (''attempts'', JSint (word_of_int (nf_attempts failure))),
                         (''retryable'', JBool (nf_retryable failure)),
                         (''step'', JSint (word_of_int step)),
                         (''routed_to'', JString routed_to),
                         (''effects'', effects)]
      in if text \<noteq> [] then json_set ''detail'' (JObject [(''untrusted_text'', JString text)]) rec else rec)"

section \<open>The built routing\<close>

definition last_edge :: "failure_edge list \<Rightarrow> string \<Rightarrow> failure_edge option" where
  "last_edge edges n = find (\<lambda>e. fe_from e = n) (rev edges)"

lemma find_snoc_rev: "find P (rev (xs @ [x])) = (if P x then Some x else find P (rev xs))"
  by simp

lemma last_edge_snoc: "last_edge (es @ [e]) n = (if fe_from e = n then Some e else last_edge es n)"
  by (simp add: last_edge_def)

lemma add_failure_edge_fst:
  "fst (add_failure_edge e acc) = smap_put (fe_from e)
     ((plan_or_new (fst acc) (fe_from e))\<lparr>fp_target := fe_to e, fp_error_channel := fe_error_channel e\<rparr>) (fst acc)"
  by (simp add: add_failure_edge_def case_prod_beta)

lemma add_failure_edge_snd: "snd (add_failure_edge e acc) = smap_put (fe_from e) (fe_to e) (snd acc)"
  by (simp add: add_failure_edge_def case_prod_beta)

lemma fold_add_edge_nodes:
  "map_of (fst (fold add_failure_edge edges acc)) n =
     (case last_edge edges n of
        None \<Rightarrow> map_of (fst acc) n
      | Some e \<Rightarrow> Some ((plan_or_new (fst acc) n)\<lparr>fp_target := fe_to e, fp_error_channel := fe_error_channel e\<rparr>))"
proof (induction edges rule: rev_induct)
  case (snoc e es)
  show ?case
  proof (cases "fe_from e = n")
    case True
    then show ?thesis using snoc.IH
      by (simp add: add_failure_edge_fst last_edge_snoc plan_or_new_def split: option.splits)
  next
    case False
    then show ?thesis using snoc.IH by (simp add: add_failure_edge_fst last_edge_snoc)
  qed
qed (simp add: last_edge_def)

lemma fold_add_edge_targets:
  "map_of (snd (fold add_failure_edge edges acc)) n =
     (case last_edge edges n of None \<Rightarrow> map_of (snd acc) n | Some e \<Rightarrow> Some (fe_to e))"
  by (induction edges rule: rev_induct) (simp_all add: add_failure_edge_snd last_edge_snoc last_edge_def)

lemma fold_add_edge_ok: "smap_ok (fst acc) \<Longrightarrow> smap_ok (fst (fold add_failure_edge edges acc))"
  by (induction edges arbitrary: acc) (simp_all add: add_failure_edge_fst)

lemma fold_add_policy:
  assumes "distinct (map fst policies)" "\<forall>n \<in> fst ` set policies. map_of nodes n = None"
  shows "map_of (fold add_policy policies nodes) n =
     (case map_of policies n of
        None \<Rightarrow> map_of nodes n
      | Some spec \<Rightarrow> Some (no_plan\<lparr>fp_non_retryable := sset_union [] (rp_non_retryable spec),
           fp_max_visits := rp_max_visits spec,
           fp_error_text := (case rp_error_text spec of None \<Rightarrow> False | Some b \<Rightarrow> b)\<rparr>))"
  using assms
proof (induction policies arbitrary: nodes)
  case (Cons p ps)
  obtain k spec where p: "p = (k, spec)" by (cases p)
  have k: "map_of ps k = None" using Cons.prems(1) p by (simp add: map_of_eq_None_iff)
  have fresh: "\<forall>n \<in> fst ` set ps. map_of (add_policy p nodes) n = None"
    using Cons.prems p by (auto simp: add_policy_def Let_def)
  have "map_of nodes k = None" using Cons.prems(2) p by simp
  then show ?case
    using Cons.IH[OF _ fresh] Cons.prems(1) p k
    by (auto simp: add_policy_def plan_or_new_def no_plan_def Let_def split: option.splits)
qed simp

lemma fold_add_policy_ok: "smap_ok nodes \<Longrightarrow> smap_ok (fold add_policy policies nodes)"
  by (induction policies arbitrary: nodes) (auto simp: add_policy_def Let_def case_prod_beta)

lemma build_targets: "map_of (fr_targets (build policies edges exits)) n = map_option fe_to (last_edge edges n)"
  using fold_add_edge_targets[where acc = "(fold add_policy policies [], [])"]
  by (simp add: build_def case_prod_beta split: option.splits)

lemma build_nodes: "fr_nodes (build policies edges exits) =
    fst (fold add_failure_edge edges (fold add_policy policies [], []))"
  by (simp add: build_def case_prod_beta)

lemma build_plan:
  assumes "smap_ok policies"
  shows "failure_plan (build policies edges exits) n =
     (let base = (case map_of policies n of
            None \<Rightarrow> None
          | Some spec \<Rightarrow> Some (no_plan\<lparr>fp_non_retryable := sset_union [] (rp_non_retryable spec),
               fp_max_visits := rp_max_visits spec,
               fp_error_text := (case rp_error_text spec of None \<Rightarrow> False | Some b \<Rightarrow> b)\<rparr>))
      in case last_edge edges n of
           None \<Rightarrow> base
         | Some e \<Rightarrow> Some ((case base of None \<Rightarrow> no_plan | Some p \<Rightarrow> p)
              \<lparr>fp_target := fe_to e, fp_error_channel := fe_error_channel e\<rparr>))"
proof -
  have base: "map_of (fold add_policy policies []) n =
      (case map_of policies n of
            None \<Rightarrow> None
          | Some spec \<Rightarrow> Some (no_plan\<lparr>fp_non_retryable := sset_union [] (rp_non_retryable spec),
               fp_max_visits := rp_max_visits spec,
               fp_error_text := (case rp_error_text spec of None \<Rightarrow> False | Some b \<Rightarrow> b)\<rparr>))"
    using fold_add_policy[of policies "[]" n] smap_ok_distinct[OF assms] by (simp split: option.splits)
  show ?thesis
    by (simp add: failure_plan_def build_nodes fold_add_edge_nodes base Let_def plan_or_new_def split: option.splits)
qed

definition resets_into :: "string \<times> node_failure_plan \<Rightarrow> string \<Rightarrow> bool" where
  "resets_into p t \<longleftrightarrow> fp_max_visits (snd p) \<noteq> None \<and> fp_target (snd p) = t \<and> t \<noteq> []"

lemma fold_add_reset:
  "set (case map_of (fold add_reset nodes resets) t of None \<Rightarrow> [] | Some ns \<Rightarrow> ns) =
     set (case map_of resets t of None \<Rightarrow> [] | Some ns \<Rightarrow> ns) \<union> fst ` {p \<in> set nodes. resets_into p t}"
proof (induction nodes arbitrary: resets)
  case (Cons p nodes)
  have "set (case map_of (add_reset p resets) t of None \<Rightarrow> [] | Some ns \<Rightarrow> ns) =
      set (case map_of resets t of None \<Rightarrow> [] | Some ns \<Rightarrow> ns) \<union> (if resets_into p t then {fst p} else {})"
    by (cases p) (auto simp: add_reset_def resets_into_def)
  then show ?case using Cons.IH[of "add_reset p resets"] by auto
qed simp

lemma build_nodes_ok: "smap_ok (fr_nodes (build policies edges exits))"
  by (simp add: build_nodes fold_add_edge_ok fold_add_policy_ok)

lemma build_resets:
  "n \<in> set (case map_of (fr_visit_resets (build policies edges exits)) t of None \<Rightarrow> [] | Some ns \<Rightarrow> ns) \<longleftrightarrow>
     (\<exists>p. failure_plan (build policies edges exits) n = Some p \<and> resets_into (n, p) t)"
proof -
  let ?b = "build policies edges exits"
  have "fr_visit_resets ?b = fold add_reset (fr_nodes ?b) []"
    by (simp add: build_def case_prod_beta)
  then have "set (case map_of (fr_visit_resets ?b) t of None \<Rightarrow> [] | Some ns \<Rightarrow> ns) =
      fst ` {p \<in> set (fr_nodes ?b). resets_into p t}"
    using fold_add_reset[of "fr_nodes ?b" "[]" t] by simp
  moreover have "(n, p) \<in> set (fr_nodes ?b) \<longleftrightarrow> failure_plan ?b n = Some p" for p
    using smap_mem_iff[OF build_nodes_ok] by (simp add: failure_plan_def)
  moreover have "n \<in> fst ` {p \<in> set xs. resets_into p t} \<longleftrightarrow> (\<exists>p. (n, p) \<in> set xs \<and> resets_into (n, p) t)"
    for xs by (auto simp: image_iff)
  ultimately show ?thesis by simp
qed

section \<open>Counting visits\<close>

definition visit_count :: "failure_run_state \<Rightarrow> string \<Rightarrow> int" where
  "visit_count rs n = (case map_of (visits rs) n of None \<Rightarrow> 0 | Some c \<Rightarrow> c)"

lemma activate_count:
  "visit_count (snd (activate routing k rs)) n =
     (if k = n \<and> visit_limit routing n \<noteq> None \<and> fst (activate routing k rs)
      then visit_count rs n + 1 else visit_count rs n)"
  by (auto simp: activate_def visit_count_def Let_def split: option.splits)

lemma activate_granted:
  "visit_limit routing n = Some m \<Longrightarrow> fst (activate routing n rs) \<longleftrightarrow> visit_count rs n < m"
  by (auto simp: activate_def visit_count_def Let_def split: option.splits)

lemma fold_erase_find: "map_of (fold smap_erase ns m) n = (if n \<in> set ns then None else map_of m n)"
  by (induction ns arbitrary: m) auto

lemma target_completed_count:
  "visit_count (target_completed routing t rs) n =
     (if n \<in> set (case map_of (fr_visit_resets routing) t of None \<Rightarrow> [] | Some ns \<Rightarrow> ns) then 0 else visit_count rs n)"
  by (auto simp: target_completed_def visit_count_def fold_erase_find split: option.splits)

datatype visit_event = Activate string | TargetCompleted string

fun run_visits :: "failure_routing \<Rightarrow> visit_event list \<Rightarrow> failure_run_state \<Rightarrow>
    (string \<times> bool) list \<times> failure_run_state" where
  "run_visits routing [] rs = ([], rs)"
| "run_visits routing (Activate n # evs) rs =
     (let (granted, rs') = activate routing n rs; (log, rs'') = run_visits routing evs rs'
      in ((n, granted) # log, rs''))"
| "run_visits routing (TargetCompleted t # evs) rs =
     run_visits routing evs (target_completed routing t rs)"

definition granted_to :: "string \<Rightarrow> (string \<times> bool) list \<Rightarrow> nat" where
  "granted_to n log = length (filter (\<lambda>p. p = (n, True)) log)"

definition requests_of :: "string \<Rightarrow> visit_event list \<Rightarrow> nat" where
  "requests_of n evs = length (filter (\<lambda>e. e = Activate n) evs)"

definition resets :: "failure_routing \<Rightarrow> string \<Rightarrow> visit_event \<Rightarrow> bool" where
  "resets routing n ev =
     (case ev of
        Activate _ \<Rightarrow> False
      | TargetCompleted t \<Rightarrow>
          n \<in> set (case map_of (fr_visit_resets routing) t of None \<Rightarrow> [] | Some ns \<Rightarrow> ns))"

lemma run_visits_granted:
  assumes "visit_limit routing n = Some m" "list_all (\<lambda>ev. \<not> resets routing n ev) evs" "visit_count rs n \<le> m"
  shows "int (granted_to n (fst (run_visits routing evs rs))) =
      min (m - visit_count rs n) (int (requests_of n evs)) \<and>
    visit_count (snd (run_visits routing evs rs)) n =
      visit_count rs n + int (granted_to n (fst (run_visits routing evs rs)))"
  using assms(2,3)
proof (induction evs arbitrary: rs)
  case (Cons ev evs)
  show ?case
  proof (cases ev)
    case (Activate k)
    obtain g rs' where a: "activate routing k rs = (g, rs')" by (metis prod.exhaust)
    have count: "visit_count rs' n = (if k = n \<and> g then visit_count rs n + 1 else visit_count rs n)"
      using activate_count[of routing k rs n] a assms(1) by simp
    have g: "k = n \<Longrightarrow> g = (visit_count rs n < m)" using activate_granted[OF assms(1), of rs] a by auto
    have le: "visit_count rs' n \<le> m" using count g Cons.prems(2) by auto
    from Cons.IH[OF _ le] Cons.prems(1) show ?thesis
      using Activate a count g Cons.prems(2)
      by (cases "k = n"; cases g) (simp_all add: granted_to_def requests_of_def case_prod_beta Let_def)
  next
    case (TargetCompleted t)
    have "visit_count (target_completed routing t rs) n = visit_count rs n"
      using Cons.prems(1) TargetCompleted by (auto simp: target_completed_count resets_def)
    with Cons.IH[of "target_completed routing t rs"] Cons.prems TargetCompleted show ?thesis
      by (simp add: requests_of_def)
  qed
qed (auto simp: granted_to_def requests_of_def)

section \<open>Counters in checkpoint metadata\<close>

definition counters_ok :: "(string \<times> int) list \<Rightarrow> bool" where
  "counters_ok vs \<longleftrightarrow> smap_ok vs \<and> list_all (\<lambda>(n, c). 0 < c \<and> c \<le> 2 ^ 20) vs"

lemma encode_visits_closed:
  assumes "distinct (map fst vs)" "list_all (\<lambda>(n, c). 0 < c) vs"
  shows "encode_visits vs = (if vs = [] then JNull else JObject (map (\<lambda>(n, c). (n, JSint (word_of_int c))) vs))"
  using assms
proof (induction vs rule: rev_induct)
  case (snoc p vs)
  obtain n c where p: "p = (n, c)" by (cases p)
  have "n \<notin> fst ` set (map (\<lambda>(n, c). (n, JSint (word_of_int c))) vs)"
    using snoc.prems(1) p by (force simp: case_prod_beta)
  with snoc p show ?case
    by (auto simp: encode_visits_def obj_put_append)
qed (simp add: encode_visits_def)

lemma sint_small: "0 < c \<Longrightarrow> c \<le> 2 ^ 20 \<Longrightarrow> sint (word_of_int c :: u64) = c"
  by (simp add: signed_of_int signed_take_bit_int_eq_self)

lemma read_visits_back:
  assumes "counters_ok vs"
  shows "fold read_visit (map (\<lambda>(n, c). (n, JSint (word_of_int c))) vs) [] = vs"
proof -
  have "map_of (fold read_visit (map (\<lambda>(n, c). (n, JSint (word_of_int c))) ws) m) k =
      (case map_of ws k of None \<Rightarrow> map_of m k | Some c \<Rightarrow> Some c) \<and>
      (smap_ok m \<longrightarrow> smap_ok (fold read_visit (map (\<lambda>(n, c). (n, JSint (word_of_int c))) ws) m))"
    if "distinct (map fst ws)" "list_all (\<lambda>(n, c). 0 < c \<and> c \<le> 2 ^ 20) ws" for ws m k
    using that
  proof (induction ws arbitrary: m)
    case (Cons p ws)
    obtain n c where p: "p = (n, c)" by (cases p)
    have "read_visit (n, JSint (word_of_int c)) m = smap_put n c m"
      using Cons.prems p by (simp add: read_visit_def sint_small min_def)
    moreover have "map_of ws n = None" using Cons.prems p by (simp add: map_of_eq_None_iff)
    ultimately show ?case using Cons.IH[of "smap_put n c m"] Cons.prems p by (auto split: option.splits)
  qed simp
  from this[of vs "[]"] assms show ?thesis
    by (intro smap_eqI) (auto simp: counters_ok_def smap_ok_distinct fun_eq_iff split: option.splits)
qed

lemma read_back_metadata:
  assumes "counters_ok vs" "vs \<noteq> []" "json_get (json_get metadata ''_neograph'') ''node_visits'' = encode_visits vs"
  shows "restore_visits metadata rs = \<lparr>visits = vs, step_start = vs\<rparr>"
proof -
  have enc: "encode_visits vs = JObject (map (\<lambda>(n, c). (n, JSint (word_of_int c))) vs)"
    using assms(1,2) encode_visits_closed[of vs]
    by (auto simp: counters_ok_def smap_ok_distinct list_all_iff)
  then have get: "json_get (json_get metadata ''_neograph'') ''node_visits'' =
      JObject (map (\<lambda>(n, c). (n, JSint (word_of_int c))) vs)" using assms(3) by simp
  have contains: "json_get j k = JObject m \<Longrightarrow> is_object j \<and> json_contains j k" for j k m
    by (cases j) (auto split: option.splits)
  have owned: "is_object (json_get metadata ''_neograph'')"
    "json_contains (json_get metadata ''_neograph'') ''node_visits''" using contains[OF get] by auto
  then obtain m where "json_get metadata ''_neograph'' = JObject m" by (cases "json_get metadata ''_neograph''") auto
  from contains[OF this] owned get show ?thesis
    by (simp add: restore_visits_def Let_def read_visits_back[OF assms(1)])
qed

section \<open>Properties\<close>

definition retry_example :: failure_routing where
  "retry_example = build [(''act'', \<lparr>rp_non_retryable = [], rp_max_visits = Some 2, rp_error_text = None\<rparr>)]
     [\<lparr>fe_from = ''act'', fe_to = ''fix'', fe_error_channel = None\<rparr>] []"

definition fresh_run :: failure_run_state where
  "fresh_run = \<lparr>visits = [], step_start = []\<rparr>"

text \<open>C24: A node with a visit limit runs at most that often between resets, and is not refused before:
  over any sequence of activations and completions in which its counter is not reset, the number
  of activations granted to it is the smaller of the number requested and the limit less the
  visits already counted, and the counter grows by exactly the grants.\<close>

theorem visit_limit_enforced:
  assumes "visit_limit routing n = Some m" and "list_all (\<lambda>ev. \<not> resets routing n ev) evs"
    and "visit_count rs n \<le> m"
  shows "int (granted_to n (fst (run_visits routing evs rs))) =
           min (m - visit_count rs n) (int (requests_of n evs)) \<and>
         visit_count (snd (run_visits routing evs rs)) n =
           visit_count rs n + int (granted_to n (fst (run_visits routing evs rs)))"
  using run_visits_granted[OF assms] .

theorem visit_limit_enforced_witness:
  "granted_to ''act'' (fst (run_visits retry_example
     [Activate ''act'', Activate ''fix'', Activate ''act'', Activate ''act''] fresh_run)) = 2"
proof -
  let ?evs = "[Activate ''act'', Activate ''fix'', Activate ''act'', Activate ''act'']"
  have "visit_limit retry_example ''act'' = Some 2" "list_all (\<lambda>ev. \<not> resets retry_example ''act'' ev) ?evs"
    "visit_count fresh_run ''act'' \<le> 2" "requests_of ''act'' ?evs = 3" "visit_count fresh_run ''act'' = 0"
    by code_simp+
  with visit_limit_enforced[of retry_example "''act''" 2 ?evs fresh_run] show ?thesis by simp
qed

text \<open>Completing a failure target resets the counters of exactly the limited nodes whose failure
  edge leads to it, for every routing the compiler builds, and leaves all other counters alone.\<close>

theorem failure_target_resets_visits:
  "visit_count (target_completed (build policies edges exits) t rs) n =
     (if t \<noteq> [] \<and> visit_limit (build policies edges exits) n \<noteq> None \<and>
         map_option fp_target (failure_plan (build policies edges exits) n) = Some t
      then 0 else visit_count rs n)"
  unfolding target_completed_count build_resets
  by (auto simp: resets_into_def visit_limit_def split: option.splits)

text \<open>C16: The visit counters survive a checkpoint: counters between 1 and \<open>2^20\<close>, stored as the
  metadata encodes them, are restored exactly, and as the counters of the step's start too.\<close>

theorem visit_counters_roundtrip:
  assumes "counters_ok (visits rs)" and "visits rs \<noteq> []"
    and "json_get (json_get metadata ''_neograph'') ''node_visits'' = visits_json rs"
  shows "restore_visits metadata rs' = \<lparr>visits = visits rs, step_start = visits rs\<rparr>"
  using read_back_metadata[OF assms(1,2)] assms(3) by (simp add: visits_json_def)

theorem visit_counters_roundtrip_witness:
  "restore_visits (JObject [(''_neograph'', JObject [(''node_visits'', JObject [(''act'', JSint 2)])])]) fresh_run =
     \<lparr>visits = [(''act'', 2)], step_start = [(''act'', 2)]\<rparr>"
  using visit_counters_roundtrip[of "\<lparr>visits = [(''act'', 2)], step_start = []\<rparr>"
      "JObject [(''_neograph'', JObject [(''node_visits'', JObject [(''act'', JSint 2)])])]" fresh_run]
  by (simp add: counters_ok_def visits_json_def encode_visits_def)

end
