(* ===== verification/NG_SafePoint.thy ===== *)
theory NG_SafePoint
  imports NG_Types
begin

text \<open>
  The safe-point request (\<open>src/src/core/graph_safe_point.cpp\<close>): the one-shot handshake by which a
  host asks a running graph to stop at the next completed super-step and takes that step's
  checkpoint. Every method runs under the request's mutex, so a history of the object is a sequence
  of whole operations; \<open>sp_step\<close> is its step relation.
\<close>

section \<open>State and operations\<close>

record generation_identity =
  core_name :: string
  core_generation_id :: string

datatype request_state = Idle | Requested | Captured | Closed

record 'n safe_point_request =
  sp_state :: request_state
  sp_attached :: bool
  sp_expected :: generation_identity
  sp_safe_point :: "(generation_identity \<times> 'n checkpoint) option"

definition new_request :: "generation_identity \<Rightarrow> error + 'n safe_point_request" where
  "new_request g =
     (if core_name g = [] \<or> core_generation_id g = []
      then raise_error InvalidArgument ''Graph safe-point request requires an exact generation identity''
      else Inr \<lparr>sp_state = Idle, sp_attached = False, sp_expected = g, sp_safe_point = None\<rparr>)"

definition sp_request :: "'n safe_point_request \<Rightarrow> bool \<times> 'n safe_point_request" where
  "sp_request r = (if sp_state r \<noteq> Idle then (False, r) else (True, r\<lparr>sp_state := Requested\<rparr>))"

definition sp_requested :: "'n safe_point_request \<Rightarrow> bool" where
  "sp_requested r \<longleftrightarrow> sp_state r = Requested"

definition sp_captured :: "'n safe_point_request \<Rightarrow> bool" where
  "sp_captured r \<longleftrightarrow> sp_state r = Captured"

definition sp_closed :: "'n safe_point_request \<Rightarrow> bool" where
  "sp_closed r \<longleftrightarrow> sp_state r = Closed"

definition sp_attach :: "generation_identity \<Rightarrow> 'n safe_point_request \<Rightarrow> bool \<times> 'n safe_point_request" where
  "sp_attach g r =
     (if sp_attached r \<or> sp_state r = Captured \<or> sp_state r = Closed \<or> g \<noteq> sp_expected r
      then (False, r) else (True, r\<lparr>sp_attached := True\<rparr>))"

definition completed_checkpoint :: "'n checkpoint \<Rightarrow> bool" where
  "completed_checkpoint cp \<longleftrightarrow>
     \<not> (cp_id cp = [] \<or> cp_thread_id cp = [] \<or> cp_schema_version cp \<noteq> CHECKPOINT_SCHEMA_VERSION \<or>
        cp_interrupt_phase cp \<noteq> Completed \<or> cp_next_nodes cp = [] \<or> cp_step cp < 0 \<or>
        cp_step cp \<ge> int_max - 1 \<or> cp_timestamp cp < 0)"

text \<open>\<open>cancelled\<close>: a cancel token was passed and is cancelled. A throwing call changes nothing.\<close>

definition sp_capture ::
    "generation_identity \<Rightarrow> 'n checkpoint \<Rightarrow> bool \<Rightarrow> 'n safe_point_request \<Rightarrow>
     error + (bool \<times> 'n safe_point_request)" where
  "sp_capture g cp cancelled r =
     (if \<not> sp_attached r \<or> sp_state r \<noteq> Requested \<or> g \<noteq> sp_expected r then Inr (False, r)
      else if cancelled then raise_error Cancelled ''safe-point boundary''
      else if \<not> completed_checkpoint cp
      then raise_error LogicError ''Graph safe point requires an exact completed checkpoint''
      else Inr (True, r\<lparr>sp_safe_point := Some (g, cp), sp_state := Captured\<rparr>))"

definition sp_close :: "'n safe_point_request \<Rightarrow> 'n safe_point_request" where
  "sp_close r =
     (let r' = r\<lparr>sp_attached := False\<rparr>
      in if sp_state r' \<noteq> Captured then r'\<lparr>sp_state := Closed\<rparr> else r')"

definition sp_reject :: "'n safe_point_request \<Rightarrow> 'n safe_point_request" where
  "sp_reject r =
     (if \<not> sp_attached r \<and> sp_state r \<noteq> Captured \<and> sp_state r \<noteq> Closed then r\<lparr>sp_state := Closed\<rparr> else r)"

section \<open>Histories\<close>

datatype 'n sp_op =
    Request
  | Attach generation_identity
  | Capture generation_identity "'n checkpoint" bool
  | Close
  | Reject

fun sp_exec :: "'n sp_op \<Rightarrow> 'n safe_point_request \<Rightarrow> 'n safe_point_request" where
  "sp_exec Request r = snd (sp_request r)"
| "sp_exec (Attach g) r = snd (sp_attach g r)"
| "sp_exec (Capture g cp c) r = (case sp_capture g cp c r of Inl _ \<Rightarrow> r | Inr (_, r') \<Rightarrow> r')"
| "sp_exec Close r = sp_close r"
| "sp_exec Reject r = sp_reject r"

inductive sp_step :: "'n safe_point_request \<Rightarrow> 'n safe_point_request \<Rightarrow> bool" where
  step: "sp_step r (sp_exec op r)"

inductive sp_reach :: "generation_identity \<Rightarrow> 'n safe_point_request \<Rightarrow> bool" for g where
  start: "new_request g = Inr r \<Longrightarrow> sp_reach g r"
| more: "sp_reach g r \<Longrightarrow> sp_step r r' \<Longrightarrow> sp_reach g r'"

inductive_cases sp_stepE: "sp_step r r'"

lemmas sp_ops = sp_request_def sp_attach_def sp_capture_def sp_close_def sp_reject_def raise_error_def Let_def

definition sp_inv :: "generation_identity \<Rightarrow> 'n safe_point_request \<Rightarrow> bool" where
  "sp_inv g r \<longleftrightarrow>
     sp_expected r = g \<and>
     (case sp_safe_point r of
        None \<Rightarrow> sp_state r \<noteq> Captured
      | Some (g', cp) \<Rightarrow> sp_state r = Captured \<and> g' = g \<and> completed_checkpoint cp)"

lemma sp_exec_inv: "sp_inv g r \<Longrightarrow> sp_inv g (sp_exec op r)"
  by (cases op) (auto simp: sp_inv_def sp_ops split: option.splits)

lemma sp_reach_inv: "sp_reach g r \<Longrightarrow> sp_inv g r"
proof (induction rule: sp_reach.induct)
  case (start r)
  then show ?case by (auto simp: new_request_def sp_inv_def split: if_splits)
next
  case (more r r')
  then show ?case by (auto elim!: sp_stepE intro: sp_exec_inv)
qed

lemma sp_exec_captured:
  "sp_state r = Captured \<Longrightarrow> sp_state (sp_exec op r) = Captured \<and> sp_safe_point (sp_exec op r) = sp_safe_point r"
  by (cases op) (auto simp: sp_ops)

lemma sp_exec_closed: "sp_state r = Closed \<Longrightarrow> sp_state (sp_exec op r) = Closed"
  by (cases op) (auto simp: sp_ops)

fun sp_run :: "'n sp_op list \<Rightarrow> 'n safe_point_request \<Rightarrow> 'n safe_point_request" where
  "sp_run [] r = r"
| "sp_run (op # ops) r = sp_run ops (sp_exec op r)"

lemma sp_run_append: "sp_run (ops @ ops') r = sp_run ops' (sp_run ops r)"
  by (induction ops arbitrary: r) auto

lemma sp_run_captured:
  "sp_state r = Captured \<Longrightarrow> sp_state (sp_run ops r) = Captured \<and> sp_safe_point (sp_run ops r) = sp_safe_point r"
  by (induction ops arbitrary: r) (auto simp: sp_exec_captured)

lemma sp_run_closed: "sp_state r = Closed \<Longrightarrow> sp_state (sp_run ops r) = Closed"
  by (induction ops arbitrary: r) (auto simp: sp_exec_closed)

lemma sp_run_expected [simp]: "sp_expected (sp_run ops r) = sp_expected r"
proof (induction ops arbitrary: r)
  case (Cons op ops)
  have "sp_expected (sp_exec op r) = sp_expected r" by (cases op) (auto simp: sp_ops)
  with Cons show ?case by simp
qed simp

text \<open>What the operations before a successful capture must have been.\<close>

definition sp_log_inv :: "generation_identity \<Rightarrow> 'n sp_op list \<Rightarrow> 'n safe_point_request \<Rightarrow> bool" where
  "sp_log_inv g ops r \<longleftrightarrow>
     (sp_attached r \<and> sp_state r \<noteq> Captured \<longrightarrow> Attach g \<in> set ops) \<and>
     (sp_state r = Requested \<longrightarrow> Request \<in> set ops) \<and>
     (sp_state r = Idle \<or> sp_state r = Requested \<longrightarrow> Close \<notin> set ops)"

lemma sp_log_step:
  assumes "sp_log_inv g ops r" "sp_expected r = g"
  shows "sp_log_inv g (ops @ [op]) (sp_exec op r)"
  using assms by (cases op) (auto simp: sp_log_inv_def sp_ops)

lemma sp_log_run:
  assumes "new_request g = Inr r"
  shows "sp_log_inv g ops (sp_run ops r)"
proof (induction ops rule: rev_induct)
  case Nil
  then show ?case using assms by (auto simp: sp_log_inv_def new_request_def split: if_splits)
next
  case (snoc op ops)
  have "sp_expected (sp_run ops r) = g" using assms by (auto simp: new_request_def split: if_splits)
  with sp_log_step[OF snoc] show ?case by (simp add: sp_run_append)
qed

lemma sp_capture_point:
  assumes "sp_state r \<noteq> Captured" "sp_state (sp_run ops r) = Captured"
  shows "\<exists>pre op post. ops = pre @ op # post \<and> sp_state (sp_run pre r) \<noteq> Captured \<and>
           sp_state (sp_exec op (sp_run pre r)) = Captured"
  using assms
proof (induction ops arbitrary: r)
  case (Cons op ops)
  show ?case
  proof (cases "sp_state (sp_exec op r) = Captured")
    case True
    then show ?thesis using Cons.prems by (intro exI[of _ "[]"]) auto
  next
    case False
    with Cons.IH[OF this] Cons.prems obtain pre op' post where "ops = pre @ op' # post"
      "sp_state (sp_run pre (sp_exec op r)) \<noteq> Captured"
      "sp_state (sp_exec op' (sp_run pre (sp_exec op r))) = Captured" by auto
    then show ?thesis by (intro exI[of _ "op # pre"] exI[of _ op'] exI[of _ post]) auto
  qed
qed simp

lemma sp_exec_becomes_captured:
  assumes "sp_state r \<noteq> Captured" "sp_state (sp_exec op r) = Captured"
  shows "\<exists>cp. op = Capture (sp_expected r) cp False \<and> sp_attached r \<and> sp_state r = Requested \<and>
           completed_checkpoint cp \<and> sp_safe_point (sp_exec op r) = Some (sp_expected r, cp)"
  using assms by (cases op) (auto simp: sp_ops split: if_splits)

section \<open>Properties\<close>

text \<open>C32: A request holds a safe point exactly when it was captured, and then the point is a completed
  checkpoint of the generation the request was made for, with nodes left to run, in every state
  that any sequence of operations reaches.\<close>

theorem safe_point_is_completed:
  assumes "sp_reach g r"
  shows "sp_expected r = g \<and>
         (case sp_safe_point r of
            None \<Rightarrow> sp_state r \<noteq> Captured
          | Some (g', cp) \<Rightarrow> sp_state r = Captured \<and> g' = g \<and> completed_checkpoint cp)"
  using sp_reach_inv[OF assms] by (simp add: sp_inv_def)

definition demo_generation :: generation_identity where
  "demo_generation = \<lparr>core_name = ''g'', core_generation_id = ''1''\<rparr>"

definition demo_checkpoint :: "unit checkpoint" where
  "demo_checkpoint = \<lparr>cp_id = ''c1'', cp_thread_id = ''t'', cp_channel_values = JNull, cp_channel_versions = JNull,
     cp_parent_id = [], cp_current_node = ''a'', cp_next_nodes = [''b''], cp_interrupt_phase = Completed,
     cp_barrier_state = [], cp_metadata = JNull, cp_native = None, cp_step = 3, cp_timestamp = 10,
     cp_schema_version = CHECKPOINT_SCHEMA_VERSION\<rparr>"

definition demo_request :: "unit safe_point_request" where
  "demo_request = \<lparr>sp_state = Idle, sp_attached = False, sp_expected = demo_generation, sp_safe_point = None\<rparr>"

theorem safe_point_is_completed_witness:
  "sp_expected (sp_exec Request demo_request) = demo_generation"
proof -
  have "sp_reach demo_generation demo_request"
    by (rule sp_reach.start) (simp add: new_request_def demo_request_def demo_generation_def)
  then have "sp_reach demo_generation (sp_exec Request demo_request)"
    by (rule sp_reach.more) (rule sp_step.step)
  from safe_point_is_completed[OF this] show ?thesis by blast
qed

text \<open>A safe point is taken only on demand and only once: if a history of operations ends captured,
  some capture for the request's own generation succeeded after a request and an attachment of that
  generation and with no close before it, and nothing after it changed the captured checkpoint.\<close>

theorem safe_point_captured_on_demand:
  assumes "new_request g = Inr r" and "sp_state (sp_run ops r) = Captured"
  shows "\<exists>pre cp post. ops = pre @ Capture g cp False # post \<and> Request \<in> set pre \<and> Attach g \<in> set pre \<and>
           Close \<notin> set pre \<and> completed_checkpoint cp \<and> sp_safe_point (sp_run ops r) = Some (g, cp)"
proof -
  have idle: "sp_state r \<noteq> Captured" "sp_expected r = g"
    using assms(1) by (auto simp: new_request_def split: if_splits)
  from sp_capture_point[OF idle(1) assms(2)] obtain pre op post where ops: "ops = pre @ op # post"
    "sp_state (sp_run pre r) \<noteq> Captured" "sp_state (sp_exec op (sp_run pre r)) = Captured" by blast
  from sp_exec_becomes_captured[OF ops(2,3)] obtain cp where cp: "op = Capture g cp False"
    "sp_attached (sp_run pre r)" "sp_state (sp_run pre r) = Requested" "completed_checkpoint cp"
    "sp_safe_point (sp_exec op (sp_run pre r)) = Some (g, cp)" using idle(2) by auto
  have "Request \<in> set pre \<and> Attach g \<in> set pre \<and> Close \<notin> set pre"
    using sp_log_run[OF assms(1), of pre] cp by (simp add: sp_log_inv_def)
  moreover have "sp_safe_point (sp_run ops r) = Some (g, cp)"
    using sp_run_captured[OF ops(3), of post] cp(5) ops(1) by (simp add: sp_run_append)
  ultimately show ?thesis using ops(1) cp by blast
qed

theorem safe_point_captured_on_demand_witness:
  "\<exists>pre cp post. [Request, Attach demo_generation, Capture demo_generation demo_checkpoint False, Close] =
       pre @ Capture demo_generation cp False # post \<and> Request \<in> set pre \<and> Attach demo_generation \<in> set pre"
proof -
  let ?ops = "[Request, Attach demo_generation, Capture demo_generation demo_checkpoint False, Close]"
  have start: "new_request demo_generation = Inr demo_request"
    by (simp add: new_request_def demo_request_def demo_generation_def)
  have "sp_state (sp_run ?ops demo_request) = Captured"
    by (simp add: sp_ops demo_request_def completed_checkpoint_def demo_checkpoint_def int_max_def)
  from safe_point_captured_on_demand[OF start this] show ?thesis by blast
qed

end
