(* ===== verification/NG_Framing.thy ===== *)
theory NG_Framing
  imports NG_Types
begin

text \<open>
  Length-prefixed keys, as the node cache (\<open>src/src/core/node_cache.cpp\<close>) and the in-memory store
  (\<open>src/src/core/store.cpp\<close>) build them, \<open>std::to_string\<close> on sizes, and the FNV-1a hash with
  its fixed-width hexadecimal rendering. The locale \<open>keyed_map\<close> is what a map keyed by an
  injective encoding promises its clients.
\<close>

section \<open>Decimal numbers\<close>

definition digit :: "nat \<Rightarrow> char" where
  "digit n = char_of (48 + n)"

fun to_decimal :: "nat \<Rightarrow> string" where
  "to_decimal n = (if n < 10 then [digit n] else to_decimal (n div 10) @ [digit (n mod 10)])"

declare to_decimal.simps [simp del]

definition of_decimal :: "string \<Rightarrow> nat" where
  "of_decimal s = foldl (\<lambda>acc c. acc * 10 + (of_char c - 48)) 0 s"

lemma of_char_digit [simp]: "n < 10 \<Longrightarrow> of_char (digit n) = 48 + n"
  by (simp add: digit_def)

lemma of_decimal_to_decimal [simp]: "of_decimal (to_decimal n) = n"
proof (induction n rule: to_decimal.induct)
  case (1 n)
  then show ?case by (subst to_decimal.simps) (auto simp: of_decimal_def)
qed

lemma to_decimal_inj [simp]: "to_decimal a = to_decimal b \<longleftrightarrow> a = b"
  by (metis of_decimal_to_decimal)

lemma digit_not_colon: "n < 10 \<Longrightarrow> digit n \<noteq> CHR '':''"
proof
  assume "n < 10" "digit n = CHR '':''"
  then have "of_char (digit n) = (of_char CHR '':'' :: nat)" by simp
  with \<open>n < 10\<close> show False by simp
qed

lemma to_decimal_no_colon: "CHR '':'' \<notin> set (to_decimal n)"
proof (induction n rule: to_decimal.induct)
  case (1 n)
  then show ?case using digit_not_colon[of n] digit_not_colon[of "n mod 10"]
    by (subst to_decimal.simps) auto
qed

lemma to_decimal_not_Nil [simp]: "to_decimal n \<noteq> []"
  by (subst to_decimal.simps) simp

section \<open>Frames\<close>

definition frame :: "string \<Rightarrow> string" where
  "frame s = to_decimal (length s) @ '':'' @ s"

lemma colon_split:
  assumes "CHR '':'' \<notin> set a" "CHR '':'' \<notin> set b" "a @ CHR '':'' # x = b @ CHR '':'' # y"
  shows "a = b \<and> x = y"
proof -
  have "takeWhile (\<lambda>c. c \<noteq> CHR '':'') (a @ CHR '':'' # x) = a"
    "takeWhile (\<lambda>c. c \<noteq> CHR '':'') (b @ CHR '':'' # y) = b"
    using assms(1,2) by (auto simp: takeWhile_append2 takeWhile_tail)
  with assms(3) show ?thesis by auto
qed

lemma frame_append_inj: "frame a @ x = frame b @ y \<longleftrightarrow> a = b \<and> x = y"
proof
  assume "frame a @ x = frame b @ y"
  then have "to_decimal (length a) @ CHR '':'' # (a @ x) = to_decimal (length b) @ CHR '':'' # (b @ y)"
    by (simp add: frame_def)
  from colon_split[OF to_decimal_no_colon to_decimal_no_colon this]
  show "a = b \<and> x = y" by auto
qed simp

lemma frames_inj: "length xs = length ys \<Longrightarrow> concat (map frame xs) @ x = concat (map frame ys) @ y \<longleftrightarrow> xs = ys \<and> x = y"
  by (induction xs ys rule: list_induct2) (auto simp: frame_append_inj)

section \<open>Maps under an injective key encoding\<close>

locale keyed_map =
  fixes enc :: "'a \<Rightarrow> 'k::linorder"
  assumes enc_inj: "enc a = enc b \<longleftrightarrow> a = b"
begin

lemma find_put: "map_of (smap_put (enc a) v m) (enc b) = (if a = b then Some v else map_of m (enc b))"
  by (simp add: enc_inj)

lemma find_erase: "map_of (smap_erase (enc a) m) (enc b) = (if a = b then None else map_of m (enc b))"
  by (simp add: enc_inj)

end

section \<open>FNV-1a\<close>

definition fnv_offset :: u64 where
  "fnv_offset = 0xcbf29ce484222325"

definition fnv_prime :: u64 where
  "fnv_prime = 0x100000001b3"

definition fnv1a_64 :: "string \<Rightarrow> u64" where
  "fnv1a_64 s = fold (\<lambda>c h. xor h (of_char c) * fnv_prime) s fnv_offset"

definition hex_digit :: "nat \<Rightarrow> char" where
  "hex_digit n = (if n < 10 then char_of (48 + n) else char_of (87 + n))"

fun hex_width :: "nat \<Rightarrow> nat \<Rightarrow> string" where
  "hex_width 0 n = []"
| "hex_width (Suc w) n = hex_width w (n div 16) @ [hex_digit (n mod 16)]"

definition fnv1a_hex :: "string \<Rightarrow> string" where
  "fnv1a_hex s = hex_width 16 (unat (fnv1a_64 s))"

lemma hex_digit_inj: "a < 16 \<Longrightarrow> b < 16 \<Longrightarrow> hex_digit a = hex_digit b \<longleftrightarrow> a = b"
proof
  assume ab: "a < 16" "b < 16" and "hex_digit a = hex_digit b"
  then have "of_char (hex_digit a) = (of_char (hex_digit b) :: nat)" by simp
  with ab show "a = b" by (auto simp: hex_digit_def split: if_splits)
qed simp

lemma hex_width_length [simp]: "length (hex_width w n) = w"
  by (induction w arbitrary: n) auto

lemma hex_width_inj: "m < 16 ^ w \<Longrightarrow> n < 16 ^ w \<Longrightarrow> hex_width w m = hex_width w n \<Longrightarrow> m = n"
proof (induction w arbitrary: m n)
  case (Suc w)
  have "hex_width w (m div 16) = hex_width w (n div 16)" "hex_digit (m mod 16) = hex_digit (n mod 16)"
    using Suc.prems(3) by auto
  then have "m div 16 = n div 16" "m mod 16 = n mod 16"
    using Suc.IH[of "m div 16" "n div 16"] Suc.prems hex_digit_inj by (auto simp: less_mult_imp_div_less)
  then show ?case by (metis div_mult_mod_eq)
qed simp

section \<open>Task ids\<close>

text \<open>
  The ids under which a step's results are replayed. \<open>dump\<close> is the JSON printer of the library the
  program uses.
\<close>

definition int_to_string :: "int \<Rightarrow> string" where
  "int_to_string i = (if i < 0 then ''-'' @ to_decimal (nat (- i)) else to_decimal (nat i))"

definition make_static_task_id :: "int \<Rightarrow> string \<Rightarrow> string" where
  "make_static_task_id step node = ''s'' @ int_to_string step @ '':'' @ node"

definition make_send_task_id :: "(json \<Rightarrow> string) \<Rightarrow> int \<Rightarrow> nat \<Rightarrow> string \<Rightarrow> json \<Rightarrow> string" where
  "make_send_task_id dump step idx target input =
     ''s'' @ int_to_string step @ '':send['' @ to_decimal idx @ '']:'' @ target @ '':'' @ fnv1a_hex (dump input)"

lemma int_to_string_no_colon: "CHR '':'' \<notin> set (int_to_string i)"
  using to_decimal_no_colon by (auto simp: int_to_string_def)

lemma digit_not_minus: "CHR ''-'' \<notin> set (to_decimal n)"
proof (induction n rule: to_decimal.induct)
  case (1 n)
  have "digit k \<noteq> CHR ''-''" if "k < 10" for k
  proof
    assume "digit k = CHR ''-''"
    then have "of_char (digit k) = (of_char CHR ''-'' :: nat)" by simp
    with that show False by simp
  qed
  from this[of n] this[of "n mod 10"] 1 show ?case by (subst to_decimal.simps) auto
qed

lemma int_to_string_inj: "int_to_string a = int_to_string b \<longleftrightarrow> a = b"
proof -
  have "to_decimal m \<noteq> CHR ''-'' # to_decimal n" for m n
    using digit_not_minus[of m] by (metis list.set_intros(1))
  then show ?thesis by (auto simp: int_to_string_def split: if_splits dest: sym)
qed

lemma static_task_id_inj:
  "make_static_task_id step node = make_static_task_id step' node' \<longleftrightarrow> step = step' \<and> node = node'"
  using colon_split[OF int_to_string_no_colon int_to_string_no_colon, of step node step' node'] int_to_string_inj
  by (auto simp: make_static_task_id_def)

end
