(* ===== verification/NG_Store.thy ===== *)
theory NG_Store
  imports NG_Framing "HOL-Library.Sublist"
begin

text \<open>
  The in-memory cross-thread store (\<open>src/src/core/store.cpp\<close>). The contract of the abstract class
  \<open>Store\<close> (\<open>src/include/neograph/graph/store.h\<close>) is the locale \<open>namespaced_store\<close>, interpreted
  on the model of \<open>InMemoryStore\<close>. The wall clock is an argument of \<open>store_put\<close>.
\<close>

section \<open>Data and operations\<close>

record store_item =
  si_ns :: "string list"
  si_key :: string
  si_value :: json
  si_created_at :: int
  si_updated_at :: int

type_synonym memory_store = "(string \<times> store_item) list"

definition namespace_has_prefix :: "string list \<Rightarrow> string list \<Rightarrow> bool" where
  "namespace_has_prefix ns pre \<longleftrightarrow> length ns \<ge> length pre \<and> take (length pre) ns = pre"

definition ns_to_string :: "string list \<Rightarrow> string" where
  "ns_to_string ns = fold (\<lambda>component result. result @ to_decimal (length component) @ '':'' @ component) ns
     (to_decimal (length ns) @ '':'')"

definition store_key :: "string list \<Rightarrow> string \<Rightarrow> string" where
  "store_key ns key = ns_to_string ns @ to_decimal (length key) @ '':'' @ key"

definition store_put :: "int \<Rightarrow> string list \<Rightarrow> string \<Rightarrow> json \<Rightarrow> memory_store \<Rightarrow> memory_store" where
  "store_put now ns key v items =
     (let composite = store_key ns key
      in case map_of items composite of
           Some item \<Rightarrow> smap_put composite (item\<lparr>si_value := v, si_updated_at := now\<rparr>) items
         | None \<Rightarrow> smap_put composite
             \<lparr>si_ns = ns, si_key = key, si_value = v, si_created_at = now, si_updated_at = now\<rparr> items)"

definition store_get :: "memory_store \<Rightarrow> string list \<Rightarrow> string \<Rightarrow> store_item option" where
  "store_get items ns key = map_of items (store_key ns key)"

fun search_loop :: "string list \<Rightarrow> int \<Rightarrow> memory_store \<Rightarrow> store_item list \<Rightarrow> store_item list" where
  "search_loop pre limit [] results = results"
| "search_loop pre limit ((composite, item) # items) results =
     (if namespace_has_prefix (si_ns item) pre
      then (let results' = results @ [item]
            in if int (length results') \<ge> limit then results' else search_loop pre limit items results')
      else search_loop pre limit items results)"

definition store_search :: "string list \<Rightarrow> int \<Rightarrow> memory_store \<Rightarrow> store_item list" where
  "store_search pre limit items = search_loop pre limit items []"

definition delete_item :: "string list \<Rightarrow> string \<Rightarrow> memory_store \<Rightarrow> memory_store" where
  "delete_item ns key items = smap_erase (store_key ns key) items"

fun list_loop :: "string list \<Rightarrow> memory_store \<Rightarrow> string list list \<Rightarrow> string list list" where
  "list_loop pre [] results = results"
| "list_loop pre ((composite, item) # items) results =
     (if namespace_has_prefix (si_ns item) pre \<and> si_ns item \<notin> set results
      then list_loop pre items (results @ [si_ns item])
      else list_loop pre items results)"

definition list_namespaces :: "string list \<Rightarrow> memory_store \<Rightarrow> string list list" where
  "list_namespaces pre items = list_loop pre items []"

definition store_size :: "memory_store \<Rightarrow> nat" where
  "store_size items = length items"

section \<open>Keys are collision-free\<close>

lemma ns_to_string_frames: "ns_to_string ns = to_decimal (length ns) @ '':'' @ concat (map frame ns)"
proof -
  have "fold (\<lambda>component result. result @ to_decimal (length component) @ '':'' @ component) ns acc =
      acc @ concat (map frame ns)" for acc
    by (induction ns arbitrary: acc) (auto simp: frame_def)
  then show ?thesis by (simp add: ns_to_string_def)
qed

lemma store_key_inj: "store_key ns k = store_key ns' k' \<longleftrightarrow> ns = ns' \<and> k = k'"
proof
  assume "store_key ns k = store_key ns' k'"
  then have "to_decimal (length ns) @ CHR '':'' # (concat (map frame ns) @ frame k) =
      to_decimal (length ns') @ CHR '':'' # (concat (map frame ns') @ frame k')"
    by (simp add: store_key_def ns_to_string_frames frame_def)
  from colon_split[OF to_decimal_no_colon to_decimal_no_colon this]
  have "length ns = length ns'" "concat (map frame ns) @ frame k = concat (map frame ns') @ frame k'" by auto
  then have "ns = ns'" "frame k = frame k'" using frames_inj by blast+
  then show "ns = ns' \<and> k = k'" using frame_append_inj[of k "[]" k' "[]"] by simp
qed simp

interpretation store_keys: keyed_map "\<lambda>p. store_key (fst p) (snd p)"
  by unfold_locales (auto simp: store_key_inj prod_eq_iff)

section \<open>The contract of a store\<close>

locale namespaced_store =
  fixes invar :: "'s \<Rightarrow> bool"
    and get :: "'s \<Rightarrow> string list \<Rightarrow> string \<Rightarrow> store_item option"
    and put :: "int \<Rightarrow> string list \<Rightarrow> string \<Rightarrow> json \<Rightarrow> 's \<Rightarrow> 's"
    and delete :: "string list \<Rightarrow> string \<Rightarrow> 's \<Rightarrow> 's"
  assumes get_put_other: "invar s \<Longrightarrow> (ns', k') \<noteq> (ns, k) \<Longrightarrow> get (put now ns k v s) ns' k' = get s ns' k'"
    and get_put_same: "invar s \<Longrightarrow> get (put now ns k v s) ns k =
      Some \<lparr>si_ns = ns, si_key = k, si_value = v,
            si_created_at = (case get s ns k of None \<Rightarrow> now | Some i \<Rightarrow> si_created_at i), si_updated_at = now\<rparr>"
    and get_delete: "invar s \<Longrightarrow> get (delete ns k s) ns' k' = (if (ns', k') = (ns, k) then None else get s ns' k')"
    and invar_put: "invar s \<Longrightarrow> invar (put now ns k v s)"
    and invar_delete: "invar s \<Longrightarrow> invar (delete ns k s)"
begin

lemma get_put:
  "invar s \<Longrightarrow> map_option si_value (get (put now ns k v s) ns' k') =
     (if (ns', k') = (ns, k) then Some v else map_option si_value (get s ns' k'))"
  by (auto simp: get_put_same get_put_other)

lemma put_put_created:
  "invar s \<Longrightarrow> map_option si_created_at (get (put t2 ns k w (put t1 ns k v s)) ns k) =
     map_option si_created_at (get (put t1 ns k v s) ns k)"
  by (simp add: get_put_same invar_put)

lemma delete_put: "invar s \<Longrightarrow> get (delete ns k (put now ns k v s)) ns' k' = get (delete ns k s) ns' k'"
  by (auto simp: get_delete get_put_other invar_put)

end

definition store_ok :: "memory_store \<Rightarrow> bool" where
  "store_ok items \<longleftrightarrow> smap_ok items \<and> list_all (\<lambda>(c, i). c = store_key (si_ns i) (si_key i)) items"

lemma store_ok_find:
  assumes "store_ok items" "map_of items (store_key ns k) = Some i"
  shows "si_ns i = ns \<and> si_key i = k"
  using map_of_SomeD[OF assms(2)] assms(1) by (auto simp: store_ok_def list_all_iff store_key_inj)

definition next_item :: "int \<Rightarrow> string list \<Rightarrow> string \<Rightarrow> json \<Rightarrow> store_item option \<Rightarrow> store_item" where
  "next_item now ns k v old =
     (case old of
        Some i \<Rightarrow> i\<lparr>si_value := v, si_updated_at := now\<rparr>
      | None \<Rightarrow> \<lparr>si_ns = ns, si_key = k, si_value = v, si_created_at = now, si_updated_at = now\<rparr>)"

lemma store_put_next:
  "store_put now ns k v items =
     smap_put (store_key ns k) (next_item now ns k v (store_get items ns k)) items"
  by (simp add: store_put_def next_item_def store_get_def Let_def split: option.splits)

lemma next_item_fields:
  assumes "store_ok items"
  shows "next_item now ns k v (store_get items ns k) =
     \<lparr>si_ns = ns, si_key = k, si_value = v,
      si_created_at = (case store_get items ns k of None \<Rightarrow> now | Some i \<Rightarrow> si_created_at i), si_updated_at = now\<rparr>"
proof (cases "store_get items ns k")
  case (Some i)
  with store_ok_find[OF assms, of ns k i] show ?thesis by (cases i) (simp add: next_item_def store_get_def)
qed (simp add: next_item_def)

lemma store_ok_put:
  assumes "store_ok items"
  shows "store_ok (store_put now ns k v items)"
proof -
  have ok: "smap_ok items" "list_all (\<lambda>(c, i). c = store_key (si_ns i) (si_key i)) items"
    using assms by (simp_all add: store_ok_def)
  show ?thesis unfolding store_put_next next_item_fields[OF assms] store_ok_def
    using ok by (simp add: list_all_iff smap_set_put)
qed

lemma store_ok_delete: "store_ok items \<Longrightarrow> store_ok (delete_item ns k items)"
  by (auto simp: store_ok_def delete_item_def list_all_iff) (auto simp: smap_erase_def)

interpretation memory: namespaced_store store_ok store_get store_put delete_item
proof unfold_locales
  fix s :: memory_store and ns :: "string list" and k :: string and now v assume "store_ok s"
  then show "store_get (store_put now ns k v s) ns k =
      Some \<lparr>si_ns = ns, si_key = k, si_value = v,
            si_created_at = (case store_get s ns k of None \<Rightarrow> now | Some i \<Rightarrow> si_created_at i), si_updated_at = now\<rparr>"
    unfolding store_put_next by (simp add: store_get_def next_item_fields[unfolded store_get_def])
next
  fix s :: memory_store and ns ns' :: "string list" and k k' :: string and now v assume "store_ok s" "(ns', k') \<noteq> (ns, k)"
  then show "store_get (store_put now ns k v s) ns' k' = store_get s ns' k'"
    unfolding store_put_next using store_keys.find_put[of "(ns, k)" _ s "(ns', k')"] by (auto simp: store_get_def)
next
  fix s :: memory_store and ns ns' :: "string list" and k k' :: string
  show "store_get (delete_item ns k s) ns' k' = (if (ns', k') = (ns, k) then None else store_get s ns' k')"
    using store_keys.find_erase[of "(ns, k)" s "(ns', k')"] by (auto simp: store_get_def delete_item_def)
qed (simp_all add: store_ok_put store_ok_delete)

section \<open>Searching\<close>

lemma search_loop_take:
  "search_loop pre limit items results =
     results @ take (nat (max 1 (limit - int (length results))))
       (filter (\<lambda>i. namespace_has_prefix (si_ns i) pre) (map snd items))"
proof (induction pre limit items results rule: search_loop.induct)
  case (2 pre limit composite item items results)
  let ?m = "filter (\<lambda>i. namespace_has_prefix (si_ns i) pre) (map snd items)"
  show ?case
  proof (cases "namespace_has_prefix (si_ns item) pre")
    case True
    show ?thesis
    proof (cases "int (length (results @ [item])) \<ge> limit")
      case False
      then have "nat (max 1 (limit - int (length results))) = Suc (nat (max 1 (limit - int (length (results @ [item])))))"
        by (simp add: max_def)
      then show ?thesis using 2(1)[OF True _ False] True False by simp
    next
      case True
      then have "nat (max 1 (limit - int (length results))) = 1" by auto
      then show ?thesis using True \<open>namespace_has_prefix (si_ns item) pre\<close> by (simp add: Let_def)
    qed
  qed (use 2(2) in simp)
qed simp

lemma list_loop_set:
  "set (list_loop pre items results) =
     set results \<union> {ns. namespace_has_prefix ns pre \<and> (\<exists>i \<in> snd ` set items. si_ns i = ns)}"
  by (induction pre items results rule: list_loop.induct) auto

lemma list_loop_distinct: "distinct results \<Longrightarrow> distinct (list_loop pre items results)"
  by (induction pre items results rule: list_loop.induct) auto

lemma has_prefix_iff: "namespace_has_prefix ns pre \<longleftrightarrow> prefix pre ns"
  unfolding namespace_has_prefix_def by (metis append_eq_conv_conj append_take_drop_id prefix_def prefix_length_le)

section \<open>Properties\<close>

text \<open>C37: The store is a map over namespaces and keys: after any put, a read of the same namespace and
  key returns the new value with the first creation time, and every other item is unchanged; a
  delete removes exactly its item. In particular no two different namespace and key pairs share a
  slot, whatever bytes they contain.\<close>

theorem store_is_a_map:
  assumes "store_ok items"
  shows "map_option si_value (store_get (store_put now ns k v items) ns' k') =
           (if (ns', k') = (ns, k) then Some v else map_option si_value (store_get items ns' k')) \<and>
         map_option si_created_at (store_get (store_put t2 ns k w (store_put now ns k v items)) ns k) =
           map_option si_created_at (store_get (store_put now ns k v items) ns k) \<and>
         store_get (delete_item ns k items) ns' k' =
           (if (ns', k') = (ns, k) then None else store_get items ns' k') \<and>
         store_ok (store_put now ns k v items) \<and> store_ok (delete_item ns k items)"
  using memory.get_put[OF assms] memory.put_put_created[OF assms] memory.get_delete[OF assms]
    memory.invar_put[OF assms] memory.invar_delete[OF assms] by simp

theorem store_is_a_map_witness:
  "map_option si_value (store_get (store_put 5 [''a:1''] ''k'' (JUint 1) []) [''a'', ''1''] ''k'') = None"
proof -
  have "store_ok []" by (simp add: store_ok_def)
  from store_is_a_map[OF this, of 5 "[''a:1'']" "''k''" "JUint 1" "[''a'', ''1'']" "''k''"] show ?thesis
    by (simp add: store_get_def)
qed

text \<open>A search returns, in key order, the first matching items up to the limit; with a limit of
  zero or less it still returns one item when there is a match.\<close>

theorem store_search_result:
  "store_search pre limit items =
     take (nat (max 1 limit)) (filter (\<lambda>i. prefix pre (si_ns i)) (map snd items))"
  by (simp add: store_search_def search_loop_take has_prefix_iff)

text \<open>Listing the namespaces under a prefix returns each namespace that holds an item and extends the
  prefix, exactly once.\<close>

theorem store_list_namespaces:
  "distinct (list_namespaces pre items) \<and>
   set (list_namespaces pre items) = {ns. prefix pre ns \<and> (\<exists>i \<in> snd ` set items. si_ns i = ns)}"
  using list_loop_set[of pre items "[]"] list_loop_distinct[of "[]" pre items]
  by (auto simp: list_namespaces_def has_prefix_iff)

end
