(* ===== verification/NG_Cache.thy ===== *)
theory NG_Cache
  imports NG_Framing "HOL-Library.Product_Lexorder" "HOL-Library.Multiset"
begin

text \<open>
  The node result cache (\<open>src/src/core/node_cache.cpp\<close>). The hash map of entries is an
  association list sorted by key: the code's only iteration over it picks the minimum by last use
  and key, so its result does not depend on the order the map is walked in. Lookup and store
  update the counters the code updates.

  \<open>recency\<close> is the abstract cache: the keys from the least to the most recently used one.
\<close>

section \<open>State and operations\<close>

record 'm cache_entry =
  ce_result :: "'m node_result"
  ce_last_used :: u64

datatype cache_scope = ScopeExecution | ScopeReusable

record 'm node_cache =
  enabled_nodes :: "string list"
  policies :: "(string \<times> cache_scope) list"
  entries :: "(string \<times> 'm cache_entry) list"
  hits :: u64
  misses :: u64
  max_entries :: nat
  evictions :: u64
  access_sequence :: u64

definition new_cache :: "'m node_cache" where
  "new_cache = \<lparr>enabled_nodes = [], policies = [], entries = [], hits = 0, misses = 0, max_entries = 0,
                evictions = 0, access_sequence = 0\<rparr>"

definition set_enabled :: "string \<Rightarrow> bool \<Rightarrow> 'm node_cache \<Rightarrow> 'm node_cache" where
  "set_enabled node enabled c =
     (if enabled then c\<lparr>enabled_nodes := sset_insert node (enabled_nodes c)\<rparr>
      else c\<lparr>enabled_nodes := filter (\<lambda>n. n \<noteq> node) (enabled_nodes c)\<rparr>)"

definition is_enabled :: "'m node_cache \<Rightarrow> string \<Rightarrow> bool" where
  "is_enabled c node \<longleftrightarrow> node \<in> set (enabled_nodes c)"

definition set_policy :: "string \<Rightarrow> cache_scope \<Rightarrow> 'm node_cache \<Rightarrow> 'm node_cache" where
  "set_policy node policy c = c\<lparr>policies := smap_put node policy (policies c)\<rparr>"

definition policy_for :: "'m node_cache \<Rightarrow> string \<Rightarrow> cache_scope" where
  "policy_for c node = (case map_of (policies c) node of None \<Rightarrow> ScopeExecution | Some p \<Rightarrow> p)"

definition cache_key :: "string \<Rightarrow> string \<Rightarrow> string \<Rightarrow> string" where
  "cache_key node state_hash scope_key =
     fold (\<lambda>part k. k @ to_decimal (length part) @ '':'' @ part) [node, scope_key, state_hash] []"

definition lookup_entry :: "string \<Rightarrow> 'm node_cache \<Rightarrow> 'm node_result option \<times> 'm node_cache" where
  "lookup_entry key c =
     (case map_of (entries c) key of
        None \<Rightarrow> (None, c\<lparr>misses := misses c + 1\<rparr>)
      | Some e \<Rightarrow>
          let c' = c\<lparr>hits := hits c + 1\<rparr>
          in (Some (ce_result e),
              if max_entries c > 0
              then c'\<lparr>access_sequence := access_sequence c + 1,
                      entries := smap_put key (e\<lparr>ce_last_used := access_sequence c + 1\<rparr>) (entries c)\<rparr>
              else c'))"

definition cache_lookup ::
    "string \<Rightarrow> string \<Rightarrow> string \<Rightarrow> 'm node_cache \<Rightarrow> 'm node_result option \<times> 'm node_cache" where
  "cache_lookup node state_hash scope_key c =
     (if \<not> is_enabled c node then (None, c) else lookup_entry (cache_key node state_hash scope_key) c)"

text \<open>\<open>evict_one_locked\<close>: the least recently used entry, ties broken by the key.\<close>

definition pick_victim :: "string \<times> 'm cache_entry \<Rightarrow> string \<times> 'm cache_entry \<Rightarrow> string \<times> 'm cache_entry" where
  "pick_victim it victim =
     (if ce_last_used (snd it) < ce_last_used (snd victim) \<or>
         (ce_last_used (snd it) = ce_last_used (snd victim) \<and> fst it < fst victim)
      then it else victim)"

definition evict_one :: "'m node_cache \<Rightarrow> 'm node_cache" where
  "evict_one c =
     (case entries c of
        [] \<Rightarrow> c
      | first # rest \<Rightarrow>
          let victim = fold pick_victim rest first
          in c\<lparr>entries := smap_erase (fst victim) (entries c), evictions := evictions c + 1\<rparr>)"

definition insert_entry :: "string \<Rightarrow> 'm node_result \<Rightarrow> 'm node_cache \<Rightarrow> 'm node_cache" where
  "insert_entry key result c =
     (if max_entries c > 0
      then c\<lparr>access_sequence := access_sequence c + 1,
             entries := smap_put key \<lparr>ce_result = result, ce_last_used = access_sequence c + 1\<rparr> (entries c)\<rparr>
      else c\<lparr>entries := smap_put key \<lparr>ce_result = result, ce_last_used = 0\<rparr> (entries c)\<rparr>)"

definition store_entry :: "string \<Rightarrow> 'm node_result \<Rightarrow> 'm node_cache \<Rightarrow> 'm node_cache" where
  "store_entry key result c =
     (case map_of (entries c) key of
        Some e \<Rightarrow>
          (if max_entries c > 0
           then c\<lparr>access_sequence := access_sequence c + 1,
                  entries := smap_put key \<lparr>ce_result = result, ce_last_used = access_sequence c + 1\<rparr> (entries c)\<rparr>
           else c\<lparr>entries := smap_put key (e\<lparr>ce_result := result\<rparr>) (entries c)\<rparr>)
      | None \<Rightarrow>
          insert_entry key result
            (if max_entries c > 0 \<and> length (entries c) \<ge> max_entries c then evict_one c else c))"

definition cache_store ::
    "string \<Rightarrow> string \<Rightarrow> string \<Rightarrow> 'm node_result \<Rightarrow> 'm node_cache \<Rightarrow> 'm node_cache" where
  "cache_store node state_hash scope_key result c =
     (if \<not> is_enabled c node then c else store_entry (cache_key node state_hash scope_key) result c)"

definition cache_clear :: "'m node_cache \<Rightarrow> 'm node_cache" where
  "cache_clear c = c\<lparr>entries := [], access_sequence := 0\<rparr>"

lemma fold_pick_victim_mem: "fold pick_victim es v \<in> insert v (set es)"
  by (induction es arbitrary: v) (auto simp: pick_victim_def split: if_splits)

lemma evict_one_length: "entries c \<noteq> [] \<Longrightarrow> length (entries (evict_one c)) < length (entries c)"
proof (cases "entries c")
  case (Cons e es)
  let ?v = "fold pick_victim es e"
  have v: "?v \<in> set (entries c)" using fold_pick_victim_mem[of es e] Cons by auto
  have "length (filter (\<lambda>p. fst p \<noteq> fst ?v) (entries c)) < length (entries c)"
    by (rule length_filter_less[OF v]) simp
  then show ?thesis by (simp add: evict_one_def smap_erase_def Cons Let_def)
qed simp

function evict_until :: "'m node_cache \<Rightarrow> 'm node_cache" where
  "evict_until c =
     (if max_entries c > 0 \<and> length (entries c) > max_entries c then evict_until (evict_one c) else c)"
  by auto

termination
proof (relation "measure (\<lambda>c. length (entries c))")
  fix c :: "'m node_cache"
  assume "max_entries c > 0 \<and> length (entries c) > max_entries c"
  then show "(evict_one c, c) \<in> measure (\<lambda>c. length (entries c))"
    using evict_one_length[of c] by fastforce
qed simp

declare evict_until.simps [simp del]

definition set_max_entries :: "nat \<Rightarrow> 'm node_cache \<Rightarrow> 'm node_cache" where
  "set_max_entries n c =
     (let reset = c\<lparr>access_sequence := 0,
                    entries := map (\<lambda>(k, e). (k, e\<lparr>ce_last_used := 0\<rparr>)) (entries c)\<rparr>;
          c' = (if max_entries c = 0 \<and> n > 0 then reset else if n = 0 then reset else c)
      in evict_until (c'\<lparr>max_entries := n\<rparr>))"

text \<open>\<open>hash_state_for_cache\<close> after the canonical bytes of the value are known.\<close>

definition hash_canonical_bytes :: "string \<Rightarrow> string" where
  "hash_canonical_bytes canon =
     hex_width 16 (unat (fold (\<lambda>c h. xor h (of_char c) * fnv_prime) canon fnv_offset))"

section \<open>Keys\<close>

lemma cache_key_frames: "cache_key node hash scope = frame node @ frame scope @ frame hash"
  by (simp add: cache_key_def frame_def)

lemma cache_key_inj:
  "cache_key n h s = cache_key n' h' s' \<longleftrightarrow> n = n' \<and> h = h' \<and> s = s'"
  using frame_append_inj[of h "[]" h' "[]"] by (auto simp: cache_key_frames frame_append_inj)

interpretation cache_keys: keyed_map "\<lambda>(n, h, s). cache_key n h s"
  by unfold_locales (auto simp: cache_key_inj)

section \<open>Recency\<close>

definition last_used_of :: "'m node_cache \<Rightarrow> string \<Rightarrow> u64" where
  "last_used_of c k = (case map_of (entries c) k of None \<Rightarrow> 0 | Some e \<Rightarrow> ce_last_used e)"

definition rank :: "'m node_cache \<Rightarrow> string \<Rightarrow> u64 \<times> string" where
  "rank c k = (last_used_of c k, k)"

definition recency :: "'m node_cache \<Rightarrow> string list" where
  "recency c = sort_key (rank c) (map fst (entries c))"

definition cache_ok :: "'m node_cache \<Rightarrow> bool" where
  "cache_ok c \<longleftrightarrow>
     smap_ok (entries c) \<and> (max_entries c > 0 \<longrightarrow> length (entries c) \<le> max_entries c) \<and>
     list_all (\<lambda>(k, e). ce_last_used e \<le> access_sequence c) (entries c)"

lemma rank_inj: "inj (rank c)"
  by (rule injI) (simp add: rank_def)

lemma set_recency [simp]: "set (recency c) = fst ` set (entries c)"
  by (simp add: recency_def)

lemma length_recency [simp]: "length (recency c) = length (entries c)"
  by (simp add: recency_def)

lemma distinct_recency: "cache_ok c \<Longrightarrow> distinct (recency c)"
  by (simp add: recency_def cache_ok_def smap_ok_distinct)

lemma filter_single: "distinct xs \<Longrightarrow> k \<in> set xs \<Longrightarrow> filter (\<lambda>x. x = k) xs = [k]"
  by (induction xs) (auto simp: filter_empty_conv)

lemma recency_unique:
  assumes "distinct ks" "distinct (map fst (entries c))" "set ks = fst ` set (entries c)" "sorted (map (rank c) ks)"
  shows "recency c = ks"
proof -
  have "mset ks = mset (map fst (entries c))"
    using assms(1-3) set_eq_iff_mset_eq_distinct[of ks "map fst (entries c)"] by simp
  moreover have "filter (\<lambda>x. rank c k = rank c x) ks = filter (\<lambda>x. rank c k = rank c x) (map fst (entries c))"
    if "k \<in> set ks" for k
  proof -
    have "filter (\<lambda>x. rank c k = rank c x) xs = [k]" if "distinct xs" "k \<in> set xs" for xs
    proof -
      have "filter (\<lambda>x. rank c k = rank c x) xs = filter (\<lambda>x. x = k) xs"
        by (rule filter_cong) (auto simp: rank_def)
      with that show ?thesis by (simp add: filter_single)
    qed
    with assms that show ?thesis by simp
  qed
  ultimately show ?thesis unfolding recency_def using assms(4) by (intro properties_for_sort_key) auto
qed

lemma rank_entry: "smap_ok (entries c) \<Longrightarrow> (k, e) \<in> set (entries c) \<Longrightarrow> rank c k = (ce_last_used e, k)"
  by (simp add: rank_def last_used_of_def smap_mem_iff)

lemma recency_sorted: "sorted (map (rank c) (recency c))"
  by (simp add: recency_def)

subsection \<open>Eviction drops the head\<close>

abbreviation entry_rank :: "string \<times> 'm cache_entry \<Rightarrow> u64 \<times> string" where
  "entry_rank p \<equiv> (ce_last_used (snd p), fst p)"

lemma pick_victim_rank: "entry_rank (pick_victim it v) = min (entry_rank it) (entry_rank v)"
  by (auto simp: pick_victim_def min_def less_eq_prod_def)

lemma fold_pick_victim_min: "\<forall>p \<in> insert v (set es). entry_rank (fold pick_victim es v) \<le> entry_rank p"
proof (induction es arbitrary: v)
  case (Cons e es)
  have "entry_rank (pick_victim e v) \<le> entry_rank e \<and> entry_rank (pick_victim e v) \<le> entry_rank v"
    unfolding pick_victim_rank by simp
  with Cons.IH[of "pick_victim e v"] show ?case by (auto intro: order_trans)
qed simp

definition victim_key :: "'m node_cache \<Rightarrow> string" where
  "victim_key c = fst (fold pick_victim (tl (entries c)) (hd (entries c)))"

lemma evict_one_entries: "entries c \<noteq> [] \<Longrightarrow> entries (evict_one c) = smap_erase (victim_key c) (entries c)"
  by (cases "entries c") (simp_all add: evict_one_def victim_key_def Let_def)

lemma victim_key_min:
  assumes "smap_ok (entries c)" "entries c \<noteq> []"
  shows "victim_key c \<in> fst ` set (entries c)" "\<forall>k \<in> fst ` set (entries c). rank c (victim_key c) \<le> rank c k"
proof -
  let ?v = "fold pick_victim (tl (entries c)) (hd (entries c))"
  have all: "insert (hd (entries c)) (set (tl (entries c))) = set (entries c)"
    using assms(2) by (cases "entries c") auto
  have v: "?v \<in> set (entries c)" using fold_pick_victim_mem[of "tl (entries c)"] all by blast
  then show "victim_key c \<in> fst ` set (entries c)" by (simp add: victim_key_def)
  have "rank c (victim_key c) = entry_rank ?v"
    using rank_entry[OF assms(1), of "fst ?v" "snd ?v"] v by (simp add: victim_key_def)
  moreover have "rank c (fst p) = entry_rank p" if "p \<in> set (entries c)" for p
    using rank_entry[OF assms(1), of "fst p" "snd p"] that by simp
  moreover have "\<forall>p \<in> set (entries c). entry_rank ?v \<le> entry_rank p"
    using fold_pick_victim_min[of "hd (entries c)" "tl (entries c)"] all by simp
  ultimately show "\<forall>k \<in> fst ` set (entries c). rank c (victim_key c) \<le> rank c k" by auto
qed

lemma victim_is_head:
  assumes "cache_ok c" "entries c \<noteq> []"
  shows "recency c = victim_key c # tl (recency c)"
proof -
  have ok: "smap_ok (entries c)" using assms(1) by (simp add: cache_ok_def)
  obtain k ks where r: "recency c = k # ks" using assms(2) by (metis length_0_conv length_recency list.exhaust)
  have "rank c k \<le> rank c x" if "x \<in> set (recency c)" for x
    using recency_sorted[of c] that r by auto
  moreover have "k \<in> fst ` set (entries c)" using r set_recency[of c] by auto
  ultimately have "rank c k = rank c (victim_key c)"
    using victim_key_min[OF ok assms(2)] unfolding set_recency by (blast intro: order_antisym)
  then show ?thesis using r rank_inj[of c] by (simp add: inj_eq)
qed

lemma recency_evict_one:
  assumes "cache_ok c" "entries c \<noteq> []"
  shows "recency (evict_one c) = tl (recency c)"
proof (rule recency_unique)
  note head = victim_is_head[OF assms]
  have d: "distinct (recency c)" using assms(1) by (rule distinct_recency)
  have ok: "smap_ok (entries c)" using assms(1) by (simp add: cache_ok_def)
  show "distinct (tl (recency c))" using d by (rule distinct_tl)
  show "distinct (map fst (entries (evict_one c)))"
    using ok by (simp add: evict_one_entries[OF assms(2)] smap_ok_distinct)
  have "set (tl (recency c)) = set (recency c) - {victim_key c}"
    using d head by (metis distinct.simps(2) Diff_insert_absorb list.simps(15))
  then show "set (tl (recency c)) = fst ` set (entries (evict_one c))"
    by (simp add: evict_one_entries[OF assms(2)])
  have "rank (evict_one c) x = rank c x" if "x \<in> set (tl (recency c))" for x
  proof -
    have "x \<noteq> victim_key c" using that d head by (metis distinct.simps(2))
    then show ?thesis by (simp add: rank_def last_used_of_def evict_one_entries[OF assms(2)])
  qed
  then have "map (rank (evict_one c)) (tl (recency c)) = map (rank c) (tl (recency c))"
    by (rule map_cong[OF refl])
  then have "map (rank (evict_one c)) (tl (recency c)) = tl (map (rank c) (recency c))"
    by (simp only: map_tl)
  then show "sorted (map (rank (evict_one c)) (tl (recency c)))"
    using recency_sorted[of c] by (simp add: sorted_tl)
qed

lemma evict_one_other [simp]:
  "max_entries (evict_one c) = max_entries c" "access_sequence (evict_one c) = access_sequence c"
  "enabled_nodes (evict_one c) = enabled_nodes c"
  by (simp_all add: evict_one_def Let_def split: list.splits)

lemma cache_ok_evict_one:
  assumes "cache_ok c"
  shows "cache_ok (evict_one c)"
proof (cases "entries c = []")
  case False
  then show ?thesis using assms evict_one_length[OF False]
    by (auto simp: cache_ok_def evict_one_entries list_all_iff) (auto simp: smap_erase_def)
qed (use assms in \<open>simp add: evict_one_def\<close>)

subsection \<open>A use moves to the end\<close>

definition touch :: "string \<Rightarrow> 'm node_result \<Rightarrow> 'm node_cache \<Rightarrow> 'm node_cache" where
  "touch key result c = c\<lparr>access_sequence := access_sequence c + 1,
     entries := smap_put key \<lparr>ce_result = result, ce_last_used = access_sequence c + 1\<rparr> (entries c)\<rparr>"

lemma sequence_step: "(s :: u64) \<noteq> u64_max \<Longrightarrow> s < s + 1"
  by (metis add.commute add_eq_0_iff2 lessI unatSuc word_less_nat_alt)

lemma touch_old_used:
  assumes "cache_ok c" "access_sequence c \<noteq> u64_max" "x \<in> fst ` set (entries c)"
  shows "last_used_of c x < access_sequence c + 1"
proof -
  obtain e where "map_of (entries c) x = Some e"
    using assms(3) by (metis map_of_eq_None_iff not_None_eq)
  moreover from map_of_SomeD[OF this] have "ce_last_used e \<le> access_sequence c"
    using assms(1) by (auto simp: cache_ok_def list_all_iff)
  ultimately show ?thesis using sequence_step[OF assms(2)] by (simp add: last_used_of_def order_le_less_trans)
qed

lemma recency_touch:
  assumes "cache_ok c" "access_sequence c \<noteq> u64_max"
  shows "recency (touch key result c) = filter (\<lambda>x. x \<noteq> key) (recency c) @ [key]"
proof (rule recency_unique)
  let ?c = "touch key result c" and ?ks = "filter (\<lambda>x. x \<noteq> key) (recency c)"
  have ok: "smap_ok (entries c)" using assms(1) by (simp add: cache_ok_def)
  show "distinct (?ks @ [key])" using distinct_recency[OF assms(1)] by simp
  show "distinct (map fst (entries ?c))" using ok by (simp add: touch_def smap_ok_distinct)
  show "set (?ks @ [key]) = fst ` set (entries ?c)" by (auto simp: touch_def)
  have old: "rank ?c x = rank c x" if "x \<noteq> key" for x
    using that by (simp add: rank_def last_used_of_def touch_def)
  have new: "rank ?c key = (access_sequence c + 1, key)" by (simp add: rank_def last_used_of_def touch_def)
  have "map (rank ?c) ?ks = map (rank c) ?ks" using old by (intro map_cong) auto
  then have "sorted (map (rank ?c) ?ks)" using sorted_filter[OF recency_sorted[of c]] by (simp only:)
  moreover have "rank ?c x \<le> rank ?c key" if "x \<in> set ?ks" for x
    using that touch_old_used[OF assms, of x] old new by (auto simp: rank_def less_eq_prod_def)
  ultimately show "sorted (map (rank ?c) (?ks @ [key]))"
    unfolding map_append sorted_append by auto
qed

lemma cache_ok_touch:
  assumes "cache_ok c" "access_sequence c \<noteq> u64_max"
    and "max_entries c = 0 \<or> key \<in> fst ` set (entries c) \<or> length (entries c) < max_entries c"
  shows "cache_ok (touch key result c)"
proof -
  have "ce_last_used e \<le> access_sequence c + 1" if "(k, e) \<in> set (entries c)" for k e
    using that assms(1) sequence_step[OF assms(2)] by (auto simp: cache_ok_def list_all_iff)
  then show ?thesis using assms
    by (auto simp: cache_ok_def touch_def list_all_iff smap_set_put smap_length_put)
qed

lemma store_entry_touch:
  assumes "max_entries c > 0"
  shows "store_entry key result c = touch key result
     (if key \<notin> fst ` set (entries c) \<and> length (entries c) \<ge> max_entries c then evict_one c else c)"
  using assms map_of_eq_None_iff[of "entries c" key]
  by (auto simp: store_entry_def insert_entry_def touch_def split: option.splits)

lemma lookup_entry_hit:
  assumes "max_entries c > 0" "map_of (entries c) key = Some e"
  shows "lookup_entry key c = (Some (ce_result e), (touch key (ce_result e) c)\<lparr>hits := hits c + 1\<rparr>)"
  using assms by (cases e) (simp add: lookup_entry_def touch_def)

lemma recency_hits [simp]: "recency (c\<lparr>hits := h\<rparr>) = recency c" "recency (c\<lparr>misses := h\<rparr>) = recency c"
  by (simp_all add: recency_def rank_def[abs_def] last_used_of_def[abs_def])

lemma cache_ok_hits [simp]: "cache_ok (c\<lparr>hits := h\<rparr>) = cache_ok c" "cache_ok (c\<lparr>misses := h\<rparr>) = cache_ok c"
  by (simp_all add: cache_ok_def)

section \<open>What a lookup can return\<close>

lemma evict_one_empty: "entries c = [] \<Longrightarrow> evict_one c = c"
  by (simp add: evict_one_def)

lemma evict_one_find: "map_of (entries (evict_one c)) k \<in> {None, map_of (entries c) k}"
  by (cases "entries c = []") (auto simp: evict_one_entries evict_one_empty)

lemma store_entry_find:
  "map_option ce_result (map_of (entries (store_entry key result c)) k) \<in>
     (if k = key then {Some result} else {None, map_option ce_result (map_of (entries c) k)})"
  using evict_one_find[of c k] by (auto simp: store_entry_def insert_entry_def split: option.splits)

lemma cache_lookup_result:
  "fst (cache_lookup n h s c) =
     (if is_enabled c n then map_option ce_result (map_of (entries c) (cache_key n h s)) else None)"
  by (simp add: cache_lookup_def lookup_entry_def Let_def split: option.splits)

lemma store_entry_enabled [simp]: "enabled_nodes (store_entry key result c) = enabled_nodes c"
  by (simp add: store_entry_def insert_entry_def split: option.splits)

section \<open>The entry bound\<close>

definition bounded :: "'m node_cache \<Rightarrow> bool" where
  "bounded c \<longleftrightarrow> smap_ok (entries c) \<and> (max_entries c > 0 \<longrightarrow> length (entries c) \<le> max_entries c)"

lemma evict_one_sorted: "smap_ok (entries c) \<Longrightarrow> smap_ok (entries (evict_one c))"
  by (cases "entries c = []") (simp_all add: evict_one_entries evict_one_empty)

lemma evict_until_bounded: "smap_ok (entries c) \<Longrightarrow> bounded (evict_until c)"
proof (induction c rule: evict_until.induct)
  case (1 c)
  show ?case
  proof (cases "max_entries c > 0 \<and> length (entries c) > max_entries c")
    case True
    then show ?thesis using 1 evict_one_sorted[OF "1.prems"] by (subst evict_until.simps) simp
  next
    case False
    then show ?thesis using 1 by (subst evict_until.simps) (auto simp: bounded_def)
  qed
qed

lemma bounded_store_entry:
  assumes "bounded c"
  shows "bounded (store_entry key result c)"
proof (cases "max_entries c > 0")
  case True
  let ?c = "if key \<notin> fst ` set (entries c) \<and> length (entries c) \<ge> max_entries c then evict_one c else c"
  have sorted: "smap_ok (entries ?c)" using assms evict_one_sorted by (auto simp: bounded_def)
  have len: "key \<in> fst ` set (entries ?c) \<and> length (entries ?c) \<le> max_entries c \<or> length (entries ?c) < max_entries c"
  proof (cases "key \<notin> fst ` set (entries c) \<and> length (entries c) \<ge> max_entries c")
    case full: True
    then have "entries c \<noteq> []" using True by auto
    with evict_one_length[OF this] full assms True show ?thesis by (simp add: bounded_def)
  next
    case False
    then show ?thesis using assms True by (auto simp: bounded_def)
  qed
  have "length (smap_put key x (entries ?c)) \<le> max_entries c" for x
    using len smap_length_put[OF sorted, of key x] by (auto split: if_splits)
  moreover have "max_entries ?c = max_entries c" by simp
  ultimately show ?thesis
    using sorted unfolding store_entry_touch[OF True] bounded_def touch_def by simp
next
  case False
  then show ?thesis using assms by (auto simp: bounded_def store_entry_def insert_entry_def split: option.splits)
qed

lemma bounded_lookup_entry: "bounded c \<Longrightarrow> bounded (snd (lookup_entry key c))"
  using map_of_eq_None_iff[of "entries c" key]
  by (auto simp: bounded_def lookup_entry_def Let_def smap_length_put split: option.splits)

datatype 'm cache_op =
    Lookup string string string
  | Store string string string "'m node_result"
  | Clear
  | SetMax nat
  | SetEnabled string bool

fun cache_exec :: "'m cache_op \<Rightarrow> 'm node_cache \<Rightarrow> 'm node_cache" where
  "cache_exec (Lookup n h s) c = snd (cache_lookup n h s c)"
| "cache_exec (Store n h s r) c = cache_store n h s r c"
| "cache_exec Clear c = cache_clear c"
| "cache_exec (SetMax m) c = set_max_entries m c"
| "cache_exec (SetEnabled n b) c = set_enabled n b c"

lemma bounded_exec: "bounded c \<Longrightarrow> bounded (cache_exec op c)"
proof (cases op)
  case (SetMax m)
  assume b: "bounded c"
  have "bounded (evict_until c')" if "map fst (entries c') = map fst (entries c)" for c' :: "'a node_cache"
    using evict_until_bounded[of c'] b that by (simp add: bounded_def)
  then show ?thesis
    using SetMax by (auto simp: set_max_entries_def Let_def case_prod_beta comp_def)
next
  case Clear
  then show ?thesis by (simp add: bounded_def cache_clear_def)
next
  case (SetEnabled n b)
  assume "bounded c"
  then show ?thesis using SetEnabled by (simp add: bounded_def set_enabled_def)
qed (simp_all add: cache_lookup_def cache_store_def bounded_lookup_entry bounded_store_entry)

lemma bounded_fold: "bounded c \<Longrightarrow> bounded (fold cache_exec ops c)"
  by (induction ops arbitrary: c) (simp_all add: bounded_exec)

section \<open>Properties\<close>

text \<open>C38: The cache never exceeds a positive entry bound: after any sequence of lookups, stores, clears,
  enablings and changes of the bound on a new cache, it holds at most as many entries as the bound
  then in force.\<close>

theorem cache_bound_holds:
  "let c = fold cache_exec ops new_cache
   in if max_entries c > 0 then length (entries c) \<le> max_entries c else True"
  using bounded_fold[of new_cache ops] by (simp add: bounded_def new_cache_def Let_def)

text \<open>A cache hit is never another node's, state's or scope's result: after a store, the same
  lookup returns the stored result, and any other lookup returns what it returned before or, when
  the entry was evicted, nothing.\<close>

theorem cache_lookup_after_store:
  assumes "is_enabled c n"
  shows "fst (cache_lookup n h s (cache_store n h s r c)) = Some r \<and>
         ((n', h', s') \<noteq> (n, h, s) \<longrightarrow>
            fst (cache_lookup n' h' s' (cache_store n h s r c)) \<in> {None, fst (cache_lookup n' h' s' c)})"
  using store_entry_find[of "cache_key n h s" r c "cache_key n' h' s'"]
    store_entry_find[of "cache_key n h s" r c "cache_key n h s"] assms
  by (auto simp: cache_lookup_result cache_store_def is_enabled_def cache_key_inj)

definition demo_cache :: "json node_cache" where
  "demo_cache = set_max_entries 2 (set_enabled ''n'' True new_cache)"

definition demo_result :: "json node_result" where
  "demo_result = \<lparr>nr_writes = [], nr_command = None, nr_sends = []\<rparr>"

theorem cache_lookup_after_store_witness:
  "fst (cache_lookup ''n'' ''h1'' [] (cache_store ''n'' ''h1'' [] demo_result demo_cache)) = Some demo_result"
proof -
  have "is_enabled demo_cache ''n''" by code_simp
  from cache_lookup_after_store[OF this] show ?thesis by blast
qed

text \<open>C20: A bounded cache is a least-recently-used cache: a hit moves its key to the end of the recency
  order, a store moves or adds its key at the end and, when the cache is full and the key is new,
  drops the least recently used key, as long as the 64-bit access counter has not run out.\<close>

theorem cache_refines_lru:
  assumes "cache_ok c" and "max_entries c > 0" and "access_sequence c \<noteq> u64_max" and "is_enabled c n"
  shows "let k = cache_key n h s; r = recency c; others = filter (\<lambda>x. x \<noteq> k) r
         in recency (snd (cache_lookup n h s c)) = (if k \<in> set r then others @ [k] else r) \<and>
            recency (cache_store n h s res c) =
              (if k \<notin> set r \<and> length r \<ge> max_entries c then tl r @ [k] else others @ [k]) \<and>
            cache_ok (snd (cache_lookup n h s c)) \<and> cache_ok (cache_store n h s res c)"
proof -
  let ?k = "cache_key n h s" and ?r = "recency c"
  let ?others = "filter (\<lambda>x. x \<noteq> ?k) ?r"
  have lookup: "recency (snd (cache_lookup n h s c)) = (if ?k \<in> set ?r then ?others @ [?k] else ?r) \<and>
      cache_ok (snd (cache_lookup n h s c))"
  proof (cases "map_of (entries c) ?k")
    case None
    then have "?k \<notin> set ?r" by (simp add: map_of_eq_None_iff)
    then show ?thesis using None assms(1,4) by (simp add: cache_lookup_def lookup_entry_def)
  next
    case (Some e)
    then have mem: "?k \<in> fst ` set (entries c)" by (metis map_of_eq_None_iff option.distinct(1))
    then show ?thesis
      using assms(4) lookup_entry_hit[OF assms(2) Some] recency_touch[OF assms(1,3)] cache_ok_touch[OF assms(1,3)]
      by (simp add: cache_lookup_def)
  qed
  have store: "recency (cache_store n h s res c) =
      (if ?k \<notin> set ?r \<and> length ?r \<ge> max_entries c then tl ?r @ [?k] else ?others @ [?k]) \<and>
      cache_ok (cache_store n h s res c)"
  proof (cases "?k \<notin> set ?r \<and> length ?r \<ge> max_entries c")
    case True
    then have ne: "entries c \<noteq> []" using assms(2) by auto
    have ok: "cache_ok (evict_one c)" using assms(1) by (rule cache_ok_evict_one)
    have len: "length (entries (evict_one c)) < max_entries (evict_one c)"
      using evict_one_length[OF ne] assms(1,2) by (simp add: cache_ok_def)
    have "filter (\<lambda>x. x \<noteq> ?k) (tl ?r) = tl ?r"
      using True by (metis (mono_tags, lifting) filter_True list.set_sel(2) list.sel(2))
    then show ?thesis
      using True assms(3,4) recency_touch[OF ok] cache_ok_touch[OF ok] len recency_evict_one[OF assms(1) ne]
      by (simp add: cache_store_def store_entry_touch[OF assms(2)])
  next
    case False
    then have no_evict: "\<not> (?k \<notin> fst ` set (entries c) \<and> length (entries c) \<ge> max_entries c)" by simp
    then have room: "max_entries c = 0 \<or> ?k \<in> fst ` set (entries c) \<or> length (entries c) < max_entries c" by linarith
    have "cache_store n h s res c = touch ?k res c"
      using assms(4) no_evict unfolding cache_store_def store_entry_touch[OF assms(2)] by (simp only: if_False if_True not_True_eq_False)
    then show ?thesis
      using False recency_touch[OF assms(1,3)] cache_ok_touch[OF assms(1,3) room] by (simp only: if_False)
  qed
  from lookup store show ?thesis by (simp add: Let_def)
qed

theorem cache_refines_lru_witness:
  "recency (cache_store ''n'' ''h1'' [] demo_result demo_cache) = [cache_key ''n'' ''h1'' []]"
proof -
  have "entries demo_cache = []" "max_entries demo_cache = 2" "access_sequence demo_cache = 0"
    "is_enabled demo_cache ''n''"
    by (simp_all add: demo_cache_def set_max_entries_def evict_until.simps set_enabled_def new_cache_def is_enabled_def)
  moreover from this have "cache_ok demo_cache" "recency demo_cache = []" by (simp_all add: cache_ok_def recency_def)
  ultimately show ?thesis
    using cache_refines_lru[of demo_cache "''n''" "''h1''" "[]" demo_result] by (simp add: Let_def)
qed

end
