(* ===== verification/NG_Checkpoints.thy ===== *)
theory NG_Checkpoints
  imports NG_Types "HOL-Library.Product_Lexorder"
begin

text \<open>
  Checkpoint storage (\<open>src/src/core/graph_checkpoint.cpp\<close>): the phase names, the envelope that
  carries provider state through stores without a schema for it, and the in-memory store with its
  deduplicated channel values and pending writes. The managed-budget journal of the store is not
  modelled: the operations here are those of a checkpoint without a managed budget. An operation
  that may throw half way returns the store it leaves together with the error.
\<close>

section \<open>Phases\<close>

fun parse_checkpoint_phase :: "string \<Rightarrow> error + checkpoint_phase" where
  "parse_checkpoint_phase s =
     (if s = ''before'' then Inr Before
      else if s = ''after'' then Inr After
      else if s = ''completed'' then Inr Completed
      else if s = ''node_interrupt'' then Inr NodeInterrupt
      else if s = ''updated'' then Inr Updated
      else raise_error InvalidArgument ''parse_checkpoint_phase: unknown phase'')"

lemma parse_phase_roundtrip: "parse_checkpoint_phase (phase_to_string p) = Inr p"
  by (cases p) simp_all

section \<open>The storage envelope\<close>

definition envelope_key :: string where
  "envelope_key = ''_neograph_provider_checkpoint''"

definition envelope_schema :: string where
  "envelope_schema = ''neograph.checkpoint-provider-state/v1''"

definition reserved_state :: "string \<Rightarrow> bool" where
  "reserved_state name \<longleftrightarrow> name = ''channels'' \<or> name = ''global_version''"

definition provider_state :: "json \<Rightarrow> json" where
  "provider_state channel_values =
     (if is_object channel_values
      then fold (\<lambda>(name, v) state. if reserved_state name then state else json_set name v state)
             (json_items channel_values) (JObject [])
      else JObject [])"

definition checkpoint_storage_metadata :: "'n checkpoint \<Rightarrow> error + json" where
  "checkpoint_storage_metadata cp =
     (if cp_native cp \<noteq> None \<or>
         (is_object (cp_channel_values cp) \<and>
          json_value get_bool (cp_channel_values cp) ''native_checkpoint_required'' False)
      then raise_error InvalidArgument ''In-memory native custody requires explicit archive serialization''
      else if is_object (cp_metadata cp) \<and> json_contains (cp_metadata cp) envelope_key
      then raise_error InvalidArgument ''Checkpoint metadata uses a reserved provider custody key''
      else
        let state = provider_state (cp_channel_values cp)
        in if json_empty state then Inr (cp_metadata cp)
           else Inr (JObject [(envelope_key, JObject [(''schema'', JString envelope_schema),
                     (''metadata'', cp_metadata cp), (''state'', state)])]))"

fun put_state :: "(string \<times> json) list \<Rightarrow> json \<Rightarrow> error + json" where
  "put_state [] values = Inr values"
| "put_state ((name, v) # items) values =
     (if reserved_state name
      then raise_error InvalidArgument ''Provider checkpoint envelope cannot replace state channels''
      else put_state items (json_set name v values))"

definition valid_envelope :: "json \<Rightarrow> bool" where
  "valid_envelope e \<longleftrightarrow>
     is_object e \<and> json_value get_string e ''schema'' [] = envelope_schema \<and> json_contains e ''metadata'' \<and>
     json_contains e ''state'' \<and> is_object (json_get e ''state'')"

definition restore_checkpoint_storage_envelope :: "'n checkpoint \<Rightarrow> error + 'n checkpoint" where
  "restore_checkpoint_storage_envelope cp =
     (if \<not> is_object (cp_metadata cp) \<or> \<not> json_contains (cp_metadata cp) envelope_key then Inr cp
      else
        let envelope = json_get (cp_metadata cp) envelope_key
        in if \<not> valid_envelope envelope
           then raise_error InvalidArgument ''Invalid durable provider checkpoint envelope''
           else bind_result (put_state (json_items (json_get envelope ''state'')) (cp_channel_values cp)) (\<lambda>values.
             Inr (cp\<lparr>cp_channel_values := values, cp_metadata := json_get envelope ''metadata''\<rparr>)))"

section \<open>The in-memory store\<close>

record 'm pending_write =
  pw_task_id :: string
  pw_task_path :: string
  pw_node_name :: string
  pw_writes :: json
  pw_command :: json
  pw_sends :: json
  pw_step :: int
  pw_timestamp :: int
  pw_native_result :: "'m node_result option"

type_synonym blob_key = "string \<times> string \<times> u64"

record ('n, 'm) memory_checkpoints =
  by_thread :: "(string \<times> 'n checkpoint list) list"
  by_id :: "(string \<times> 'n checkpoint) list"
  blobs :: "(blob_key \<times> json) list"
  pending :: "((string \<times> string) \<times> 'm pending_write list) list"

definition empty_store :: "('n, 'm) memory_checkpoints" where
  "empty_store = \<lparr>by_thread = [], by_id = [], blobs = [], pending = []\<rparr>"

definition read_version :: "json \<Rightarrow> error + u64" where
  "read_version ch = get_uint64 (\<lambda>_. 0) (json_get ch ''version'')"

definition has_version :: "json \<Rightarrow> bool" where
  "has_version ch \<longleftrightarrow> is_object ch \<and> json_contains ch ''version''"

definition try_emplace :: "blob_key \<Rightarrow> json \<Rightarrow> (blob_key \<times> json) list \<Rightarrow> (blob_key \<times> json) list" where
  "try_emplace k v bs = (case map_of bs k of None \<Rightarrow> smap_put k v bs | Some _ \<Rightarrow> bs)"

fun split_channels ::
    "string \<Rightarrow> (string \<times> json) list \<Rightarrow> json \<Rightarrow> (blob_key \<times> json) list \<Rightarrow> (error + json) \<times> (blob_key \<times> json) list" where
  "split_channels thread [] shell bs = (Inr shell, bs)"
| "split_channels thread ((name, ch) # items) shell bs =
     (if \<not> has_version ch then split_channels thread items (json_set name ch shell) bs
      else case read_version ch of
             Inl e \<Rightarrow> (Inl e, bs)
           | Inr ver \<Rightarrow>
               split_channels thread items (json_set name (JObject [(''version'', JUint ver)]) shell)
                 (if json_contains ch ''value''
                  then try_emplace (thread, name, ver) (json_get ch ''value'') bs else bs))"

definition has_channels :: "json \<Rightarrow> bool" where
  "has_channels values \<longleftrightarrow>
     is_object values \<and> json_contains values ''channels'' \<and> is_object (json_get values ''channels'')"

definition split_blobs ::
    "'n checkpoint \<Rightarrow> (blob_key \<times> json) list \<Rightarrow> (error + 'n checkpoint) \<times> (blob_key \<times> json) list" where
  "split_blobs cp bs =
     (if \<not> has_channels (cp_channel_values cp) then (Inr cp, bs)
      else case split_channels (cp_thread_id cp) (json_items (json_get (cp_channel_values cp) ''channels''))
                  (JObject []) bs of
             (Inl e, bs') \<Rightarrow> (Inl e, bs')
           | (Inr shell, bs') \<Rightarrow>
               (Inr (cp\<lparr>cp_channel_values := json_set ''channels'' shell (cp_channel_values cp)\<rparr>), bs'))"

definition join_channel :: "string \<Rightarrow> (blob_key \<times> json) list \<Rightarrow> string \<Rightarrow> json \<Rightarrow> error + json" where
  "join_channel thread bs name ch =
     (if \<not> has_version ch then Inr ch
      else
        let entry = JObject [(''version'', json_get ch ''version'')]
        in if json_contains ch ''value'' then Inr (json_set ''value'' (json_get ch ''value'') entry)
           else bind_result (read_version ch) (\<lambda>ver.
             Inr (json_set ''value''
                    (case map_of bs (thread, name, ver) of None \<Rightarrow> JNull | Some v \<Rightarrow> v) entry)))"

fun join_channels ::
    "string \<Rightarrow> (blob_key \<times> json) list \<Rightarrow> (string \<times> json) list \<Rightarrow> json \<Rightarrow> error + json" where
  "join_channels thread bs [] full = Inr full"
| "join_channels thread bs ((name, ch) # items) full =
     bind_result (join_channel thread bs name ch) (\<lambda>entry.
       join_channels thread bs items (json_set name entry full))"

definition join_blobs :: "(blob_key \<times> json) list \<Rightarrow> 'n checkpoint \<Rightarrow> error + 'n checkpoint" where
  "join_blobs bs cp =
     (if \<not> has_channels (cp_channel_values cp) then Inr cp
      else bind_result (join_channels (cp_thread_id cp) bs
                          (json_items (json_get (cp_channel_values cp) ''channels'')) (JObject [])) (\<lambda>full.
        Inr (cp\<lparr>cp_channel_values := json_set ''channels'' full (cp_channel_values cp)\<rparr>)))"

text \<open>
  A thread's history is its save order with one entry per id: a re-saved id moves to the newest
  position.
\<close>

definition resave :: "'n checkpoint \<Rightarrow> 'n checkpoint list \<Rightarrow> 'n checkpoint list" where
  "resave shell history =
     (case find (\<lambda>c. cp_id c = cp_id shell) history of
        None \<Rightarrow> history @ [shell]
      | Some _ \<Rightarrow>
          takeWhile (\<lambda>c. cp_id c \<noteq> cp_id shell) history @
          tl (dropWhile (\<lambda>c. cp_id c \<noteq> cp_id shell) history) @ [shell])"

definition thread_history :: "('n, 'm) memory_checkpoints \<Rightarrow> string \<Rightarrow> 'n checkpoint list" where
  "thread_history s t = (case map_of (by_thread s) t of None \<Rightarrow> [] | Some h \<Rightarrow> h)"

definition save_checkpoint ::
    "'n checkpoint \<Rightarrow> ('n, 'm) memory_checkpoints \<Rightarrow> error option \<times> ('n, 'm) memory_checkpoints" where
  "save_checkpoint cp s =
     (let resaved = map_of (by_id s) (cp_id cp) \<noteq> None
      in case split_blobs cp (blobs s) of
           (Inl e, bs) \<Rightarrow> (Some e, s\<lparr>blobs := bs\<rparr>)
         | (Inr shell, bs) \<Rightarrow>
             (None, s\<lparr>blobs := bs, by_id := smap_put (cp_id shell) shell (by_id s),
                      by_thread := smap_put (cp_thread_id shell)
                        (if resaved then resave shell (thread_history s (cp_thread_id shell))
                         else thread_history s (cp_thread_id shell) @ [shell]) (by_thread s)\<rparr>))"

definition load_latest :: "('n, 'm) memory_checkpoints \<Rightarrow> string \<Rightarrow> error + 'n checkpoint option" where
  "load_latest s thread =
     (case map_of (by_thread s) thread of
        None \<Rightarrow> Inr None
      | Some h \<Rightarrow> if h = [] then Inr None else bind_result (join_blobs (blobs s) (last h)) (Inr \<circ> Some))"

definition load_by_id :: "('n, 'm) memory_checkpoints \<Rightarrow> string \<Rightarrow> error + 'n checkpoint option" where
  "load_by_id s i =
     (case map_of (by_id s) i of
        None \<Rightarrow> Inr None
      | Some cp \<Rightarrow> bind_result (join_blobs (blobs s) cp) (Inr \<circ> Some))"

text \<open>A negative limit makes \<open>reserve\<close> throw.\<close>

definition list_checkpoints ::
    "('n, 'm) memory_checkpoints \<Rightarrow> string \<Rightarrow> int \<Rightarrow> error + 'n checkpoint list" where
  "list_checkpoints s thread limit =
     (case map_of (by_thread s) thread of
        None \<Rightarrow> Inr []
      | Some h \<Rightarrow>
          let count = min limit (int (length h))
          in if count < 0 then raise_error LogicError ''vector::reserve''
             else map_result (join_blobs (blobs s)) (take (nat count) (rev h)))"

definition delete_thread :: "string \<Rightarrow> ('n, 'm) memory_checkpoints \<Rightarrow> ('n, 'm) memory_checkpoints" where
  "delete_thread thread s =
     s\<lparr>by_id := fold (\<lambda>cp m. smap_erase (cp_id cp) m) (thread_history s thread) (by_id s),
       by_thread := smap_erase thread (by_thread s),
       blobs := filter (\<lambda>(k, v). fst k \<noteq> thread) (blobs s)\<rparr>"

definition put_writes ::
    "string \<Rightarrow> string \<Rightarrow> 'm pending_write \<Rightarrow> ('n, 'm) memory_checkpoints \<Rightarrow> ('n, 'm) memory_checkpoints" where
  "put_writes thread parent write s =
     s\<lparr>pending := smap_put (thread, parent)
        ((case map_of (pending s) (thread, parent) of None \<Rightarrow> [] | Some ws \<Rightarrow> ws) @ [write]) (pending s)\<rparr>"

definition get_writes :: "('n, 'm) memory_checkpoints \<Rightarrow> string \<Rightarrow> string \<Rightarrow> 'm pending_write list" where
  "get_writes s thread parent =
     (case map_of (pending s) (thread, parent) of None \<Rightarrow> [] | Some ws \<Rightarrow> ws)"

definition clear_writes ::
    "string \<Rightarrow> string \<Rightarrow> ('n, 'm) memory_checkpoints \<Rightarrow> ('n, 'm) memory_checkpoints" where
  "clear_writes thread parent s = s\<lparr>pending := smap_erase (thread, parent) (pending s)\<rparr>"

definition pending_writes_count :: "('n, 'm) memory_checkpoints \<Rightarrow> string \<Rightarrow> string \<Rightarrow> nat" where
  "pending_writes_count s thread parent = length (get_writes s thread parent)"

definition store_count :: "('n, 'm) memory_checkpoints \<Rightarrow> nat" where
  "store_count s = length (by_id s)"

definition blob_count :: "('n, 'm) memory_checkpoints \<Rightarrow> nat" where
  "blob_count s = length (blobs s)"

section \<open>Objects built member by member\<close>

lemma fold_obj_put_append:
  assumes "distinct (map fst m)" "fst ` set m \<inter> fst ` set acc = {}"
  shows "fold (\<lambda>(k, v). json_set k v) m (JObject acc) = JObject (acc @ m)"
  using assms
proof (induction m arbitrary: acc)
  case (Cons p m)
  obtain k v where p: "p = (k, v)" by (cases p)
  have "k \<notin> fst ` set acc" using Cons.prems(2) p by auto
  then have "json_set k v (JObject acc) = JObject (acc @ [(k, v)])" by (simp add: obj_put_append)
  moreover have "fst ` set m \<inter> fst ` set (acc @ [(k, v)]) = {}" using Cons.prems p by auto
  ultimately show ?case using Cons.IH[of "acc @ [(k, v)]"] Cons.prems(1) p by simp
qed simp

lemma map_fst_map_snd: "map fst (map (\<lambda>(n, e). (n, f n e)) m) = map fst m"
  by (simp add: case_prod_beta comp_def)

lemma map_of_map_members: "map_of (map (\<lambda>(n, e). (n, f n e)) m) k = map_option (f k) (map_of m k)"
  by (induction m) auto

subsection \<open>The envelope restores what it kept\<close>

definition storable_values :: "json \<Rightarrow> json" where
  "storable_values values = JObject (filter (\<lambda>(name, v). reserved_state name) (json_items values))"

lemma provider_state_filter:
  assumes "distinct (map fst m)"
  shows "provider_state (JObject m) = JObject (filter (\<lambda>(name, v). \<not> reserved_state name) m)"
proof -
  have "fold (\<lambda>(name, v) state. if reserved_state name then state else json_set name v state) m acc =
      fold (\<lambda>(k, v). json_set k v) (filter (\<lambda>(name, v). \<not> reserved_state name) m) acc" for acc
    by (induction m arbitrary: acc) auto
  moreover have "distinct (map fst (filter (\<lambda>(name, v). \<not> reserved_state name) m))"
    using assms by (rule distinct_map_filter)
  ultimately show ?thesis
    using fold_obj_put_append[of "filter (\<lambda>(name, v). \<not> reserved_state name) m" "[]"]
    by (simp add: provider_state_def)
qed

lemma put_state_free:
  "list_all (\<lambda>(name, v). \<not> reserved_state name) items \<Longrightarrow>
     put_state items values = Inr (fold (\<lambda>(k, v). json_set k v) items values)"
  by (induction items arbitrary: "values") auto

lemma map_of_filter_part: "map_of (filter (\<lambda>(k, v). P k) m) k = (if P k then map_of m k else None)"
  by (induction m) auto

lemma envelope_valid:
  "valid_envelope (JObject [(''schema'', JString envelope_schema), (''metadata'', md), (''state'', JObject st)])"
  by (simp add: valid_envelope_def json_value_def)

subsection \<open>Splitting and joining channel values\<close>

definition versioned :: "json \<Rightarrow> bool" where
  "versioned e \<longleftrightarrow> is_object e \<and> json_contains e ''value'' \<and>
     (case json_get e ''version'' of JUint _ \<Rightarrow> True | _ \<Rightarrow> False)"

definition version_of :: "json \<Rightarrow> u64" where
  "version_of e = (case json_get e ''version'' of JUint v \<Rightarrow> v | _ \<Rightarrow> 0)"

lemma versioned_reads:
  assumes "versioned e"
  shows "has_version e" "read_version e = Inr (version_of e)" "json_contains e ''value''"
    "json_get e ''version'' = JUint (version_of e)"
proof -
  obtain v where v: "json_get e ''version'' = JUint v"
    using assms by (auto simp: versioned_def split: json.splits)
  then have "json_contains e ''version''" by (cases e) (auto split: option.splits)
  with v assms show "has_version e" "read_version e = Inr (version_of e)" "json_contains e ''value''"
    "json_get e ''version'' = JUint (version_of e)"
    by (simp_all add: has_version_def read_version_def version_of_def versioned_def)
qed

definition loaded_value :: "(blob_key \<times> json) list \<Rightarrow> string \<Rightarrow> string \<Rightarrow> json \<Rightarrow> json" where
  "loaded_value bs thread n e =
     (case map_of bs (thread, n, version_of e) of None \<Rightarrow> json_get e ''value'' | Some v \<Rightarrow> v)"

definition shell_entry :: "string \<Rightarrow> json \<Rightarrow> json" where
  "shell_entry n e = JObject [(''version'', JUint (version_of e))]"

definition loaded_entry :: "(blob_key \<times> json) list \<Rightarrow> string \<Rightarrow> string \<Rightarrow> json \<Rightarrow> json" where
  "loaded_entry bs thread n e =
     JObject [(''version'', JUint (version_of e)), (''value'', loaded_value bs thread n e)]"

lemma split_channels_shell:
  assumes "list_all (\<lambda>(n, e). versioned e) chs" "distinct (map fst chs)" "fst ` set chs \<inter> fst ` set acc = {}"
  shows "\<exists>bs'. split_channels thread chs (JObject acc) bs =
           (Inr (JObject (acc @ map (\<lambda>(n, e). (n, shell_entry n e)) chs)), bs') \<and>
         (\<forall>n e. (n, e) \<in> set chs \<longrightarrow> map_of bs' (thread, n, version_of e) = Some (loaded_value bs thread n e)) \<and>
         (\<forall>k. map_of bs k \<noteq> None \<longrightarrow> map_of bs' k = map_of bs k) \<and>
         (\<forall>k. fst (snd k) \<notin> fst ` set chs \<longrightarrow> map_of bs' k = map_of bs k)"
  using assms
proof (induction chs arbitrary: acc bs)
  case (Cons p chs)
  obtain n e where p: "p = (n, e)" by (cases p)
  have ver: "versioned e" using Cons.prems(1) p by simp
  note reads = versioned_reads[OF ver]
  let ?bs = "try_emplace (thread, n, version_of e) (json_get e ''value'') bs"
  have set: "json_set n (shell_entry n e) (JObject acc) = JObject (acc @ [(n, shell_entry n e)])"
    using Cons.prems(3) p by (simp add: obj_put_append)
  have disj: "fst ` set chs \<inter> fst ` set (acc @ [(n, shell_entry n e)]) = {}" using Cons.prems p by auto
  have step: "split_channels thread (p # chs) (JObject acc) bs =
      split_channels thread chs (JObject (acc @ [(n, shell_entry n e)])) ?bs"
    using reads set by (simp add: p shell_entry_def del: json_set.simps)
  have "list_all (\<lambda>(n, e). versioned e) chs" "distinct (map fst chs)" using Cons.prems by auto
  from Cons.IH[OF this disj, of ?bs] obtain bs' where bs':
    "split_channels thread chs (JObject (acc @ [(n, shell_entry n e)])) ?bs =
       (Inr (JObject ((acc @ [(n, shell_entry n e)]) @ map (\<lambda>(n, e). (n, shell_entry n e)) chs)), bs')"
    "\<forall>m f. (m, f) \<in> set chs \<longrightarrow> map_of bs' (thread, m, version_of f) = Some (loaded_value ?bs thread m f)"
    "\<forall>k. map_of ?bs k \<noteq> None \<longrightarrow> map_of bs' k = map_of ?bs k"
    "\<forall>k. fst (snd k) \<notin> fst ` set chs \<longrightarrow> map_of bs' k = map_of ?bs k" by blast
  have other: "map_of ?bs (t, m, v) = map_of bs (t, m, v)" if "m \<noteq> n" for t m v
    using that by (simp add: try_emplace_def split: option.splits)
  have keep: "map_of ?bs k = map_of bs k" if "map_of bs k \<noteq> None" for k
    using that by (auto simp: try_emplace_def split: option.splits)
  have here: "map_of ?bs (thread, n, version_of e) = Some (loaded_value bs thread n e)"
    by (simp add: try_emplace_def loaded_value_def split: option.splits)
  have "map_of bs' (thread, m, version_of f) = Some (loaded_value bs thread m f)" if "(m, f) \<in> set (p # chs)" for m f
  proof (cases "(m, f) \<in> set chs")
    case True
    then have "m \<noteq> n" using Cons.prems(2) p by force
    then show ?thesis using bs'(2) True other[of m thread] by (simp add: loaded_value_def)
  next
    case False
    then show ?thesis using that bs'(3) here p by simp
  qed
  moreover have "map_of bs' k = map_of bs k" if "map_of bs k \<noteq> None" for k
    using bs'(3)[rule_format, of k] keep[OF that] that by simp
  moreover have "map_of bs' k = map_of bs k" if "fst (snd k) \<notin> fst ` set (p # chs)" for k
    using bs'(4)[rule_format, of k] that other[of "fst (snd k)" "fst k" "snd (snd k)"] p by simp
  ultimately show ?case using bs'(1) step by (intro exI[of _ bs']) (simp add: p)
qed simp

lemma join_channels_full:
  assumes "distinct (map fst chs)" "fst ` set chs \<inter> fst ` set acc = {}"
    and "\<forall>n e. (n, e) \<in> set chs \<longrightarrow> map_of bs' (thread, n, version_of e) = Some (loaded_value bs thread n e)"
  shows "join_channels thread bs' (map (\<lambda>(n, e). (n, shell_entry n e)) chs) (JObject acc) =
     Inr (JObject (acc @ map (\<lambda>(n, e). (n, loaded_entry bs thread n e)) chs))"
  using assms
proof (induction chs arbitrary: acc)
  case (Cons p chs)
  obtain n e where p: "p = (n, e)" by (cases p)
  have "join_channel thread bs' n (shell_entry n e) = Inr (loaded_entry bs thread n e)"
    using Cons.prems(3) p
    by (simp add: join_channel_def shell_entry_def has_version_def read_version_def loaded_entry_def)
  moreover have "json_set n (loaded_entry bs thread n e) (JObject acc) = JObject (acc @ [(n, loaded_entry bs thread n e)])"
    using Cons.prems(2) p by (simp add: obj_put_append)
  moreover have "fst ` set chs \<inter> fst ` set (acc @ [(n, loaded_entry bs thread n e)]) = {}" using Cons.prems p by auto
  ultimately show ?case
    using Cons.IH[of "acc @ [(n, loaded_entry bs thread n e)]"] Cons.prems p by (simp del: json_set.simps)
qed simp

definition snapshot_shape :: "json \<Rightarrow> (string \<times> json) list \<Rightarrow> bool" where
  "snapshot_shape values chs \<longleftrightarrow>
     is_object values \<and> json_get values ''channels'' = JObject chs \<and>
     list_all (\<lambda>(n, e). versioned e) chs \<and> distinct (map fst chs)"

lemma snapshot_shape_has_channels: "snapshot_shape values chs \<Longrightarrow> has_channels values"
  by (cases "values") (auto simp: snapshot_shape_def has_channels_def split: option.splits)

definition with_channels :: "json \<Rightarrow> (string \<times> json) list \<Rightarrow> json" where
  "with_channels values chs = json_set ''channels'' (JObject chs) values"

lemma with_channels_reads:
  assumes "is_object values"
  shows "json_get (with_channels values chs) ''channels'' = JObject chs"
    "k \<noteq> ''channels'' \<Longrightarrow> json_get (with_channels values chs) k = json_get values k"
    "is_object (with_channels values chs)" "has_channels (with_channels values chs)"
  using assms by (simp_all add: with_channels_def has_channels_def)

definition stored_shell :: "'n checkpoint \<Rightarrow> (string \<times> json) list \<Rightarrow> 'n checkpoint" where
  "stored_shell cp chs =
     cp\<lparr>cp_channel_values := with_channels (cp_channel_values cp) (map (\<lambda>(n, e). (n, shell_entry n e)) chs)\<rparr>"

lemma split_blobs_shell:
  assumes "snapshot_shape (cp_channel_values cp) chs"
  shows "\<exists>bs'. split_blobs cp bs = (Inr (stored_shell cp chs), bs') \<and>
     (\<forall>n e. (n, e) \<in> set chs \<longrightarrow>
        map_of bs' (cp_thread_id cp, n, version_of e) = Some (loaded_value bs (cp_thread_id cp) n e)) \<and>
     (\<forall>k. map_of bs k \<noteq> None \<longrightarrow> map_of bs' k = map_of bs k)"
proof -
  have "list_all (\<lambda>(n, e). versioned e) chs" "distinct (map fst chs)"
    "json_items (json_get (cp_channel_values cp) ''channels'') = chs"
    using assms by (simp_all add: snapshot_shape_def)
  with split_channels_shell[of chs "[]" "cp_thread_id cp" bs] snapshot_shape_has_channels[OF assms]
  show ?thesis by (auto simp: split_blobs_def stored_shell_def with_channels_def)
qed

lemma join_stored_shell:
  assumes "snapshot_shape (cp_channel_values cp) chs"
    and "\<forall>n e. (n, e) \<in> set chs \<longrightarrow>
      map_of bs' (cp_thread_id cp, n, version_of e) = Some (loaded_value bs (cp_thread_id cp) n e)"
  shows "\<exists>values. join_blobs bs' (stored_shell cp chs) = Inr (cp\<lparr>cp_channel_values := values\<rparr>) \<and> is_object values \<and>
     json_get values ''channels'' = JObject (map (\<lambda>(n, e). (n, loaded_entry bs (cp_thread_id cp) n e)) chs) \<and>
     (\<forall>k. k \<noteq> ''channels'' \<longrightarrow> json_get values k = json_get (cp_channel_values cp) k)"
proof -
  let ?v = "with_channels (cp_channel_values cp) (map (\<lambda>(n, e). (n, shell_entry n e)) chs)"
  have obj: "is_object (cp_channel_values cp)" and d: "distinct (map fst chs)"
    using assms(1) by (simp_all add: snapshot_shape_def)
  have "join_channels (cp_thread_id cp) bs' (map (\<lambda>(n, e). (n, shell_entry n e)) chs) (JObject []) =
      Inr (JObject (map (\<lambda>(n, e). (n, loaded_entry bs (cp_thread_id cp) n e)) chs))"
    using join_channels_full[OF d _ assms(2), of "[]"] by simp
  then have "join_blobs bs' (stored_shell cp chs) = Inr (cp\<lparr>cp_channel_values :=
      with_channels ?v (map (\<lambda>(n, e). (n, loaded_entry bs (cp_thread_id cp) n e)) chs)\<rparr>)"
    using with_channels_reads[OF obj]
    by (simp add: join_blobs_def stored_shell_def) (simp add: with_channels_def)
  then show ?thesis using with_channels_reads(1,2,3)[OF with_channels_reads(3)[OF obj]] with_channels_reads(2)[OF obj]
    by (intro exI[of _ "with_channels ?v (map (\<lambda>(n, e). (n, loaded_entry bs (cp_thread_id cp) n e)) chs)"]) simp
qed

lemma last_resave: "last (resave shell h) = shell"
  by (simp add: resave_def split: option.splits)

lemma save_then_load:
  assumes "snapshot_shape (cp_channel_values cp) chs"
  shows "\<exists>s' values. save_checkpoint cp s = (None, s') \<and>
     load_by_id s' (cp_id cp) = Inr (Some (cp\<lparr>cp_channel_values := values\<rparr>)) \<and>
     load_latest s' (cp_thread_id cp) = Inr (Some (cp\<lparr>cp_channel_values := values\<rparr>)) \<and> is_object values \<and>
     json_get values ''channels'' =
       JObject (map (\<lambda>(n, e). (n, loaded_entry (blobs s) (cp_thread_id cp) n e)) chs) \<and>
     (\<forall>k. k \<noteq> ''channels'' \<longrightarrow> json_get values k = json_get (cp_channel_values cp) k)"
proof -
  from split_blobs_shell[OF assms, of "blobs s"] obtain bs' where bs':
    "split_blobs cp (blobs s) = (Inr (stored_shell cp chs), bs')"
    "\<forall>n e. (n, e) \<in> set chs \<longrightarrow>
        map_of bs' (cp_thread_id cp, n, version_of e) = Some (loaded_value (blobs s) (cp_thread_id cp) n e)" by blast
  from join_stored_shell[OF assms bs'(2)] obtain vals where vals:
    "join_blobs bs' (stored_shell cp chs) = Inr (cp\<lparr>cp_channel_values := vals\<rparr>)" "is_object vals"
    "json_get vals ''channels'' = JObject (map (\<lambda>(n, e). (n, loaded_entry (blobs s) (cp_thread_id cp) n e)) chs)"
    "\<forall>k. k \<noteq> ''channels'' \<longrightarrow> json_get vals k = json_get (cp_channel_values cp) k" by blast
  have ids: "cp_id (stored_shell cp chs) = cp_id cp" "cp_thread_id (stored_shell cp chs) = cp_thread_id cp"
    by (simp_all add: stored_shell_def)
  define h where "h = (if map_of (by_id s) (cp_id cp) \<noteq> None
      then resave (stored_shell cp chs) (thread_history s (cp_thread_id cp))
      else thread_history s (cp_thread_id cp) @ [stored_shell cp chs])"
  have h: "h \<noteq> []" "last h = stored_shell cp chs"
    by (simp_all add: h_def last_resave) (auto simp: resave_def split: option.splits)
  define s' where "s' = s\<lparr>blobs := bs', by_id := smap_put (cp_id cp) (stored_shell cp chs) (by_id s),
      by_thread := smap_put (cp_thread_id cp) h (by_thread s)\<rparr>"
  have "save_checkpoint cp s = (None, s')"
    by (simp add: save_checkpoint_def bs'(1) ids h_def s'_def)
  moreover have "load_by_id s' (cp_id cp) = Inr (Some (cp\<lparr>cp_channel_values := vals\<rparr>))"
    by (simp add: load_by_id_def s'_def vals(1))
  moreover have "load_latest s' (cp_thread_id cp) = Inr (Some (cp\<lparr>cp_channel_values := vals\<rparr>))"
    by (simp add: load_latest_def s'_def vals(1) h)
  ultimately show ?thesis using vals(2-4) by blast
qed

lemma loaded_entry_reads:
  "json_get (loaded_entry bs t n e) ''value'' = loaded_value bs t n e"
  "json_get (loaded_entry bs t n e) ''version'' = JUint (version_of e)"
  by (simp_all add: loaded_entry_def)

section \<open>Properties\<close>

definition stored_checkpoint :: "string \<Rightarrow> json \<Rightarrow> unit checkpoint" where
  "stored_checkpoint i v = \<lparr>cp_id = i, cp_thread_id = ''t'',
     cp_channel_values = JObject [(''channels'', JObject [(''x'', JObject [(''value'', v), (''version'', JUint 1)])]),
       (''global_version'', JUint 1)],
     cp_channel_versions = JNull, cp_parent_id = [], cp_current_node = ''a'', cp_next_nodes = [''b''],
     cp_interrupt_phase = Completed, cp_barrier_state = [], cp_metadata = JNull, cp_native = None,
     cp_step = 0, cp_timestamp = 1, cp_schema_version = CHECKPOINT_SCHEMA_VERSION\<rparr>"

lemma stored_checkpoint_shape:
  "snapshot_shape (cp_channel_values (stored_checkpoint i v)) [(''x'', JObject [(''value'', v), (''version'', JUint 1)])]"
  by (simp add: stored_checkpoint_def snapshot_shape_def versioned_def)

text \<open>C21: A checkpoint read back from the in-memory store is the one saved: as long as the store holds no
  different value under the same thread, channel and version, both loading by id and loading the
  thread's latest checkpoint return it with every field equal and, for every channel, the saved
  value and version, although the values were taken out and shared on the way in.\<close>

theorem checkpoint_store_roundtrip:
  assumes "snapshot_shape (cp_channel_values cp) chs"
    and "\<forall>n e. (n, e) \<in> set chs \<longrightarrow>
           map_of (blobs s) (cp_thread_id cp, n, version_of e) \<in> {None, Some (json_get e ''value'')}"
  shows "\<exists>s' values. save_checkpoint cp s = (None, s') \<and>
           load_by_id s' (cp_id cp) = Inr (Some (cp\<lparr>cp_channel_values := values\<rparr>)) \<and>
           load_latest s' (cp_thread_id cp) = Inr (Some (cp\<lparr>cp_channel_values := values\<rparr>)) \<and>
           json_get values ''channels'' = JObject (map (\<lambda>(n, e). (n, JObject
             [(''version'', json_get e ''version''), (''value'', json_get e ''value'')])) chs) \<and>
           (\<forall>k. k \<noteq> ''channels'' \<longrightarrow> json_get values k = json_get (cp_channel_values cp) k)"
proof -
  have "loaded_entry (blobs s) (cp_thread_id cp) n e =
      JObject [(''version'', json_get e ''version''), (''value'', json_get e ''value'')]" if "(n, e) \<in> set chs" for n e
  proof -
    have "versioned e" using assms(1) that by (auto simp: snapshot_shape_def list_all_iff)
    moreover have "loaded_value (blobs s) (cp_thread_id cp) n e = json_get e ''value''"
      using assms(2) that by (fastforce simp: loaded_value_def split: option.splits)
    ultimately show ?thesis by (simp add: loaded_entry_def versioned_reads)
  qed
  then have "map (\<lambda>(n, e). (n, loaded_entry (blobs s) (cp_thread_id cp) n e)) chs =
      map (\<lambda>(n, e). (n, JObject [(''version'', json_get e ''version''), (''value'', json_get e ''value'')])) chs"
    by auto
  then have same: "JObject (map (\<lambda>(n, e). (n, loaded_entry (blobs s) (cp_thread_id cp) n e)) chs) = JObject (map
      (\<lambda>(n, e). (n, JObject [(''version'', json_get e ''version''), (''value'', json_get e ''value'')])) chs)"
    by (rule arg_cong)
  show ?thesis using save_then_load[OF assms(1), of s] unfolding same by blast
qed

theorem checkpoint_store_roundtrip_witness:
  "\<exists>s' values. save_checkpoint (stored_checkpoint ''c1'' (JUint 7)) (empty_store :: (unit, unit) memory_checkpoints) = (None, s') \<and>
     load_latest s' ''t'' = Inr (Some ((stored_checkpoint ''c1'' (JUint 7))\<lparr>cp_channel_values := values\<rparr>)) \<and>
     json_get (json_get (json_get values ''channels'') ''x'') ''value'' = JUint 7"
proof -
  let ?cp = "stored_checkpoint ''c1'' (JUint 7)" and ?s = "empty_store :: (unit, unit) memory_checkpoints"
  have t: "cp_thread_id ?cp = ''t''" by (simp add: stored_checkpoint_def)
  from checkpoint_store_roundtrip[OF stored_checkpoint_shape[of "''c1''" "JUint 7"], of ?s] t
  obtain s' vals where "save_checkpoint ?cp ?s = (None, s')"
    "load_latest s' ''t'' = Inr (Some (?cp\<lparr>cp_channel_values := vals\<rparr>))"
    "json_get vals ''channels'' = JObject [(''x'', JObject [(''version'', JUint 1), (''value'', JUint 7)])]"
    by (auto simp: empty_store_def)
  then show ?thesis by (intro exI[of _ s'] exI[of _ vals]) simp
qed

text \<open>C39: The first value saved under a thread, channel and version is kept: a checkpoint that carries
  another value under the same key, as a run does that restarts or rewinds the thread's version
  counter, is read back with the value of the earlier run.\<close>

theorem checkpoint_store_first_value_wins:
  assumes "snapshot_shape (cp_channel_values cp) chs" and "(n, e) \<in> set chs"
    and "map_of (blobs s) (cp_thread_id cp, n, version_of e) = Some old" and "old \<noteq> json_get e ''value''"
  shows "\<exists>s' values. save_checkpoint cp s = (None, s') \<and>
           load_by_id s' (cp_id cp) = Inr (Some (cp\<lparr>cp_channel_values := values\<rparr>)) \<and>
           json_get (json_get (json_get values ''channels'') n) ''value'' = old"
proof -
  have "map_of chs n = Some e" using assms(1,2) by (simp add: snapshot_shape_def)
  then have "json_get (JObject (map (\<lambda>(n, e). (n, loaded_entry (blobs s) (cp_thread_id cp) n e)) chs)) n =
      loaded_entry (blobs s) (cp_thread_id cp) n e" by (simp add: map_of_map_members)
  moreover have "loaded_value (blobs s) (cp_thread_id cp) n e = old" by (simp add: loaded_value_def assms(3))
  ultimately have "json_get (json_get (JObject (map (\<lambda>(n, e). (n, loaded_entry (blobs s) (cp_thread_id cp) n e)) chs)) n)
      ''value'' = old" by (simp only: loaded_entry_reads)
  note read = this
  obtain s' vals where "save_checkpoint cp s = (None, s')"
    "load_by_id s' (cp_id cp) = Inr (Some (cp\<lparr>cp_channel_values := vals\<rparr>))"
    "json_get vals ''channels'' =
       JObject (map (\<lambda>(n, e). (n, loaded_entry (blobs s) (cp_thread_id cp) n e)) chs)"
    using save_then_load[OF assms(1), of s] by blast
  then show ?thesis using read by (intro exI[of _ s'] exI[of _ vals]) (simp only: simp_thms)
qed

theorem checkpoint_store_first_value_wins_witness:
  "let s = snd (save_checkpoint (stored_checkpoint ''c1'' (JUint 7)) (empty_store :: (unit, unit) memory_checkpoints))
   in \<exists>s' values. save_checkpoint (stored_checkpoint ''c2'' (JUint 8)) s = (None, s') \<and>
        load_by_id s' ''c2'' = Inr (Some ((stored_checkpoint ''c2'' (JUint 8))\<lparr>cp_channel_values := values\<rparr>)) \<and>
        json_get (json_get (json_get values ''channels'') ''x'') ''value'' = JUint 7"
proof -
  let ?s = "snd (save_checkpoint (stored_checkpoint ''c1'' (JUint 7)) (empty_store :: (unit, unit) memory_checkpoints))"
  let ?e = "JObject [(''value'', JUint 8), (''version'', JUint 1)]"
  have blob: "map_of (blobs ?s) (''t'', ''x'', version_of ?e) = Some (JUint 7)" by code_simp
  have ids: "cp_thread_id (stored_checkpoint ''c2'' (JUint 8)) = ''t''" "cp_id (stored_checkpoint ''c2'' (JUint 8)) = ''c2''"
    by (simp_all add: stored_checkpoint_def)
  from checkpoint_store_first_value_wins[OF stored_checkpoint_shape[of "''c2''" "JUint 8"], of "''x''" ?e ?s "JUint 7"]
    blob ids show ?thesis by (simp add: Let_def)
qed

text \<open>Storing a checkpoint's provider state in the metadata envelope and restoring it gives the same
  checkpoint back: the metadata is the original one and every member of the channel values reads as
  before, when only the channels and the version counter are stored beside it.\<close>

theorem storage_envelope_roundtrip:
  assumes "checkpoint_storage_metadata cp = Inr md" and "cp_channel_values cp = JObject m" and "distinct (map fst m)"
  shows "\<exists>cp'. restore_checkpoint_storage_envelope
             (cp\<lparr>cp_metadata := md, cp_channel_values := storable_values (JObject m)\<rparr>) = Inr cp' \<and>
           cp_metadata cp' = cp_metadata cp \<and>
           (\<forall>k. json_get (cp_channel_values cp') k = json_get (cp_channel_values cp) k)"
proof -
  let ?st = "filter (\<lambda>(name, v). \<not> reserved_state name) m" and ?kept = "filter (\<lambda>(name, v). reserved_state name) m"
  have st: "provider_state (cp_channel_values cp) = JObject ?st"
    using assms(2,3) by (simp add: provider_state_filter)
  have ok: "\<not> (is_object (cp_metadata cp) \<and> json_contains (cp_metadata cp) envelope_key)"
    using assms(1) by (auto simp: checkpoint_storage_metadata_def split: if_splits)
  have md: "md = (if ?st = [] then cp_metadata cp else JObject [(envelope_key, JObject
      [(''schema'', JString envelope_schema), (''metadata'', cp_metadata cp), (''state'', JObject ?st)])])"
    using assms(1) st by (auto simp: checkpoint_storage_metadata_def Let_def json_empty_def split: if_splits)
  show ?thesis
  proof (cases "?st = []")
    case True
    then have "?kept = m" by (simp add: filter_empty_conv filter_id_conv case_prod_beta)
    then show ?thesis
      using True md ok assms(2) by (auto simp: restore_checkpoint_storage_envelope_def storable_values_def)
  next
    case False
    have d: "distinct (map fst ?st)" using assms(3) by (rule distinct_map_filter)
    have disj: "fst ` set ?st \<inter> fst ` set ?kept = {}" by auto
    have free: "list_all (\<lambda>(name, v). \<not> reserved_state name) ?st" by (auto simp: list_all_iff)
    have put: "put_state ?st (JObject ?kept) = Inr (JObject (?kept @ ?st))"
      using put_state_free[OF free] fold_obj_put_append[OF d disj] by simp
    have "json_get (JObject (?kept @ ?st)) k = json_get (JObject m) k" for k
      using map_of_filter_part[of reserved_state m k] map_of_filter_part[of "\<lambda>n. \<not> reserved_state n" m k]
      by (auto simp: map_add_def split: option.splits)
    then show ?thesis
      using False md assms(2) put envelope_valid[of "cp_metadata cp" ?st]
      by (simp add: restore_checkpoint_storage_envelope_def storable_values_def)
  qed
qed

theorem storage_envelope_roundtrip_witness:
  "let cp = (stored_checkpoint ''c'' JNull)\<lparr>cp_channel_values := JObject
         [(''channels'', JObject []), (''provider_loops'', JUint 5)]\<rparr>;
       md = JObject [(envelope_key, JObject [(''schema'', JString envelope_schema), (''metadata'', JNull),
         (''state'', JObject [(''provider_loops'', JUint 5)])])]
   in checkpoint_storage_metadata cp = Inr md \<and>
      (\<exists>cp'. restore_checkpoint_storage_envelope
          (cp\<lparr>cp_metadata := md, cp_channel_values := JObject [(''channels'', JObject [])]\<rparr>) = Inr cp' \<and>
        cp_metadata cp' = JNull \<and> json_get (cp_channel_values cp') ''provider_loops'' = JUint 5)"
proof -
  let ?m = "[(''channels'', JObject []), (''provider_loops'', JUint 5)]"
  let ?cp = "(stored_checkpoint ''c'' JNull)\<lparr>cp_channel_values := JObject ?m\<rparr>"
  let ?md = "JObject [(envelope_key, JObject [(''schema'', JString envelope_schema), (''metadata'', JNull),
      (''state'', JObject [(''provider_loops'', JUint 5)])])]"
  have md: "checkpoint_storage_metadata ?cp = Inr ?md" by code_simp
  have vals: "cp_channel_values ?cp = JObject ?m" by simp
  have kept: "storable_values (JObject ?m) = JObject [(''channels'', JObject [])]" by code_simp
  have "cp_metadata ?cp = JNull" by (simp add: stored_checkpoint_def)
  moreover have "json_get (cp_channel_values ?cp) ''provider_loops'' = JUint 5" by code_simp
  moreover have "distinct (map fst ?m)" by simp
  note storage_envelope_roundtrip[OF md vals this, unfolded kept]
  ultimately show ?thesis using md unfolding Let_def by (auto simp del: json_get.simps)
qed

text \<open>Deleting a thread removes its checkpoints and their values, leaves the history and the values of
  every other thread as they are, and leaves all pending writes in place, those of the deleted
  thread included.\<close>

theorem delete_thread_keeps_pending_writes:
  "thread_history (delete_thread t s) u = (if u = t then [] else thread_history s u) \<and>
   map_of (blobs (delete_thread t s)) (u, n, v) = (if u = t then None else map_of (blobs s) (u, n, v)) \<and>
   get_writes (delete_thread t s) u p = get_writes s u p"
proof -
  have "map_of (filter (\<lambda>(k, v). fst k \<noteq> t) m) (u, n, v) = (if u = t then None else map_of m (u, n, v))"
    for m :: "(blob_key \<times> json) list"
    using map_of_filter_part[of "\<lambda>k. fst k \<noteq> t" m "(u, n, v)"] by simp
  then show ?thesis by (simp add: delete_thread_def thread_history_def get_writes_def)
qed

end
