(* ===== verification/NG_Resume.thy ===== *)
theory NG_Resume
  imports NG_Checkpoints NG_Channels NG_Framing
begin

text \<open>
  The checkpoint coordinator (\<open>src/src/core/graph_coordinator.cpp\<close> with
  \<open>channel_write_codec.h\<close>): what a super-step saves, what a resume loads, and the replay log of
  a step that was interrupted half way. The coordinator is the one without a managed budget lease
  and without a hook runtime. The functions that turn provider messages into JSON belong to the
  SchemaProvider SDK and are the parameter \<open>outcome_codec\<close>; so are the clock and the id source.
\<close>

section \<open>Stored node results\<close>

record 'm outcome_codec =
  oc_observe :: "'m list \<Rightarrow> json"
  oc_encode :: "'m list \<Rightarrow> string \<Rightarrow> error + json"
  oc_decode :: "json \<Rightarrow> string \<Rightarrow> error + 'm list"
  oc_dump :: "json \<Rightarrow> string"

definition codec_context :: "'m outcome_codec \<Rightarrow> string \<Rightarrow> json \<Rightarrow> string" where
  "codec_context oc channel v = ''channel-write:'' @ channel @ oc_dump oc v"

definition serialize_channel_write :: "'m outcome_codec \<Rightarrow> bool \<Rightarrow> 'm channel_write \<Rightarrow> error + json" where
  "serialize_channel_write oc native_custody w =
     (let item = JObject [(''channel'', JString (cw_channel w)), (''value'', cw_value w)];
          item = (if cw_mode w = Overwrite then json_set ''mode'' (JString ''overwrite'') item else item)
      in case cw_native w of
           None \<Rightarrow> Inr item
         | Some ms \<Rightarrow>
             if native_custody then Inr (json_set ''provider_messages_projection'' (oc_observe oc ms) item)
             else bind_result (oc_encode oc ms (codec_context oc (cw_channel w) (cw_value w))) (\<lambda>j.
               Inr (json_set ''provider_messages'' j item)))"

definition serialize_channel_writes :: "'m outcome_codec \<Rightarrow> bool \<Rightarrow> 'm channel_write list \<Rightarrow> error + json" where
  "serialize_channel_writes oc native_custody ws =
     bind_result (map_result (serialize_channel_write oc native_custody) ws) (Inr \<circ> JArray)"

definition deserialize_channel_write :: "'m outcome_codec \<Rightarrow> json \<Rightarrow> error + 'm channel_write" where
  "deserialize_channel_write oc item =
     (let channel = json_value get_string item ''channel'' [];
          v = (if json_contains item ''value'' then json_get item ''value'' else JNull);
          mode = (if json_value get_string item ''mode'' [] = ''overwrite'' then Overwrite else Reduce)
      in if json_contains item ''provider_messages_projection''
         then raise_error InvalidArgument ''Native pending write requires original C++ custody''
         else if json_contains item ''provider_messages''
         then bind_result (oc_decode oc (json_get item ''provider_messages'') (codec_context oc channel v)) (\<lambda>ms.
           Inr \<lparr>cw_channel = channel, cw_value = v, cw_mode = mode, cw_native = Some ms\<rparr>)
         else Inr \<lparr>cw_channel = channel, cw_value = v, cw_mode = mode, cw_native = None\<rparr>)"

definition deserialize_channel_writes :: "'m outcome_codec \<Rightarrow> json \<Rightarrow> error + 'm channel_write list" where
  "deserialize_channel_writes oc j =
     (if \<not> is_array j then Inr [] else map_result (deserialize_channel_write oc) (json_elems j))"

definition serialize_command :: "'m outcome_codec \<Rightarrow> bool \<Rightarrow> 'm command option \<Rightarrow> error + json" where
  "serialize_command oc native_custody cmd =
     (case cmd of
        None \<Rightarrow> Inr JNull
      | Some c \<Rightarrow> bind_result (serialize_channel_writes oc native_custody (updates c)) (\<lambda>us.
          Inr (JObject [(''goto_node'', JString (goto_node c)), (''updates'', us)])))"

definition deserialize_command :: "'m outcome_codec \<Rightarrow> json \<Rightarrow> error + 'm command option" where
  "deserialize_command oc j =
     (if is_null j \<or> \<not> is_object j then Inr None
      else bind_result (deserialize_channel_writes oc (json_value Inr j ''updates'' (JArray []))) (\<lambda>us.
        Inr (Some \<lparr>goto_node = json_value get_string j ''goto_node'' [], updates = us\<rparr>)))"

definition serialize_sends :: "send list \<Rightarrow> json" where
  "serialize_sends sends =
     JArray (map (\<lambda>s. JObject [(''target_node'', JString (target_node s)), (''input'', send_input s)]) sends)"

definition deserialize_sends :: "json \<Rightarrow> send list" where
  "deserialize_sends arr =
     (if \<not> is_array arr then []
      else map (\<lambda>item. \<lparr>target_node = json_value get_string item ''target_node'' [],
                        send_input = (if json_contains item ''input'' then json_get item ''input'' else JNull),
                        source_node = []\<rparr>) (json_elems arr))"

definition make_pending_write ::
    "'m outcome_codec \<Rightarrow> int \<Rightarrow> string \<Rightarrow> string \<Rightarrow> string \<Rightarrow> 'm node_result \<Rightarrow> int \<Rightarrow> bool \<Rightarrow>
     error + 'm pending_write" where
  "make_pending_write oc now task_id task_path node_name nr step native_custody =
     bind_result (serialize_channel_writes oc native_custody (nr_writes nr)) (\<lambda>ws.
     bind_result (serialize_command oc native_custody (nr_command nr)) (\<lambda>cmd.
       Inr \<lparr>pw_task_id = task_id, pw_task_path = task_path, pw_node_name = node_name,
            pw_writes = ws, pw_command = cmd, pw_sends = serialize_sends (nr_sends nr),
            pw_step = step, pw_timestamp = now,
            pw_native_result = (if native_custody then Some nr else None)\<rparr>))"

definition projection_matches :: "'m outcome_codec \<Rightarrow> 'm pending_write \<Rightarrow> 'm node_result \<Rightarrow> error + bool" where
  "projection_matches oc pw original =
     bind_result (serialize_channel_writes oc True (nr_writes original)) (\<lambda>ws.
       if \<not> json_eq (pw_writes pw) ws then Inr False
       else bind_result (serialize_command oc True (nr_command original)) (\<lambda>cmd.
         if \<not> json_eq (pw_command pw) cmd then Inr False
         else Inr (json_eq (pw_sends pw) (serialize_sends (nr_sends original)))))"

definition pending_to_node_result :: "'m outcome_codec \<Rightarrow> 'm pending_write \<Rightarrow> error + 'm node_result" where
  "pending_to_node_result oc pw =
     (case pw_native_result pw of
        Some original \<Rightarrow>
          bind_result (projection_matches oc pw original) (\<lambda>ok.
            if ok then Inr original
            else raise_error InvalidArgument ''Pending write projection differs from original typed custody'')
      | None \<Rightarrow>
          bind_result (deserialize_channel_writes oc (pw_writes pw)) (\<lambda>ws.
          bind_result (deserialize_command oc (pw_command pw)) (\<lambda>cmd.
            Inr \<lparr>nr_writes = ws, nr_command = cmd, nr_sends = deserialize_sends (pw_sends pw)\<rparr>)))"

section \<open>The replay log of a step\<close>

definition checkpoint_resume_phase :: "'n checkpoint \<Rightarrow> error + checkpoint_phase" where
  "checkpoint_resume_phase cp =
     (if cp_interrupt_phase cp \<noteq> Updated then Inr (cp_interrupt_phase cp)
      else
        let admin = json_get (cp_metadata cp) ''_neograph''
        in if \<not> is_object (cp_metadata cp) \<or> \<not> json_contains (cp_metadata cp) ''_neograph'' \<or>
              \<not> is_object admin \<or> \<not> json_contains admin ''admin_resume_phase''
           then Inr (cp_interrupt_phase cp)
           else bind_result (get_string (json_get admin ''admin_resume_phase'')) parse_checkpoint_phase)"

definition resume_start_step :: "'n checkpoint \<Rightarrow> error + int" where
  "resume_start_step cp =
     (if cp_step cp < 0 then raise_error RuntimeError ''Checkpoint step must not be negative''
      else bind_result (checkpoint_resume_phase cp) (\<lambda>phase.
        let advances = phase \<in> {After, Completed, Updated}
        in if cp_step cp \<ge> int_max
           then raise_error RuntimeError ''Checkpoint step exceeds the executable range''
           else Inr (cp_step cp + (if advances then 1 else 0))))"

definition is_external_resume_boundary :: "'n checkpoint \<Rightarrow> string \<Rightarrow> bool" where
  "is_external_resume_boundary cp thread \<longleftrightarrow>
     (if \<not> is_object (cp_metadata cp) \<or> cp_parent_id cp = [] then False
      else if json_contains (cp_metadata cp) ''forked_from''
      then let forked = json_get (cp_metadata cp) ''forked_from'';
               source_thread = json_value get_string forked ''thread_id'' []
           in is_object forked \<and> json_value get_string forked ''checkpoint_id'' [] = cp_parent_id cp \<and>
              source_thread \<noteq> [] \<and> source_thread \<noteq> thread
      else json_contains (cp_metadata cp) ''migrated_from'' \<and>
           (case json_get (cp_metadata cp) ''migrated_from'' of JString s \<Rightarrow> s \<noteq> [] | _ \<Rightarrow> False))"

definition pause_chain_continues :: "'n checkpoint \<Rightarrow> int \<Rightarrow> string \<Rightarrow> error + bool" where
  "pause_chain_continues cur selected_step thread =
     bind_result (checkpoint_resume_phase cur) (\<lambda>phase.
       if phase \<noteq> NodeInterrupt \<or> cp_parent_id cur = [] then Inr False
       else if cp_parent_id cur = cp_id cur
       then raise_error RuntimeError ''Cycle in NodeInterrupt checkpoint ancestry''
       else if is_external_resume_boundary cur thread then Inr False
       else Inr (cp_step cur = selected_step))"

definition require_visitable :: "'n checkpoint \<Rightarrow> string \<Rightarrow> bool \<Rightarrow> string list \<Rightarrow> error + string list" where
  "require_visitable cur thread node_interrupt_resume visited =
     (if cp_id cur \<in> set visited
      then raise_error RuntimeError ''Cycle in NodeInterrupt checkpoint ancestry''
      else if cp_id cur = [] \<or> cp_thread_id cur \<noteq> thread \<or>
              (node_interrupt_resume \<and> cp_schema_version cur \<noteq> CHECKPOINT_SCHEMA_VERSION)
      then raise_error RuntimeError ''Incompatible checkpoint in NodeInterrupt ancestry''
      else Inr (cp_id cur # visited))"

definition require_parent :: "'n checkpoint option \<Rightarrow> 'n checkpoint \<Rightarrow> string \<Rightarrow> int \<Rightarrow> error + 'n checkpoint" where
  "require_parent parent cur thread selected_step =
     (case parent of
        None \<Rightarrow> raise_error RuntimeError ''Missing or incompatible parent checkpoint in NodeInterrupt ancestry''
      | Some p \<Rightarrow>
          if cp_id p \<noteq> cp_parent_id cur \<or> cp_thread_id p \<noteq> thread \<or>
             cp_schema_version p \<noteq> CHECKPOINT_SCHEMA_VERSION
          then raise_error RuntimeError ''Missing or incompatible parent checkpoint in NodeInterrupt ancestry''
          else bind_result (checkpoint_resume_phase p) (\<lambda>phase.
            if phase = NodeInterrupt \<and> cp_step p > selected_step
            then raise_error RuntimeError ''NodeInterrupt ancestry runs backwards across super-steps''
            else Inr p))"

definition take_row ::
    "bool \<Rightarrow> int \<Rightarrow> 'm pending_write \<Rightarrow> string list \<times> 'm pending_write list \<Rightarrow>
     string list \<times> 'm pending_write list" where
  "take_row node_interrupt_resume selected_step row acc =
     (if node_interrupt_resume \<and> pw_step row \<noteq> selected_step then acc
      else if pw_task_id row \<in> set (fst acc) then acc
      else (pw_task_id row # fst acc, snd acc @ [row]))"

definition select_newest_rows ::
    "'m pending_write list \<Rightarrow> bool \<Rightarrow> int \<Rightarrow> string list \<times> 'm pending_write list \<Rightarrow>
     string list \<times> 'm pending_write list" where
  "select_newest_rows rows node_interrupt_resume selected_step acc =
     fold (take_row node_interrupt_resume selected_step) (rev rows) acc"

type_synonym 'n load_op = "string \<Rightarrow> error + 'n checkpoint option"
type_synonym 'm rows_op = "string \<Rightarrow> string \<Rightarrow> error + 'm pending_write list"

partial_function (option) collect_loop ::
    "'n load_op \<Rightarrow> 'm rows_op \<Rightarrow> string \<Rightarrow> bool \<Rightarrow> int \<Rightarrow> 'n checkpoint \<Rightarrow> string list \<Rightarrow>
     string list \<times> 'm pending_write list \<Rightarrow> (error + 'm pending_write list) option" where
  "collect_loop load rows_of thread ni step cur visited acc =
     (case require_visitable cur thread ni visited of
        Inl e \<Rightarrow> Some (Inl e)
      | Inr visited' \<Rightarrow>
          (case rows_of thread (cp_id cur) of
             Inl e \<Rightarrow> Some (Inl e)
           | Inr rows \<Rightarrow>
               (case pause_chain_continues cur step thread of
                  Inl e \<Rightarrow> Some (Inl e)
                | Inr continues \<Rightarrow>
                    if \<not> continues then Some (Inr (snd (select_newest_rows rows ni step acc)))
                    else
                      (case load (cp_parent_id cur) of
                         Inl e \<Rightarrow> Some (Inl e)
                       | Inr parent \<Rightarrow>
                           (case require_parent parent cur thread step of
                              Inl e \<Rightarrow> Some (Inl e)
                            | Inr p \<Rightarrow>
                                collect_loop load rows_of thread ni step p visited'
                                  (select_newest_rows rows ni step acc))))))"

declare collect_loop.simps [code]

definition collect_resume_writes ::
    "'n load_op \<Rightarrow> 'm rows_op \<Rightarrow> string \<Rightarrow> 'n checkpoint \<Rightarrow> (error + 'm pending_write list) option" where
  "collect_resume_writes load rows_of thread cp =
     (case checkpoint_resume_phase cp of
        Inl e \<Rightarrow> Some (Inl e)
      | Inr phase \<Rightarrow> collect_loop load rows_of thread (phase = NodeInterrupt) (cp_step cp) cp [] ([], []))"

definition load_resume_writes ::
    "'m outcome_codec \<Rightarrow> 'n load_op \<Rightarrow> 'm rows_op \<Rightarrow> string \<Rightarrow> 'n checkpoint \<Rightarrow>
     (error + (string \<times> 'm node_result) list) option" where
  "load_resume_writes oc load rows_of thread cp =
     map_option (\<lambda>r. bind_result r (map_result (\<lambda>pw.
       bind_result (pending_to_node_result oc pw) (\<lambda>nr. Inr (pw_task_id pw, nr)))))
       (collect_resume_writes load rows_of thread cp)"

section \<open>The coordinator over the in-memory store\<close>

abbreviation stored_rows :: "('n, 'm) memory_checkpoints \<Rightarrow> 'm rows_op" where
  "stored_rows s \<equiv> (\<lambda>thread parent. Inr (get_writes s thread parent))"

definition resume_pending_writes ::
    "('n, 'm) memory_checkpoints \<Rightarrow> 'n checkpoint \<Rightarrow> (error + 'm pending_write list) option" where
  "resume_pending_writes s cp = collect_resume_writes (load_by_id s) (stored_rows s) (cp_thread_id cp) cp"

definition copy_resume_pending_writes ::
    "'n checkpoint \<Rightarrow> 'n checkpoint \<Rightarrow> ('n, 'm) memory_checkpoints \<Rightarrow>
     (error option \<times> ('n, 'm) memory_checkpoints) option" where
  "copy_resume_pending_writes source target s =
     (if cp_id target = [] \<or> cp_thread_id target = []
      then Some (Some (Error InvalidArgument ''Pending writes need a target checkpoint with an id and a thread''), s)
      else if cp_step target \<noteq> cp_step source
      then Some (Some (Error InvalidArgument ''Pending writes belong to the source checkpoint's super-step''), s)
      else map_option (\<lambda>r. case r of
               Inl e \<Rightarrow> (Some e, s)
             | Inr rows \<Rightarrow> (None, fold (put_writes (cp_thread_id target) (cp_id target)) rows s))
             (resume_pending_writes s source))"

record coordinator =
  co_has_store :: bool
  co_thread_id :: string
  co_native_memory :: bool

definition co_enabled :: "coordinator \<Rightarrow> bool" where
  "co_enabled co \<longleftrightarrow> co_has_store co \<and> co_thread_id co \<noteq> []"

definition records_pending_writes :: "coordinator \<Rightarrow> string \<Rightarrow> bool" where
  "records_pending_writes co parent \<longleftrightarrow> co_enabled co \<and> parent \<noteq> []"

definition with_ephemeral_guard :: "json \<Rightarrow> 'm graph_state \<Rightarrow> error + json" where
  "with_ephemeral_guard metadata st =
     (let guard = ephemeral_checkpoint_guard st;
          md = (if is_null metadata then JObject [] else metadata)
      in if is_null guard then Inr metadata
         else if \<not> is_object md \<or> json_contains md ''_neograph_ephemeral_guard''
         then raise_error RuntimeError ''Checkpoint metadata conflicts with ephemeral channel guard''
         else Inr (json_set ''_neograph_ephemeral_guard'' guard md))"

text \<open>
  \<open>provider st\<close> is the provider part of a snapshot: the members that \<open>checkpoint_snapshot\<close> (or
  \<open>save_provider_history_locked\<close>) adds after the channels, and the typed custody.
\<close>

type_synonym ('n, 'm) provider_part = "'m graph_state \<Rightarrow> (string \<times> json) list \<times> 'n option"

definition capture_state :: "('n, 'm) provider_part \<Rightarrow> 'm graph_state \<Rightarrow> 'n checkpoint \<Rightarrow> 'n checkpoint" where
  "capture_state provider st cp =
     cp\<lparr>cp_channel_values := (case channel_snapshot st True of JObject m \<Rightarrow> JObject (m @ fst (provider st)) | j \<Rightarrow> j),
        cp_native := snd (provider st)\<rparr>"

definition blank_checkpoint :: "'n checkpoint" where
  "blank_checkpoint = \<lparr>cp_id = [], cp_thread_id = [], cp_channel_values = JNull, cp_channel_versions = JNull,
     cp_parent_id = [], cp_current_node = [], cp_next_nodes = [], cp_interrupt_phase = Completed,
     cp_barrier_state = [], cp_metadata = JNull, cp_native = None, cp_step = 0, cp_timestamp = 0,
     cp_schema_version = CHECKPOINT_SCHEMA_VERSION\<rparr>"

record step_boundary =
  sb_current_node :: string
  sb_next_nodes :: "string list"
  sb_step :: int
  sb_parent_id :: string
  sb_barrier_state :: "(string \<times> string list) list"
  sb_metadata :: json

definition boundary_checkpoint ::
    "coordinator \<Rightarrow> ('n, 'm) provider_part \<Rightarrow> string \<Rightarrow> int \<Rightarrow> 'm graph_state \<Rightarrow> checkpoint_phase \<Rightarrow>
     step_boundary \<Rightarrow> error + 'n checkpoint" where
  "boundary_checkpoint co provider new_id now st phase b =
     bind_result (with_ephemeral_guard (sb_metadata b) st) (\<lambda>md.
       Inr ((capture_state provider st
              (blank_checkpoint\<lparr>cp_id := new_id, cp_thread_id := co_thread_id co, cp_metadata := md\<rparr>))
            \<lparr>cp_parent_id := sb_parent_id b, cp_current_node := sb_current_node b,
             cp_next_nodes := sb_next_nodes b, cp_interrupt_phase := phase,
             cp_barrier_state := sb_barrier_state b, cp_step := sb_step b, cp_timestamp := now\<rparr>))"

definition save_super_step ::
    "coordinator \<Rightarrow> ('n, 'm) provider_part \<Rightarrow> string \<Rightarrow> int \<Rightarrow> 'm graph_state \<Rightarrow> checkpoint_phase \<Rightarrow>
     step_boundary \<Rightarrow> ('n, 'm) memory_checkpoints \<Rightarrow> (error + string) \<times> ('n, 'm) memory_checkpoints" where
  "save_super_step co provider new_id now st phase b s =
     (if \<not> co_enabled co then (Inr [], s)
      else case boundary_checkpoint co provider new_id now st phase b of
             Inl e \<Rightarrow> (Inl e, s)
           | Inr cp \<Rightarrow>
               (case save_checkpoint cp s of
                  (Some e, s') \<Rightarrow> (Inl e, s')
                | (None, s') \<Rightarrow> (Inr (cp_id cp), s')))"

definition clear_pending_writes ::
    "coordinator \<Rightarrow> string \<Rightarrow> ('n, 'm) memory_checkpoints \<Rightarrow> ('n, 'm) memory_checkpoints" where
  "clear_pending_writes co parent s =
     (if \<not> co_enabled co \<or> parent = [] then s else clear_writes (co_thread_id co) parent s)"

definition commit_super_step ::
    "coordinator \<Rightarrow> ('n, 'm) provider_part \<Rightarrow> string \<Rightarrow> int \<Rightarrow> 'm graph_state \<Rightarrow> step_boundary \<Rightarrow>
     ('n, 'm) memory_checkpoints \<Rightarrow> (error + 'n checkpoint) \<times> ('n, 'm) memory_checkpoints" where
  "commit_super_step co provider new_id now st b s =
     (if \<not> co_enabled co
      then (raise_error LogicError ''Completed super-step commit requires a checkpoint store and thread id'', s)
      else case boundary_checkpoint co provider new_id now st Completed b of
             Inl e \<Rightarrow> (Inl e, s)
           | Inr cp \<Rightarrow>
               (case save_checkpoint cp s of
                  (Some e, s') \<Rightarrow> (Inl e, s')
                | (None, s') \<Rightarrow> (Inr cp, clear_pending_writes co (sb_parent_id b) s')))"

definition record_pending_write ::
    "coordinator \<Rightarrow> 'm outcome_codec \<Rightarrow> int \<Rightarrow> string \<Rightarrow> string \<Rightarrow> string \<Rightarrow> string \<Rightarrow> 'm node_result \<Rightarrow> int \<Rightarrow>
     ('n, 'm) memory_checkpoints \<Rightarrow> error option \<times> ('n, 'm) memory_checkpoints" where
  "record_pending_write co oc now parent task_id task_path node_name nr step s =
     (if \<not> co_enabled co then (None, s)
      else if parent = [] then (None, s)
      else case make_pending_write oc now task_id task_path node_name nr step (co_native_memory co) of
             Inl e \<Rightarrow> (Some e, s)
           | Inr pw \<Rightarrow> (None, put_writes (co_thread_id co) parent pw s))"

record ('n, 'm) resume_context =
  have_cp :: bool
  rc_checkpoint_id :: string
  rc_channel_values :: json
  rc_native_history :: "'n option"
  rc_metadata :: json
  rc_start_step :: int
  rc_phase :: checkpoint_phase
  rc_current_node :: string
  rc_next_nodes :: "string list"
  rc_replay_results :: "(string \<times> 'm node_result) list"
  rc_barrier_state :: "(string \<times> string list) list"
  rc_source :: "'n checkpoint option"

definition no_resume :: "('n, 'm) resume_context" where
  "no_resume = \<lparr>have_cp = False, rc_checkpoint_id = [], rc_channel_values = JNull, rc_native_history = None,
     rc_metadata = JNull, rc_start_step = 0, rc_phase = Completed, rc_current_node = [], rc_next_nodes = [],
     rc_replay_results = [], rc_barrier_state = [], rc_source = None\<rparr>"

definition context_of ::
    "coordinator \<Rightarrow> 'm outcome_codec \<Rightarrow> ('n, 'm) memory_checkpoints \<Rightarrow> 'n checkpoint \<Rightarrow>
     (error + ('n, 'm) resume_context) option" where
  "context_of co oc s cp =
     (case checkpoint_resume_phase cp of
        Inl e \<Rightarrow> Some (Inl e)
      | Inr phase \<Rightarrow>
          (case resume_start_step cp of
             Inl e \<Rightarrow> Some (Inl e)
           | Inr start \<Rightarrow>
               map_option (\<lambda>r. bind_result r (\<lambda>replay.
                   Inr \<lparr>have_cp = True, rc_checkpoint_id = cp_id cp, rc_channel_values = cp_channel_values cp,
                     rc_native_history = cp_native cp, rc_metadata = cp_metadata cp, rc_start_step = start,
                     rc_phase = phase, rc_current_node = cp_current_node cp, rc_next_nodes = cp_next_nodes cp,
                     rc_replay_results = replay, rc_barrier_state = cp_barrier_state cp, rc_source = Some cp\<rparr>))
                 (load_resume_writes oc (load_by_id s) (stored_rows s) (co_thread_id co) cp)))"

definition load_for_resume ::
    "coordinator \<Rightarrow> 'm outcome_codec \<Rightarrow> ('n, 'm) memory_checkpoints \<Rightarrow>
     (error + ('n, 'm) resume_context) option" where
  "load_for_resume co oc s =
     (if \<not> co_enabled co then Some (Inr no_resume)
      else case load_latest s (co_thread_id co) of
             Inl e \<Rightarrow> Some (Inl e)
           | Inr None \<Rightarrow> Some (Inr no_resume)
           | Inr (Some cp) \<Rightarrow> context_of co oc s cp)"

definition load_for_resume_by_id ::
    "coordinator \<Rightarrow> 'm outcome_codec \<Rightarrow> string \<Rightarrow> ('n, 'm) memory_checkpoints \<Rightarrow>
     (error + ('n, 'm) resume_context) option" where
  "load_for_resume_by_id co oc i s =
     (if \<not> co_enabled co then Some (Inr no_resume)
      else case load_by_id s i of
             Inl e \<Rightarrow> Some (Inl e)
           | Inr None \<Rightarrow> Some (Inr no_resume)
           | Inr (Some cp) \<Rightarrow>
               if cp_id cp \<noteq> i
               then Some (raise_error RuntimeError ''Checkpoint store returned a different checkpoint id'')
               else if cp_thread_id cp \<noteq> co_thread_id co
               then Some (raise_error RuntimeError ''Checkpoint does not belong to resume thread'')
               else if cp_schema_version cp \<noteq> CHECKPOINT_SCHEMA_VERSION
               then Some (raise_error RuntimeError ''Checkpoint schema version is incompatible'')
               else context_of co oc s cp)"

text \<open>The tasks an interrupted step still has to run (\<open>graph_executor.cpp\<close>).\<close>

definition replayed :: "(string \<times> 'm node_result) list \<Rightarrow> string \<Rightarrow> bool" where
  "replayed replay i \<longleftrightarrow> map_of replay i \<noteq> None"

definition replayed_sends :: "int \<Rightarrow> string list \<Rightarrow> (string \<times> 'm node_result) list \<Rightarrow> send list" where
  "replayed_sends step ready replay =
     concat (map (\<lambda>node. case map_of replay (make_static_task_id step node) of
                           None \<Rightarrow> [] | Some nr \<Rightarrow> nr_sends nr) ready)"

definition paused_task_ids ::
    "(json \<Rightarrow> string) \<Rightarrow> int \<Rightarrow> string \<Rightarrow> string list \<Rightarrow> (string \<times> 'm node_result) list \<Rightarrow> string list" where
  "paused_task_ids dump step paused_node ready replay =
     (let ids = filter (\<lambda>i. \<not> replayed replay i) (map (make_static_task_id step) ready)
      in if ids \<noteq> [] then ids
         else if paused_node \<in> set ready then [make_static_task_id step paused_node]
         else filter (\<lambda>i. \<not> replayed replay i)
                (map (\<lambda>(index, snd). make_send_task_id dump step index (target_node snd) (send_input snd))
                   (enumerate 0 (replayed_sends step ready replay))))"

section \<open>Results survive the store\<close>

definition codec_roundtrips :: "'m outcome_codec \<Rightarrow> bool" where
  "codec_roundtrips oc \<longleftrightarrow> (\<forall>ms k j. oc_encode oc ms k = Inr j \<longrightarrow> oc_decode oc j k = Inr ms)"

definition write_wf :: "'m outcome_codec \<Rightarrow> 'm channel_write \<Rightarrow> bool" where
  "write_wf oc w \<longleftrightarrow> json_wf (cw_value w) \<and> (case cw_native w of None \<Rightarrow> True | Some ms \<Rightarrow> json_wf (oc_observe oc ms))"

definition result_wf :: "'m outcome_codec \<Rightarrow> 'm node_result \<Rightarrow> bool" where
  "result_wf oc nr \<longleftrightarrow> list_all (write_wf oc) (nr_writes nr) \<and>
     (case nr_command nr of None \<Rightarrow> True | Some c \<Rightarrow> list_all (write_wf oc) (updates c)) \<and>
     list_all (\<lambda>s. json_wf (send_input s)) (nr_sends nr)"

definition replayed_result :: "bool \<Rightarrow> 'm node_result \<Rightarrow> 'm node_result" where
  "replayed_result native nr =
     (if native then nr else nr\<lparr>nr_sends := map (\<lambda>s. s\<lparr>source_node := []\<rparr>) (nr_sends nr)\<rparr>)"

lemma write_roundtrip:
  assumes "codec_roundtrips oc" "serialize_channel_write oc False w = Inr j"
  shows "deserialize_channel_write oc j = Inr w"
proof (cases "cw_native w")
  case None
  then show ?thesis
    using assms(2) by (cases w; cases "cw_mode w") (auto simp: serialize_channel_write_def deserialize_channel_write_def
        Let_def json_value_def)
next
  case (Some ms)
  then obtain jm where jm: "oc_encode oc ms (codec_context oc (cw_channel w) (cw_value w)) = Inr jm"
    "j = json_set ''provider_messages'' jm (if cw_mode w = Overwrite
        then json_set ''mode'' (JString ''overwrite'') (JObject [(''channel'', JString (cw_channel w)), (''value'', cw_value w)])
        else JObject [(''channel'', JString (cw_channel w)), (''value'', cw_value w)])"
    using assms(2) by (auto simp: serialize_channel_write_def Let_def)
  from jm(1) assms(1) have dec: "oc_decode oc jm (codec_context oc (cw_channel w) (cw_value w)) = Inr ms"
    by (simp add: codec_roundtrips_def)
  show ?thesis
    using dec Some unfolding jm(2)
    by (cases w; cases "cw_mode w") (auto simp: deserialize_channel_write_def Let_def json_value_def)
qed

lemma map_result_roundtrip:
  assumes "map_result f xs = Inr ys" "\<And>x y. x \<in> set xs \<Longrightarrow> f x = Inr y \<Longrightarrow> g y = Inr x"
  shows "map_result g ys = Inr xs"
  using assms by (induction xs arbitrary: ys) auto

lemma writes_roundtrip:
  assumes "codec_roundtrips oc" "serialize_channel_writes oc False ws = Inr j"
  shows "deserialize_channel_writes oc j = Inr ws"
  using assms map_result_roundtrip[of "serialize_channel_write oc False" ws _ "deserialize_channel_write oc"]
    write_roundtrip[OF assms(1)]
  by (auto simp: serialize_channel_writes_def deserialize_channel_writes_def)

lemma command_roundtrip:
  assumes "codec_roundtrips oc" "serialize_command oc False c = Inr j"
  shows "deserialize_command oc j = Inr c"
proof (cases c)
  case (Some cmd)
  with assms(2) obtain us where us: "serialize_channel_writes oc False (updates cmd) = Inr us"
    "j = JObject [(''goto_node'', JString (goto_node cmd)), (''updates'', us)]" by (auto simp: serialize_command_def)
  have "\<not> is_null us" using us(1) by (auto simp: serialize_channel_writes_def)
  with us writes_roundtrip[OF assms(1) us(1)] Some show ?thesis
    by (cases cmd) (simp add: deserialize_command_def json_value_def)
qed (use assms in \<open>simp add: serialize_command_def deserialize_command_def\<close>)

lemma sends_roundtrip: "deserialize_sends (serialize_sends ss) = map (\<lambda>s. s\<lparr>source_node := []\<rparr>) ss"
  by (auto simp: serialize_sends_def deserialize_sends_def json_value_def)

lemma write_wf_json: "write_wf oc w \<Longrightarrow> serialize_channel_write oc True w = Inr j \<Longrightarrow> json_wf j"
  by (cases "cw_native w"; cases "cw_mode w") (auto simp: serialize_channel_write_def Let_def write_wf_def)

lemma writes_wf_json:
  assumes "list_all (write_wf oc) ws" "serialize_channel_writes oc True ws = Inr j"
  shows "json_wf j"
proof -
  from assms(2) obtain js where "map_result (serialize_channel_write oc True) ws = Inr js" "j = JArray js"
    by (auto simp: serialize_channel_writes_def)
  moreover from this(1) assms(1) have "list_all json_wf js"
    by (induction ws arbitrary: js) (auto intro: write_wf_json)
  ultimately show ?thesis by simp
qed

lemma command_wf_json:
  "(case c of None \<Rightarrow> True | Some c \<Rightarrow> list_all (write_wf oc) (updates c)) \<Longrightarrow>
     serialize_command oc True c = Inr j \<Longrightarrow> json_wf j"
  by (cases c) (auto simp: serialize_command_def intro: writes_wf_json)

lemma sends_wf_json: "list_all (\<lambda>s. json_wf (send_input s)) ss \<Longrightarrow> json_wf (serialize_sends ss)"
  by (auto simp: serialize_sends_def list_all_iff)

lemma pending_roundtrip:
  assumes pw: "make_pending_write oc now t p n nr step native = Inr pw"
    and "codec_roundtrips oc" "result_wf oc nr"
  shows "pending_to_node_result oc pw = Inr (replayed_result native nr)"
proof -
  from pw obtain ws cmd where
    ws: "serialize_channel_writes oc native (nr_writes nr) = Inr ws" and
    cmd: "serialize_command oc native (nr_command nr) = Inr cmd" and
    fields: "pw_writes pw = ws" "pw_command pw = cmd" "pw_sends pw = serialize_sends (nr_sends nr)"
      "pw_native_result pw = (if native then Some nr else None)"
    by (auto simp: make_pending_write_def)
  show ?thesis
  proof (cases native)
    case True
    then have "json_wf ws" "json_wf cmd" "json_wf (serialize_sends (nr_sends nr))"
      using assms(3) ws cmd writes_wf_json[of oc "nr_writes nr"] command_wf_json[of oc "nr_command nr"]
        sends_wf_json[of "nr_sends nr"] by (simp_all add: result_wf_def)
    note this[THEN json_eq_refl]
    with True ws cmd fields show ?thesis
      by (simp add: pending_to_node_result_def projection_matches_def replayed_result_def)
  next
    case False
    then show ?thesis
      using ws cmd fields writes_roundtrip[OF assms(2), of "nr_writes nr"] command_roundtrip[OF assms(2), of "nr_command nr"]
      by (cases nr) (simp add: pending_to_node_result_def replayed_result_def sends_roundtrip)
  qed
qed

section \<open>The walk over the pauses of a step\<close>

text \<open>
  What the walk reads of a store: a finite set of checkpoint ids. Under this contract the walk
  ends, because it refuses to visit an id twice.
\<close>

locale finite_checkpoints =
  fixes load :: "'n load_op" and ids :: "string set"
  assumes finite_ids: "finite ids"
    and loaded_id: "load i = Inr (Some cp) \<Longrightarrow> i \<in> ids"
begin

lemma walk_ends:
  assumes "cp_id cur \<in> insert start ids" "set visited \<subseteq> insert start ids"
  shows "\<exists>r. collect_loop load rows_of thread ni step cur visited acc = Some r"
  using assms
proof (induction "card (insert start ids - set visited)" arbitrary: cur visited acc rule: less_induct)
  case less
  show ?case
  proof (cases "require_visitable cur thread ni visited")
    case (Inl e)
    then show ?thesis by (simp add: collect_loop.simps)
  next
    case (Inr visited')
    then have v: "visited' = cp_id cur # visited" "cp_id cur \<notin> set visited"
      by (auto simp: require_visitable_def split: if_splits)
    then have "insert start ids - set visited' \<subset> insert start ids - set visited" using less.prems(1) by auto
    then have smaller: "card (insert start ids - set visited') < card (insert start ids - set visited)"
      by (simp add: finite_ids psubset_card_mono)
    have sub: "set visited' \<subseteq> insert start ids" using v less.prems by auto
    have next_ok: "\<exists>r. collect_loop load rows_of thread ni step p visited' acc' = Some r"
      if "load (cp_parent_id cur) = Inr parent" "require_parent parent cur thread step = Inr p" for p parent acc'
    proof -
      have "parent = Some p" "cp_id p = cp_parent_id cur"
        using that(2) by (auto simp: require_parent_def split: option.splits if_splits)
      then have "cp_id p \<in> insert start ids" using that(1) loaded_id by auto
      from less.hyps[OF smaller this sub] show ?thesis by blast
    qed
    then show ?thesis using Inr
      by (subst collect_loop.simps) (auto split: sum.splits)
  qed
qed

lemma collect_ends: "\<exists>r. collect_resume_writes load rows_of thread cp = Some r"
proof (cases "checkpoint_resume_phase cp")
  case (Inr phase)
  then show ?thesis
    using walk_ends[of cp "cp_id cp" "[]" rows_of thread "phase = NodeInterrupt" "cp_step cp" "([], [])"]
    by (simp add: collect_resume_writes_def)
qed (simp add: collect_resume_writes_def)

end

lemma load_by_id_known: "load_by_id s i = Inr (Some cp) \<Longrightarrow> i \<in> fst ` set (by_id s)"
  by (auto simp: load_by_id_def split: option.splits dest: map_of_SomeD intro: rev_image_eqI)

interpretation memory_walk: finite_checkpoints "load_by_id s" "fst ` set (by_id s)" for s
  by unfold_locales (auto dest: load_by_id_known)

text \<open>The checkpoints a walk reads, nearest first.\<close>

inductive pause_chain :: "'n load_op \<Rightarrow> string \<Rightarrow> int \<Rightarrow> 'n checkpoint \<Rightarrow> 'n checkpoint list \<Rightarrow> bool"
  for load thread step where
    chain_end: "pause_chain_continues cp step thread = Inr False \<Longrightarrow> pause_chain load thread step cp [cp]"
  | chain_step: "pause_chain_continues cp step thread = Inr True \<Longrightarrow> load (cp_parent_id cp) = Inr (Some p) \<Longrightarrow>
      require_parent (Some p) cp thread step = Inr p \<Longrightarrow> pause_chain load thread step p ps \<Longrightarrow>
      pause_chain load thread step cp (cp # ps)"

definition offered_rows :: "'m rows_op \<Rightarrow> string \<Rightarrow> bool \<Rightarrow> int \<Rightarrow> 'n checkpoint \<Rightarrow> 'm pending_write list" where
  "offered_rows rows_of thread ni step cp =
     (case rows_of thread (cp_id cp) of Inl e \<Rightarrow> []
      | Inr rows \<Rightarrow> filter (\<lambda>r. ni \<longrightarrow> pw_step r = step) (rev rows))"

lemma offered_stored_rows:
  "offered_rows (stored_rows s) thread ni step =
     (\<lambda>c. filter (\<lambda>r. ni \<longrightarrow> pw_step r = step) (rev (get_writes s thread (cp_id c))))"
  by (simp add: fun_eq_iff offered_rows_def)

text \<open>The first row of every task.\<close>

definition by_task :: "'m pending_write list \<Rightarrow> string \<Rightarrow> 'm pending_write option" where
  "by_task rows t = find (\<lambda>r. pw_task_id r = t) rows"

lemma by_task_append: "by_task (xs @ ys) t = (case by_task xs t of None \<Rightarrow> by_task ys t | Some r \<Rightarrow> Some r)"
  by (induction xs) (auto simp: by_task_def)

lemma by_task_None: "by_task xs t = None \<longleftrightarrow> t \<notin> pw_task_id ` set xs"
  by (auto simp: by_task_def find_None_iff)

lemma by_task_single: "by_task [r] t = (if pw_task_id r = t then Some r else None)"
  by (simp add: by_task_def)

definition selection_ok :: "string list \<times> 'm pending_write list \<Rightarrow> bool" where
  "selection_ok acc \<longleftrightarrow> set (fst acc) = pw_task_id ` set (snd acc) \<and> distinct (map pw_task_id (snd acc))"

lemma take_row_skip: "ni \<and> pw_step r \<noteq> step \<Longrightarrow> take_row ni step r acc = acc"
  by (simp add: take_row_def)

lemma take_row_by_task:
  assumes "selection_ok acc" "ni \<longrightarrow> pw_step r = step"
  shows "selection_ok (take_row ni step r acc)"
    "by_task (snd (take_row ni step r acc)) t = by_task (snd acc @ [r]) t"
proof -
  have "pw_task_id r \<in> set (fst acc) \<longleftrightarrow> by_task (snd acc) (pw_task_id r) \<noteq> None"
    using assms(1) by (simp add: selection_ok_def by_task_None)
  then show "by_task (snd (take_row ni step r acc)) t = by_task (snd acc @ [r]) t"
    using assms(2) by (auto simp: take_row_def by_task_append by_task_single split: option.splits)
  show "selection_ok (take_row ni step r acc)"
    using assms by (auto simp: selection_ok_def take_row_def)
qed

lemma take_rows_by_task:
  assumes "selection_ok acc"
  shows "selection_ok (fold (take_row ni step) rows acc) \<and>
    by_task (snd (fold (take_row ni step) rows acc)) t =
      by_task (snd acc @ filter (\<lambda>r. ni \<longrightarrow> pw_step r = step) rows) t"
  using assms
proof (induction rows arbitrary: acc)
  case (Cons r rows)
  show ?case
  proof (cases "ni \<longrightarrow> pw_step r = step")
    case True
    from take_row_by_task[OF Cons.prems True] Cons.IH[OF take_row_by_task(1)[OF Cons.prems True]] True
    show ?thesis
      using by_task_append[of "[r]" "filter (\<lambda>r. ni \<longrightarrow> pw_step r = step) rows" t]
      by (simp add: by_task_append split: option.splits)
  next
    case False
    then show ?thesis using Cons take_row_skip[of ni r step acc] by auto
  qed
qed simp

lemma select_newest_by_task:
  assumes "selection_ok acc" "rows_of thread (cp_id cp) = Inr rows"
  shows "selection_ok (select_newest_rows rows ni step acc)"
    "by_task (snd (select_newest_rows rows ni step acc)) t =
       by_task (snd acc @ offered_rows rows_of thread ni step cp) t"
  using take_rows_by_task[OF assms(1), of ni step "rev rows"] assms(2)
  by (auto simp: select_newest_rows_def offered_rows_def)

definition walk_result ::
    "'n load_op \<Rightarrow> 'm rows_op \<Rightarrow> string \<Rightarrow> bool \<Rightarrow> int \<Rightarrow> 'n checkpoint \<Rightarrow> string list \<Rightarrow>
     string list \<times> 'm pending_write list \<Rightarrow> error + 'm pending_write list \<Rightarrow> bool" where
  "walk_result load rows_of thread ni step cur visited acc r \<longleftrightarrow>
     (\<forall>rows. r = Inr rows \<and> selection_ok acc \<longrightarrow>
        (\<exists>chain. pause_chain load thread step cur chain \<and> distinct (map cp_id chain) \<and>
           set (map cp_id chain) \<inter> set visited = {} \<and> distinct (map pw_task_id rows) \<and>
           (\<forall>t. by_task rows t = by_task (snd acc @ concat (map (offered_rows rows_of thread ni step) chain)) t)))"

lemma walk_result_last:
  assumes "require_visitable cur thread ni visited = Inr visited'" "rows_of thread (cp_id cur) = Inr rows"
    "pause_chain_continues cur step thread = Inr False"
  shows "walk_result load rows_of thread ni step cur visited acc (Inr (snd (select_newest_rows rows ni step acc)))"
proof -
  have "cp_id cur \<notin> set visited" using assms(1) by (auto simp: require_visitable_def split: if_splits)
  then show ?thesis
    using chain_end[OF assms(3), of load] select_newest_by_task[of acc rows_of thread cur rows ni step] assms(2)
    unfolding walk_result_def
    by (auto simp: selection_ok_def intro!: exI[of _ "[cur]"])
qed

lemma walk_result_next:
  assumes "require_visitable cur thread ni visited = Inr visited'" "rows_of thread (cp_id cur) = Inr rows"
    "pause_chain_continues cur step thread = Inr True" "load (cp_parent_id cur) = Inr parent"
    "require_parent parent cur thread step = Inr p"
    "walk_result load rows_of thread ni step p visited' (select_newest_rows rows ni step acc) r"
  shows "walk_result load rows_of thread ni step cur visited acc r"
  unfolding walk_result_def
proof (intro allI impI, elim conjE)
  fix out assume r: "r = Inr out" and ok: "selection_ok acc"
  have v: "visited' = cp_id cur # visited" "cp_id cur \<notin> set visited"
    using assms(1) by (auto simp: require_visitable_def split: if_splits)
  have p: "parent = Some p" using assms(5) by (auto simp: require_parent_def split: option.splits if_splits)
  note sel = select_newest_by_task[OF ok, of rows_of thread cur rows, OF assms(2), of ni step]
  from assms(6) r sel(1) obtain chain where chain: "pause_chain load thread step p chain" "distinct (map cp_id chain)"
    "set (map cp_id chain) \<inter> set visited' = {}" "distinct (map pw_task_id out)"
    "\<forall>t. by_task out t = by_task (snd (select_newest_rows rows ni step acc) @
        concat (map (offered_rows rows_of thread ni step) chain)) t" by (auto simp: walk_result_def)
  have "by_task out t = by_task (snd acc @ concat (map (offered_rows rows_of thread ni step) (cur # chain))) t" for t
    using chain(5)[rule_format, of t] sel(2)[of t] by (simp add: by_task_append split: option.splits)
  moreover have "pause_chain load thread step cur (cur # chain)"
    using chain_step[OF assms(3) _ _ chain(1)] assms(4,5) p by simp
  ultimately show "\<exists>chain. pause_chain load thread step cur chain \<and> distinct (map cp_id chain) \<and>
      set (map cp_id chain) \<inter> set visited = {} \<and> distinct (map pw_task_id out) \<and>
      (\<forall>t. by_task out t = by_task (snd acc @ concat (map (offered_rows rows_of thread ni step) chain)) t)"
    using chain(2,3,4) v by (intro exI[of _ "cur # chain"]) auto
qed

lemma walk_result_error:
  "walk_result load rows_of thread ni step cur visited acc (Inl e)"
  "Inl e = r \<Longrightarrow> walk_result load rows_of thread ni step cur visited acc r"
  by (auto simp: walk_result_def)

lemma collect_loop_result:
  assumes "collect_loop load rows_of thread ni step cur visited acc = Some r"
  shows "walk_result load rows_of thread ni step cur visited acc r"
proof (rule collect_loop.raw_induct[where P = walk_result, OF _ assms], goal_cases)
  case (1 walk load rows_of thread ni step cur visited acc r)
  from 1(2) show ?case
    by (auto split: sum.splits if_splits intro: walk_result_error walk_result_last walk_result_next dest: 1(1))
qed

lemma collect_resume_result:
  assumes "collect_resume_writes load rows_of thread cp = Some (Inr rows)"
  shows "\<exists>phase chain. checkpoint_resume_phase cp = Inr phase \<and> pause_chain load thread (cp_step cp) cp chain \<and>
     distinct (map cp_id chain) \<and> distinct (map pw_task_id rows) \<and>
     (\<forall>t. by_task rows t =
        by_task (concat (map (offered_rows rows_of thread (phase = NodeInterrupt) (cp_step cp)) chain)) t)"
proof (cases "checkpoint_resume_phase cp")
  case (Inr phase)
  then have "walk_result load rows_of thread (phase = NodeInterrupt) (cp_step cp) cp [] ([], []) (Inr rows)"
    using assms by (simp add: collect_resume_writes_def collect_loop_result)
  with Inr show ?thesis by (auto simp: walk_result_def selection_ok_def)
qed (use assms in \<open>simp add: collect_resume_writes_def\<close>)

section \<open>Recording a result changes the replay of its task only\<close>

lemma pause_chain_head: "pause_chain load thread step cp chain \<Longrightarrow> \<exists>ps. chain = cp # ps"
  by (auto elim: pause_chain.cases)

lemma pause_chain_unique:
  "pause_chain load thread step cp chain \<Longrightarrow> pause_chain load thread step cp chain' \<Longrightarrow> chain' = chain"
proof (induction arbitrary: chain' rule: pause_chain.induct)
  case (chain_end cp)
  from chain_end(2,1) show ?case by (cases rule: pause_chain.cases) simp_all
next
  case (chain_step cp p ps)
  from chain_step.prems show ?case
  proof (cases rule: pause_chain.cases)
    case chain_end
    then show ?thesis using chain_step.hyps(1) by simp
  next
    case (chain_step q qs)
    then have "q = p" using chain_step.hyps(2) by simp
    then show ?thesis using chain_step chain_step.IH[of qs] by simp
  qed
qed

lemma walk_ignores_rows:
  assumes "collect_loop load rows_of thread ni step cur visited acc = Some r" "r = Inr rows"
  shows "\<exists>rows'. collect_loop load (stored_rows s) thread ni step cur visited acc' = Some (Inr rows')"
proof -
  have "\<forall>rows acc'. r = Inr rows \<longrightarrow>
      (\<exists>rows'. collect_loop load (stored_rows s) thread ni step cur visited acc' = Some (Inr rows'))"
  proof (rule collect_loop.raw_induct[where P = "\<lambda>load rows_of thread ni step cur visited acc r. \<forall>rows acc'.
      r = Inr rows \<longrightarrow> (\<exists>rows'. collect_loop load (stored_rows s) thread ni step cur visited acc' = Some (Inr rows'))",
      OF _ assms(1)], goal_cases)
    case (1 walk load rows_of thread ni step cur visited acc r)
    show ?case
    proof (intro allI impI)
      fix out acc' assume r: "r = Inr out"
      show "\<exists>rows'. collect_loop load (stored_rows s) thread ni step cur visited acc' = Some (Inr rows')"
      proof (cases "pause_chain_continues cur step thread = Inr True")
        case False
        then show ?thesis using 1(2) r by (subst collect_loop.simps) (auto split: sum.splits if_splits)
      next
        case True
        with 1(2) r obtain visited' rows parent p where step:
          "require_visitable cur thread ni visited = Inr visited'" "load (cp_parent_id cur) = Inr parent"
          "require_parent parent cur thread step = Inr p"
          "walk load rows_of thread ni step p visited' (select_newest_rows rows ni step acc) = Some (Inr out)"
          by (auto split: sum.splits if_splits)
        from 1(1)[OF step(4), rule_format, OF refl, of "select_newest_rows (get_writes s thread (cp_id cur)) ni step acc'"]
          True step(1-3) show ?thesis by (subst collect_loop.simps) simp
      qed
    qed
  qed
  with assms(2) show ?thesis by blast
qed

lemma collect_ignores_rows:
  assumes "collect_resume_writes load rows_of thread cp = Some (Inr rows)"
  shows "\<exists>rows'. collect_resume_writes load (stored_rows s) thread cp = Some (Inr rows')"
proof (cases "checkpoint_resume_phase cp")
  case (Inr phase)
  with assms have "collect_loop load rows_of thread (phase = NodeInterrupt) (cp_step cp) cp [] ([], []) = Some (Inr rows)"
    by (simp add: collect_resume_writes_def)
  from walk_ignores_rows[OF this refl, of s "([], [])"] Inr show ?thesis by (simp add: collect_resume_writes_def)
qed (use assms in \<open>simp add: collect_resume_writes_def\<close>)

lemma collect_visits_checkpoint:
  assumes "collect_resume_writes load rows_of thread cp = Some (Inr rows)"
  shows "cp_id cp \<noteq> []" "cp_thread_id cp = thread"
  using assms
  by (auto simp: collect_resume_writes_def collect_loop.simps[of load rows_of thread _ _ cp] require_visitable_def
      raise_error_def split: sum.splits if_splits)

lemma put_writes_fields:
  "by_id (put_writes t p w s) = by_id s" "by_thread (put_writes t p w s) = by_thread s"
  "blobs (put_writes t p w s) = blobs s"
  by (simp_all add: put_writes_def)

lemma put_writes_load [simp]:
  "load_by_id (put_writes t p w s) = load_by_id s" "load_latest (put_writes t p w s) = load_latest s"
  using put_writes_fields[of t p w s] by (simp_all only: fun_eq_iff load_by_id_def load_latest_def simp_thms)

lemma put_writes_get:
  "get_writes (put_writes t p w s) u q = (if (u, q) = (t, p) then get_writes s t p @ [w] else get_writes s u q)"
  by (simp add: put_writes_def get_writes_def)

lemma put_writes_collect:
  assumes "collect_resume_writes (load_by_id s) (stored_rows s) thread cp = Some (Inr rows)"
    and "checkpoint_resume_phase cp = Inr NodeInterrupt \<longrightarrow> pw_step pw = cp_step cp"
  shows "\<exists>rows'. collect_resume_writes (load_by_id s) (stored_rows (put_writes thread (cp_id cp) pw s)) thread cp =
            Some (Inr rows') \<and> distinct (map pw_task_id rows') \<and>
          (\<forall>t. by_task rows' t = (if t = pw_task_id pw then Some pw else by_task rows t))"
proof -
  let ?s = "put_writes thread (cp_id cp) pw s"
  from collect_ignores_rows[OF assms(1), of ?s] obtain rows' where
    rows': "collect_resume_writes (load_by_id s) (stored_rows ?s) thread cp = Some (Inr rows')" by blast
  from collect_resume_result[OF assms(1)] obtain phase chain where
    chain: "checkpoint_resume_phase cp = Inr phase" "pause_chain (load_by_id s) thread (cp_step cp) cp chain"
      "distinct (map cp_id chain)"
      "\<forall>t. by_task rows t = by_task (concat (map (offered_rows (stored_rows s) thread (phase = NodeInterrupt) (cp_step cp)) chain)) t"
    by blast
  from collect_resume_result[OF rows'] pause_chain_unique[OF chain(2)] chain(1) have
    new: "distinct (map pw_task_id rows')"
      "\<forall>t. by_task rows' t = by_task (concat (map (offered_rows (stored_rows ?s) thread (phase = NodeInterrupt) (cp_step cp)) chain)) t"
    by auto
  obtain ps where ps: "chain = cp # ps" using pause_chain_head[OF chain(2)] by blast
  have here: "offered_rows (stored_rows ?s) thread (phase = NodeInterrupt) (cp_step cp) cp =
      pw # offered_rows (stored_rows s) thread (phase = NodeInterrupt) (cp_step cp) cp"
    using assms(2) chain(1) by (simp add: offered_rows_def put_writes_get)
  have "offered_rows (stored_rows ?s) thread (phase = NodeInterrupt) (cp_step cp) c =
      offered_rows (stored_rows s) thread (phase = NodeInterrupt) (cp_step cp) c" if "c \<in> set ps" for c
  proof -
    have "cp_id c \<in> cp_id ` set ps" using that by (rule imageI)
    then have "cp_id c \<noteq> cp_id cp" using chain(3) ps by auto
    then show ?thesis by (simp add: offered_rows_def put_writes_get)
  qed
  then have "map (offered_rows (stored_rows ?s) thread (phase = NodeInterrupt) (cp_step cp)) ps =
      map (offered_rows (stored_rows s) thread (phase = NodeInterrupt) (cp_step cp)) ps" by simp
  note rest = this[THEN arg_cong[where f = concat]]
  have "concat (map (offered_rows (stored_rows ?s) thread (phase = NodeInterrupt) (cp_step cp)) chain) =
      [pw] @ concat (map (offered_rows (stored_rows s) thread (phase = NodeInterrupt) (cp_step cp)) chain)"
    using here rest unfolding ps by (simp only: list.map concat.simps append_Cons append_Nil)
  then have "by_task rows' t = (if t = pw_task_id pw then Some pw else by_task rows t)" for t
    using chain(4) new(2) by (simp add: by_task_append by_task_single del: append.simps split: if_splits)
  with rows' new(1) show ?thesis by blast
qed

abbreviation decode_row :: "'m outcome_codec \<Rightarrow> 'm pending_write \<Rightarrow> error + string \<times> 'm node_result" where
  "decode_row oc pw \<equiv> bind_result (pending_to_node_result oc pw) (\<lambda>nr. Inr (pw_task_id pw, nr))"

lemma decode_rows_lookup:
  "map_result (decode_row oc) rows = Inr replay \<Longrightarrow>
     map_of replay t = Option.bind (by_task rows t) (\<lambda>pw. case pending_to_node_result oc pw of Inl e \<Rightarrow> None | Inr nr \<Rightarrow> Some nr)"
  by (induction rows arbitrary: replay) (auto simp: by_task_def)

lemma decode_rows_ok:
  "(\<exists>replay. map_result (decode_row oc) rows = Inr replay) \<longleftrightarrow>
     list_all (\<lambda>pw. \<exists>nr. pending_to_node_result oc pw = Inr nr) rows"
  by (induction rows) auto

lemma by_task_mem: "by_task rows t = Some pw \<Longrightarrow> pw \<in> set rows"
  by (auto simp: by_task_def find_Some_iff)

lemma mem_by_task: "pw \<in> set rows \<Longrightarrow> distinct (map pw_task_id rows) \<Longrightarrow> by_task rows (pw_task_id pw) = Some pw"
  by (induction rows) (auto simp: by_task_def)

lemma put_writes_replay:
  assumes "load_resume_writes oc (load_by_id s) (stored_rows s) thread cp = Some (Inr replay)"
    and "pending_to_node_result oc pw = Inr nr"
    and "checkpoint_resume_phase cp = Inr NodeInterrupt \<longrightarrow> pw_step pw = cp_step cp"
  shows "\<exists>replay'. load_resume_writes oc (load_by_id s) (stored_rows (put_writes thread (cp_id cp) pw s)) thread cp =
            Some (Inr replay') \<and> map_of replay' = (map_of replay)(pw_task_id pw \<mapsto> nr)"
proof -
  from assms(1) obtain rows where rows: "collect_resume_writes (load_by_id s) (stored_rows s) thread cp = Some (Inr rows)"
    "map_result (decode_row oc) rows = Inr replay" by (auto simp: load_resume_writes_def)
  from put_writes_collect[OF rows(1) assms(3)] obtain rows' where
    rows': "collect_resume_writes (load_by_id s) (stored_rows (put_writes thread (cp_id cp) pw s)) thread cp = Some (Inr rows')"
      "distinct (map pw_task_id rows')" and
    new: "\<And>t. by_task rows' t = (if t = pw_task_id pw then Some pw else by_task rows t)" by blast
  have "\<exists>nr. pending_to_node_result oc p = Inr nr" if "p \<in> set rows'" for p
  proof -
    have at: "(if pw_task_id p = pw_task_id pw then Some pw else by_task rows (pw_task_id p)) = Some p"
      using mem_by_task[OF that rows'(2)] unfolding new .
    have "p = pw \<or> p \<in> set rows"
    proof (cases "pw_task_id p = pw_task_id pw")
      case True
      with at show ?thesis by (simp only: if_True option.inject) simp
    next
      case False
      with at have "by_task rows (pw_task_id p) = Some p" by (simp only: if_False)
      then show ?thesis by (blast dest: by_task_mem)
    qed
    then show ?thesis using assms(2) decode_rows_ok[of oc rows] rows(2) by (auto simp: list_all_iff)
  qed
  then obtain replay' where replay': "map_result (decode_row oc) rows' = Inr replay'"
    using decode_rows_ok[of oc rows'] by (auto simp: list_all_iff)
  have "map_of replay' = (map_of replay)(pw_task_id pw \<mapsto> nr)"
    using assms(2) by (simp add: fun_eq_iff decode_rows_lookup[OF replay'] decode_rows_lookup[OF rows(2)] new)
  moreover have "load_resume_writes oc (load_by_id s) (stored_rows (put_writes thread (cp_id cp) pw s)) thread cp =
      Some (Inr replay')" using rows'(1) replay' by (simp add: load_resume_writes_def)
  ultimately show ?thesis by blast
qed

section \<open>Properties\<close>

definition plain_codec :: "json outcome_codec" where
  "plain_codec = \<lparr>oc_observe = JArray, oc_encode = (\<lambda>ms k. Inr (JArray ms)),
     oc_decode = (\<lambda>j k. Inr (json_elems j)), oc_dump = (\<lambda>j. [])\<rparr>"

lemma plain_codec_roundtrips: "codec_roundtrips plain_codec"
  by (auto simp: codec_roundtrips_def plain_codec_def)

definition sample_result :: "json node_result" where
  "sample_result = \<lparr>nr_writes = [\<lparr>cw_channel = ''log'', cw_value = JUint 1, cw_mode = Overwrite, cw_native = Some [JUint 3]\<rparr>],
     nr_command = Some \<lparr>goto_node = ''b'', updates = []\<rparr>,
     nr_sends = [\<lparr>target_node = ''w'', send_input = JNull, source_node = ''a''\<rparr>]\<rparr>"

lemma sample_result_wf: "result_wf plain_codec sample_result"
  by (simp add: result_wf_def sample_result_def write_wf_def plain_codec_def)

text \<open>A node result recorded as a pending write reads back as itself: with in-memory custody it is the
  very result, and from its JSON form every write (value, mode, provider messages), the command and
  every send are equal, except that a send forgets the node it came from.\<close>

theorem pending_write_roundtrip:
  assumes "make_pending_write oc now t p n nr step native = Inr pw"
    and "codec_roundtrips oc" and "result_wf oc nr"
  shows "pw_task_id pw = t \<and> pw_step pw = step \<and>
    pending_to_node_result oc pw =
      Inr (if native then nr else nr\<lparr>nr_sends := map (\<lambda>s. s\<lparr>source_node := []\<rparr>) (nr_sends nr)\<rparr>)"
  using pending_roundtrip[OF assms] assms(1) by (auto simp: replayed_result_def make_pending_write_def)

theorem pending_write_roundtrip_witness:
  "\<exists>pw. make_pending_write plain_codec 0 ''s0:a'' [] ''a'' sample_result 0 False = Inr pw \<and>
     pending_to_node_result plain_codec pw =
       Inr (sample_result\<lparr>nr_sends := [\<lparr>target_node = ''w'', send_input = JNull, source_node = []\<rparr>]\<rparr>)"
proof -
  obtain pw where pw: "make_pending_write plain_codec 0 ''s0:a'' [] ''a'' sample_result 0 False = Inr pw"
    by (simp add: make_pending_write_def sample_result_def serialize_channel_writes_def serialize_channel_write_def
        serialize_command_def plain_codec_def Let_def)
  from pending_write_roundtrip[OF pw plain_codec_roundtrips sample_result_wf] pw show ?thesis
    by (intro exI[of _ pw]) (simp add: sample_result_def)
qed

text \<open>C15: Collecting the pending writes a resume replays always returns: the walk over the pauses of a
  step ends for every content of the store, also when the stored parent links form a cycle.\<close>

theorem resume_walk_returns:
  "\<exists>r. collect_resume_writes (load_by_id s) (stored_rows s) thread cp = Some r"
  by (rule memory_walk.collect_ends)

text \<open>C14: A resume replays exactly one row per task: among the rows under the checkpoints of the step's
  pause chain (for a resumed pause only the rows of its own step), nearest checkpoint first and
  newest row first, the row replayed for a task is the first one, and a task without a row is not
  replayed. No checkpoint is visited twice.\<close>

theorem resume_replays_newest_rows:
  assumes "resume_pending_writes s cp = Some (Inr rows)"
  shows "\<exists>phase chain. checkpoint_resume_phase cp = Inr phase \<and>
     pause_chain (load_by_id s) (cp_thread_id cp) (cp_step cp) cp chain \<and> distinct (map cp_id chain) \<and>
     distinct (map pw_task_id rows) \<and>
     (\<forall>t. find (\<lambda>r. pw_task_id r = t) rows =
        find (\<lambda>r. pw_task_id r = t) (concat (map (\<lambda>c. filter (\<lambda>r. phase = NodeInterrupt \<longrightarrow> pw_step r = cp_step cp)
          (rev (get_writes s (cp_thread_id cp) (cp_id c)))) chain)))"
  using collect_resume_result[OF assms[unfolded resume_pending_writes_def], unfolded offered_stored_rows by_task_def] .

definition paused_checkpoint :: "string \<Rightarrow> string \<Rightarrow> checkpoint_phase \<Rightarrow> unit checkpoint" where
  "paused_checkpoint i parent phase =
     (stored_checkpoint i JNull)\<lparr>cp_parent_id := parent, cp_interrupt_phase := phase\<rparr>"

definition row :: "string \<Rightarrow> string \<Rightarrow> unit pending_write" where
  "row task node = \<lparr>pw_task_id = task, pw_task_path = [], pw_node_name = node, pw_writes = JArray [],
     pw_command = JNull, pw_sends = JArray [], pw_step = 0, pw_timestamp = 0, pw_native_result = None\<rparr>"

definition paused_store :: "(unit, unit) memory_checkpoints" where
  "paused_store =
     put_writes ''t'' ''c1'' (row ''s0:b'' ''b2'') (put_writes ''t'' ''c1'' (row ''s0:b'' ''b1'')
       (put_writes ''t'' ''c1'' (row ''s0:a'' ''a1'') (put_writes ''t'' ''c2'' (row ''s0:a'' ''a2'')
         (snd (save_checkpoint (paused_checkpoint ''c1'' [] Completed) empty_store)))))"

theorem resume_replays_newest_rows_witness:
  "let cp = paused_checkpoint ''c2'' ''c1'' NodeInterrupt; rows = [row ''s0:a'' ''a2'', row ''s0:b'' ''b2'']
   in resume_pending_writes paused_store cp = Some (Inr rows) \<and>
      (\<exists>chain. pause_chain (load_by_id paused_store) ''t'' 0 cp chain \<and>
        find (\<lambda>r. pw_task_id r = ''s0:b'') rows = find (\<lambda>r. pw_task_id r = ''s0:b'')
          (concat (map (\<lambda>c. filter (\<lambda>r. pw_step r = 0) (rev (get_writes paused_store ''t'' (cp_id c)))) chain)))"
proof -
  let ?cp = "paused_checkpoint ''c2'' ''c1'' NodeInterrupt"
  have rows: "resume_pending_writes paused_store ?cp = Some (Inr [row ''s0:a'' ''a2'', row ''s0:b'' ''b2''])"
    by code_simp
  have cp: "cp_thread_id ?cp = ''t''" "cp_step ?cp = 0" "checkpoint_resume_phase ?cp = Inr NodeInterrupt"
    by (simp_all add: paused_checkpoint_def stored_checkpoint_def checkpoint_resume_phase_def)
  from resume_replays_newest_rows[OF rows, unfolded cp] rows show ?thesis
    unfolding Let_def by (elim exE conjE) (auto simp: raise_error_def)
qed

lemma loaded_checkpoint:
  assumes "load_for_resume co oc s = Some (Inr ctx)" and "have_cp ctx"
  shows "records_pending_writes co (rc_checkpoint_id ctx)"
proof -
  have en: "co_enabled co" using assms by (auto simp: load_for_resume_def no_resume_def split: if_splits)
  with assms obtain cp where "context_of co oc s cp = Some (Inr ctx)"
    by (auto simp: load_for_resume_def no_resume_def split: sum.splits option.splits)
  then obtain rows where "collect_resume_writes (load_by_id s) (stored_rows s) (co_thread_id co) cp = Some (Inr rows)"
    "rc_checkpoint_id ctx = cp_id cp"
    by (auto simp: context_of_def load_resume_writes_def split: sum.splits)
  then have "rc_checkpoint_id ctx \<noteq> []" using collect_visits_checkpoint(1) by metis
  with en show ?thesis by (simp add: records_pending_writes_def)
qed

lemma recorded_replay:
  assumes "load_for_resume co oc s = Some (Inr ctx)" and "have_cp ctx"
    and "record_pending_write co oc now (rc_checkpoint_id ctx) task path node nr step s = (None, s')"
    and "rc_phase ctx = NodeInterrupt \<longrightarrow> step = rc_start_step ctx"
    and "codec_roundtrips oc" and "result_wf oc nr"
  shows "\<exists>replay. load_for_resume co oc s' = Some (Inr (ctx\<lparr>rc_replay_results := replay\<rparr>)) \<and>
    map_of replay = (map_of (rc_replay_results ctx))(task \<mapsto> replayed_result (co_native_memory co) nr)"
proof -
  have en: "co_enabled co" using assms(1,2) by (auto simp: load_for_resume_def no_resume_def split: if_splits)
  with assms(1,2) obtain cp where cp: "load_latest s (co_thread_id co) = Inr (Some cp)"
    "context_of co oc s cp = Some (Inr ctx)"
    by (auto simp: load_for_resume_def no_resume_def split: sum.splits option.splits)
  from cp(2) obtain phase start replay where ctx: "checkpoint_resume_phase cp = Inr phase"
    "resume_start_step cp = Inr start"
    "load_resume_writes oc (load_by_id s) (stored_rows s) (co_thread_id co) cp = Some (Inr replay)"
    "rc_replay_results ctx = replay" "rc_phase ctx = phase" "rc_start_step ctx = start" "rc_checkpoint_id ctx = cp_id cp"
    and whole: "\<And>r. ctx\<lparr>rc_replay_results := r\<rparr> = \<lparr>have_cp = True, rc_checkpoint_id = cp_id cp, rc_channel_values = cp_channel_values cp,
      rc_native_history = cp_native cp, rc_metadata = cp_metadata cp, rc_start_step = start,
      rc_phase = phase, rc_current_node = cp_current_node cp, rc_next_nodes = cp_next_nodes cp,
      rc_replay_results = r, rc_barrier_state = cp_barrier_state cp, rc_source = Some cp\<rparr>"
    by (auto simp: context_of_def split: sum.splits)
  from ctx(3) have id: "cp_id cp \<noteq> []"
    by (auto simp: load_resume_writes_def dest!: collect_visits_checkpoint(1))
  from assms(3) en id obtain pw where pw: "make_pending_write oc now task path node nr step (co_native_memory co) = Inr pw"
    "s' = put_writes (co_thread_id co) (cp_id cp) pw s"
    by (auto simp: record_pending_write_def ctx split: sum.splits)
  have fields: "pw_task_id pw = task" "pw_step pw = step" using pw(1) by (auto simp: make_pending_write_def)
  have "phase = NodeInterrupt \<Longrightarrow> start = cp_step cp"
    using ctx(1,2) by (auto simp: resume_start_step_def Let_def split: if_splits)
  with assms(4) ctx fields have same: "checkpoint_resume_phase cp = Inr NodeInterrupt \<longrightarrow> pw_step pw = cp_step cp" by auto
  from put_writes_replay[OF ctx(3) pending_roundtrip[OF pw(1) assms(5,6)] same] obtain replay' where
    replay': "load_resume_writes oc (load_by_id s) (stored_rows s') (co_thread_id co) cp = Some (Inr replay')"
    "map_of replay' = (map_of replay)(task \<mapsto> replayed_result (co_native_memory co) nr)"
    unfolding pw(2) fields by blast
  have "load_for_resume co oc s' = Some (Inr (ctx\<lparr>rc_replay_results := replay'\<rparr>))"
    using en cp(1) ctx(1,2) replay'(1) by (simp add: load_for_resume_def context_of_def whole pw(2))
  with replay'(2) ctx(4) show ?thesis by blast
qed

text \<open>Recording a finished task under the checkpoint a thread resumes from adds its result to the
  replay of the next resume and changes nothing else of what is resumed: the task is answered with
  the recorded result, which replaces an older one of the same task, every other task is replayed
  as before, and the step, nodes, state and barriers to resume with are the same.\<close>

theorem recorded_result_is_replayed:
  assumes "load_for_resume co oc s = Some (Inr ctx)" and "have_cp ctx"
    and "record_pending_write co oc now (rc_checkpoint_id ctx) task path node nr step s = (None, s')"
    and "rc_phase ctx = NodeInterrupt \<longrightarrow> step = rc_start_step ctx"
    and "codec_roundtrips oc" and "result_wf oc nr"
  shows "\<exists>replay. load_for_resume co oc s' = Some (Inr (ctx\<lparr>rc_replay_results := replay\<rparr>)) \<and>
    map_of replay = (map_of (rc_replay_results ctx))(task \<mapsto> replayed_result (co_native_memory co) nr)"
  by (rule recorded_replay[OF assms])

definition sample_coordinator :: coordinator where
  "sample_coordinator = \<lparr>co_has_store = True, co_thread_id = ''t'', co_native_memory = True\<rparr>"

definition sample_store :: "(unit, json) memory_checkpoints" where
  "sample_store = snd (save_checkpoint (stored_checkpoint ''c1'' (JUint 7)) empty_store)"

theorem recorded_result_is_replayed_witness:
  "\<exists>ctx replay s'. load_for_resume sample_coordinator plain_codec sample_store = Some (Inr ctx) \<and>
     record_pending_write sample_coordinator plain_codec 0 (rc_checkpoint_id ctx) ''s1:b'' [] ''b'' sample_result 1 sample_store =
       (None, s') \<and>
     load_for_resume sample_coordinator plain_codec s' = Some (Inr (ctx\<lparr>rc_replay_results := replay\<rparr>)) \<and>
     map_of replay ''s1:b'' = Some sample_result"
proof -
  let ?load = "load_for_resume sample_coordinator plain_codec sample_store"
  let ?rec = "record_pending_write sample_coordinator plain_codec 0 ''c1'' ''s1:b'' [] ''b'' sample_result 1 sample_store"
  have "case ?load of Some (Inr c) \<Rightarrow> have_cp c \<and> rc_checkpoint_id c = ''c1'' \<and> rc_phase c = Completed | _ \<Rightarrow> False"
    by code_simp
  then obtain ctx where ctx: "?load = Some (Inr ctx)" "have_cp ctx" "rc_checkpoint_id ctx = ''c1''" "rc_phase ctx = Completed"
    by (auto split: option.splits sum.splits)
  have "fst ?rec = None" by code_simp
  then have rec: "record_pending_write sample_coordinator plain_codec 0 (rc_checkpoint_id ctx) ''s1:b'' [] ''b'' sample_result 1
      sample_store = (None, snd ?rec)" by (simp add: prod_eq_iff ctx(3))
  have "co_native_memory sample_coordinator" by (simp add: sample_coordinator_def)
  moreover have "rc_phase ctx = NodeInterrupt \<longrightarrow> 1 = rc_start_step ctx" by (simp add: ctx(4))
  note recorded_result_is_replayed[OF ctx(1,2) rec this plain_codec_roundtrips sample_result_wf]
  ultimately show ?thesis using ctx(1) rec by (auto simp: replayed_result_def)
qed

end
