(* ===== verification/NG_Engine.thy ===== *)
theory NG_Engine
  imports NG_Resume
begin

text \<open>
  The parts of the graph engine that work on stored checkpoints
  (\<open>src/src/core/graph_engine.cpp\<close>): the initial state of a run, its input, the state a resume
  starts from, and the administrative operations (\<open>get_state\<close>, \<open>update_state\<close>, \<open>fork\<close>) with the guard
  that keeps them apart from runs. Threads with a managed budget are not modelled. The reducers of
  the registry, the provider part of a snapshot and the restoring of provider histories, from JSON or
  from in-memory custody, are parameters; so are the clock and the id source.
\<close>

section \<open>The engine\<close>

record ('n, 'm) engine =
  en_has_store :: bool
  en_channel_defs :: "channel_def list"
  en_reducer :: "string \<Rightarrow> error + (json \<Rightarrow> json \<Rightarrow> error + json)"
  en_codec :: "'m message_codec"
  en_provider :: "('n, 'm) provider_part"
  en_trunc :: "u64 \<Rightarrow> u64"
  en_histories :: "'m history_restore"
  en_restore_native :: "'n \<Rightarrow> json \<Rightarrow> json \<Rightarrow> 'm graph_state \<Rightarrow> error + 'm graph_state"

section \<open>Runs and administration\<close>

text \<open>\<open>active_runs_\<close> counts the runs in progress; it is \<open>-1\<close> during an administrative operation.\<close>

definition enter_execution :: "int \<Rightarrow> error + int" where
  "enter_execution count =
     (if count < 0 then raise_error LogicError ''Cannot execute: engine administration is in progress''
      else Inr (count + 1))"

definition leave_execution :: "int \<Rightarrow> int" where
  "leave_execution count = count - 1"

definition enter_administration :: "int \<Rightarrow> error + int" where
  "enter_administration count =
     (if count \<noteq> 0 then raise_error LogicError ''Cannot administer: engine execution or administration is in progress''
      else Inr (-1))"

definition leave_administration :: "int \<Rightarrow> int" where
  "leave_administration count = 0"

section \<open>The state of a run\<close>

definition initial_value_of :: "channel_def \<Rightarrow> json" where
  "initial_value_of cd = (if cd_type cd = APPEND \<and> is_null (cd_initial_value cd) then JArray [] else cd_initial_value cd)"

definition lifecycle_of :: "channel_def \<Rightarrow> lifecycle_policy" where
  "lifecycle_of cd = \<lparr>retention = cd_retention cd, retention_limit = cd_retention_limit cd, persistence = cd_persistence cd\<rparr>"

fun init_channels :: "(string \<Rightarrow> error + (json \<Rightarrow> json \<Rightarrow> error + json)) \<Rightarrow> channel_def list \<Rightarrow> 'm graph_state \<Rightarrow>
    error + 'm graph_state" where
  "init_channels reducer [] st = Inr st"
| "init_channels reducer (cd # cds) st =
     bind_result (reducer (cd_reducer_name cd)) (\<lambda>f.
       bind_result (init_channel (cd_name cd) (cd_type cd) f (initial_value_of cd) (lifecycle_of cd) st)
         (init_channels reducer cds))"

definition empty_state :: "'m graph_state" where
  "empty_state = \<lparr>channels = [], global_version = 0, provider_histories = []\<rparr>"

definition init_state :: "('n, 'm) engine \<Rightarrow> error + 'm graph_state" where
  "init_state en = init_channels (en_reducer en) (en_channel_defs en) empty_state"

fun write_known :: "'m message_codec \<Rightarrow> string list \<Rightarrow> (string \<times> json) list \<Rightarrow> 'm graph_state \<Rightarrow>
    error option \<times> 'm graph_state" where
  "write_known cod known [] st = (None, st)"
| "write_known cod known ((key, v) # items) st =
     (if key \<in> set known
      then case write_channel cod key v st of
             (Some e, st') \<Rightarrow> (Some e, st')
           | (None, st') \<Rightarrow> write_known cod known items st'
      else write_known cod known items st)"

definition apply_input :: "('n, 'm) engine \<Rightarrow> json \<Rightarrow> 'm graph_state \<Rightarrow> error option \<times> 'm graph_state" where
  "apply_input en input st =
     (if \<not> is_object input then (None, st)
      else write_known (en_codec en) (channel_names st) (json_items input) st)"

definition checkpoint_ephemeral_guard :: "json \<Rightarrow> json" where
  "checkpoint_ephemeral_guard metadata =
     (if is_object metadata \<and> json_contains metadata ''_neograph_ephemeral_guard''
      then json_get metadata ''_neograph_ephemeral_guard'' else JNull)"

text \<open>\<open>restore_checkpoint\<close> with the custody a checkpoint carries.\<close>

definition restore_loaded ::
    "('n, 'm) engine \<Rightarrow> json \<Rightarrow> json \<Rightarrow> 'n option \<Rightarrow> 'm graph_state \<Rightarrow> error + 'm graph_state" where
  "restore_loaded en data metadata native st =
     (case native of
        None \<Rightarrow> restore_checkpoint (en_trunc en) (en_histories en) data (checkpoint_ephemeral_guard metadata) st
      | Some n \<Rightarrow> en_restore_native en n data (checkpoint_ephemeral_guard metadata) st)"

text \<open>What a run that resumes takes from the loaded context, before the resume value is written.\<close>

record ('n, 'm) resumed_run =
  rr_state :: "'m graph_state"
  rr_last_checkpoint_id :: string
  rr_start_step :: int
  rr_ready :: "string list"
  rr_replay_results :: "(string \<times> 'm node_result) list"
  rr_barrier_state :: "(string \<times> string list) list"

definition resume_run :: "('n, 'm) engine \<Rightarrow> ('n, 'm) resume_context \<Rightarrow> error + ('n, 'm) resumed_run" where
  "resume_run en loaded =
     bind_result (init_state en) (\<lambda>st0.
       bind_result (restore_loaded en (rc_channel_values loaded) (rc_metadata loaded) (rc_native_history loaded) st0) (\<lambda>st.
         Inr \<lparr>rr_state = st, rr_last_checkpoint_id = rc_checkpoint_id loaded, rr_start_step = rc_start_step loaded,
              rr_ready = rc_next_nodes loaded, rr_replay_results = rc_replay_results loaded,
              rr_barrier_state = rc_barrier_state loaded\<rparr>))"

section \<open>Administration\<close>

definition get_state :: "('n, 'm) engine \<Rightarrow> string \<Rightarrow> ('n, 'm) memory_checkpoints \<Rightarrow> error + json option" where
  "get_state en thread s =
     (if \<not> en_has_store en then Inr None
      else bind_result (load_latest s thread) (\<lambda>cp. Inr (map_option cp_channel_values cp)))"

definition get_state_history ::
    "('n, 'm) engine \<Rightarrow> string \<Rightarrow> int \<Rightarrow> ('n, 'm) memory_checkpoints \<Rightarrow> error + 'n checkpoint list" where
  "get_state_history en thread limit s =
     (if \<not> en_has_store en then Inr [] else list_checkpoints s thread limit)"

definition admin_metadata :: "json \<Rightarrow> checkpoint_phase \<Rightarrow> json \<Rightarrow> json" where
  "admin_metadata metadata phase guard =
     (let md = json_set ''_neograph''
          (json_set ''admin_resume_phase'' (JString (phase_to_string phase)) (json_get metadata ''_neograph'')) metadata
      in if \<not> is_null guard \<or> is_object md \<and> json_contains md ''_neograph_ephemeral_guard''
         then json_set ''_neograph_ephemeral_guard'' guard md else md)"

definition updated_checkpoint ::
    "('n, 'm) engine \<Rightarrow> string \<Rightarrow> int \<Rightarrow> string \<Rightarrow> string \<Rightarrow> checkpoint_phase \<Rightarrow> 'm graph_state \<Rightarrow> 'n checkpoint \<Rightarrow>
     'n checkpoint" where
  "updated_checkpoint en new_id now thread as_node phase st cp =
     (capture_state (en_provider en) st
        (blank_checkpoint\<lparr>cp_id := new_id, cp_thread_id := thread\<rparr>))
     \<lparr>cp_metadata := admin_metadata (cp_metadata cp) phase (ephemeral_checkpoint_guard st), cp_parent_id := cp_id cp,
      cp_current_node := (if as_node = [] then cp_current_node cp else as_node), cp_next_nodes := cp_next_nodes cp,
      cp_interrupt_phase := Updated, cp_barrier_state := cp_barrier_state cp, cp_step := cp_step cp,
      cp_timestamp := max now (cp_timestamp cp + 1)\<rparr>"

definition writes_ephemeral :: "'m graph_state \<Rightarrow> bool" where
  "writes_ephemeral st \<longleftrightarrow>
     \<not> is_null (ephemeral_checkpoint_guard st) \<and>
     list_ex (\<lambda>(name, written). json_eq written (JBool True)) (json_items (ephemeral_checkpoint_guard st))"

text \<open>The part of \<open>update_state_writes\<close> between the load and the save.\<close>

definition prepare_update ::
    "('n, 'm) engine \<Rightarrow> string \<Rightarrow> int \<Rightarrow> string \<Rightarrow> 'm channel_write list \<Rightarrow> string \<Rightarrow> 'n checkpoint \<Rightarrow>
     error + 'n checkpoint" where
  "prepare_update en new_id now thread writes as_node cp =
     bind_result (init_state en) (\<lambda>st0.
       bind_result (restore_loaded en (cp_channel_values cp) (cp_metadata cp) (cp_native cp) st0) (\<lambda>st1.
         case apply_writes (en_codec en) writes st1 of
           (Some e, st) \<Rightarrow> Inl e
         | (None, st) \<Rightarrow>
             if writes_ephemeral st
             then raise_error RuntimeError ''Cannot update checkpoint with ephemeral channel write''
             else bind_result (if as_node = [] then checkpoint_resume_phase cp else Inr Updated) (\<lambda>phase.
               Inr (updated_checkpoint en new_id now thread as_node phase st cp))))"

definition update_state_writes ::
    "('n, 'm) engine \<Rightarrow> string \<Rightarrow> int \<Rightarrow> string \<Rightarrow> 'm channel_write list \<Rightarrow> string \<Rightarrow>
     ('n, 'm) memory_checkpoints \<Rightarrow> error option \<times> ('n, 'm) memory_checkpoints" where
  "update_state_writes en new_id now thread writes as_node s =
     (if \<not> en_has_store en then (Some (Error RuntimeError ''Cannot update_state: no checkpoint store configured''), s)
      else case load_latest s thread of
             Inl e \<Rightarrow> (Some e, s)
           | Inr None \<Rightarrow> (Some (Error RuntimeError ''No checkpoint found for thread''), s)
           | Inr (Some cp) \<Rightarrow>
               (case prepare_update en new_id now thread writes as_node cp of
                  Inl e \<Rightarrow> (Some e, s)
                | Inr new_cp \<Rightarrow> save_checkpoint new_cp s))"

definition known_writes :: "string list \<Rightarrow> json \<Rightarrow> 'm channel_write list" where
  "known_writes known channel_writes =
     (if is_object channel_writes
      then map (\<lambda>(key, v). \<lparr>cw_channel = key, cw_value = v, cw_mode = Reduce, cw_native = None\<rparr>)
             (filter (\<lambda>(key, v). key \<in> set known) (json_items channel_writes))
      else [])"

definition update_state ::
    "('n, 'm) engine \<Rightarrow> string \<Rightarrow> int \<Rightarrow> string \<Rightarrow> json \<Rightarrow> string \<Rightarrow>
     ('n, 'm) memory_checkpoints \<Rightarrow> error option \<times> ('n, 'm) memory_checkpoints" where
  "update_state en new_id now thread channel_writes as_node s =
     (if \<not> is_object channel_writes then update_state_writes en new_id now thread [] as_node s
      else case init_state en of
             Inl e \<Rightarrow> (Some e, s)
           | Inr st \<Rightarrow>
               update_state_writes en new_id now thread (known_writes (channel_names st) channel_writes) as_node s)"

definition forked_metadata :: "string \<Rightarrow> 'n checkpoint \<Rightarrow> json" where
  "forked_metadata source_thread cp =
     json_set ''forked_from''
       (JObject [(''thread_id'', JString source_thread), (''checkpoint_id'', JString (cp_id cp))])
       (if is_object (cp_metadata cp) then cp_metadata cp else JObject [])"

definition forked_checkpoint ::
    "('n, 'm) engine \<Rightarrow> string \<Rightarrow> int \<Rightarrow> string \<Rightarrow> string \<Rightarrow> 'm graph_state \<Rightarrow> 'n checkpoint \<Rightarrow> 'n checkpoint" where
  "forked_checkpoint en new_id now source_thread new_thread st cp =
     (capture_state (en_provider en) st (blank_checkpoint\<lparr>cp_id := new_id, cp_thread_id := new_thread\<rparr>))
     \<lparr>cp_channel_versions := cp_channel_versions cp, cp_parent_id := cp_id cp, cp_current_node := cp_current_node cp,
      cp_next_nodes := cp_next_nodes cp, cp_interrupt_phase := cp_interrupt_phase cp,
      cp_barrier_state := cp_barrier_state cp, cp_metadata := forked_metadata source_thread cp,
      cp_step := cp_step cp, cp_timestamp := now\<rparr>"

definition prepare_fork ::
    "('n, 'm) engine \<Rightarrow> string \<Rightarrow> int \<Rightarrow> string \<Rightarrow> string \<Rightarrow> 'n checkpoint \<Rightarrow> error + 'n checkpoint" where
  "prepare_fork en new_id now source_thread new_thread cp =
     (if cp_thread_id cp \<noteq> source_thread
      then raise_error RuntimeError ''Checkpoint does not belong to fork source thread''
      else bind_result (init_state en) (\<lambda>st0.
        bind_result (restore_loaded en (cp_channel_values cp) (cp_metadata cp) (cp_native cp) st0) (\<lambda>st.
          Inr (forked_checkpoint en new_id now source_thread new_thread st cp))))"

definition fork ::
    "('n, 'm) engine \<Rightarrow> string \<Rightarrow> int \<Rightarrow> string \<Rightarrow> string \<Rightarrow> string \<Rightarrow> ('n, 'm) memory_checkpoints \<Rightarrow>
     ((error + string) \<times> ('n, 'm) memory_checkpoints) option" where
  "fork en new_id now source_thread new_thread checkpoint_id s =
     (if \<not> en_has_store en then Some (raise_error RuntimeError ''Cannot fork: no checkpoint store configured'', s)
      else case (if checkpoint_id = [] then load_latest s source_thread else load_by_id s checkpoint_id) of
             Inl e \<Rightarrow> Some (Inl e, s)
           | Inr None \<Rightarrow> Some (raise_error RuntimeError ''No checkpoint found for fork source'', s)
           | Inr (Some cp) \<Rightarrow>
               (case prepare_fork en new_id now source_thread new_thread cp of
                  Inl e \<Rightarrow> Some (Inl e, s)
                | Inr forked \<Rightarrow>
                    (case save_checkpoint forked s of
                       (Some e, s') \<Rightarrow> Some (Inl e, s')
                     | (None, s') \<Rightarrow>
                         map_option (\<lambda>(err, s''). (case err of Some e \<Rightarrow> Inl e | None \<Rightarrow> Inr new_id, s''))
                           (copy_resume_pending_writes cp forked s'))))"

section \<open>Runs exclude administration\<close>

text \<open>Guards entered and left by any number of threads; the two counters are what is in progress.\<close>

record occupancy =
  oc_active_runs :: int
  oc_runs :: nat
  oc_admins :: nat

inductive guard_step :: "occupancy \<Rightarrow> occupancy \<Rightarrow> bool" where
    run_enters: "enter_execution (oc_active_runs g) = Inr n \<Longrightarrow>
      guard_step g (g\<lparr>oc_active_runs := n, oc_runs := oc_runs g + 1\<rparr>)"
  | run_leaves: "oc_runs g > 0 \<Longrightarrow>
      guard_step g (g\<lparr>oc_active_runs := leave_execution (oc_active_runs g), oc_runs := oc_runs g - 1\<rparr>)"
  | admin_enters: "enter_administration (oc_active_runs g) = Inr n \<Longrightarrow>
      guard_step g (g\<lparr>oc_active_runs := n, oc_admins := oc_admins g + 1\<rparr>)"
  | admin_leaves: "oc_admins g > 0 \<Longrightarrow>
      guard_step g (g\<lparr>oc_active_runs := leave_administration (oc_active_runs g), oc_admins := oc_admins g - 1\<rparr>)"

inductive guard_reach :: "occupancy \<Rightarrow> bool" where
    guard_idle: "guard_reach \<lparr>oc_active_runs = 0, oc_runs = 0, oc_admins = 0\<rparr>"
  | guard_more: "guard_reach g \<Longrightarrow> guard_step g g' \<Longrightarrow> guard_reach g'"

definition guard_inv :: "occupancy \<Rightarrow> bool" where
  "guard_inv g \<longleftrightarrow>
     (if oc_active_runs g < 0 then oc_active_runs g = -1 \<and> oc_runs g = 0 \<and> oc_admins g = 1
      else oc_active_runs g = int (oc_runs g) \<and> oc_admins g = 0)"

lemma guard_inv_step: "guard_inv g \<Longrightarrow> guard_step g g' \<Longrightarrow> guard_inv g'"
  by (erule guard_step.cases)
    (auto simp: guard_inv_def enter_execution_def leave_execution_def enter_administration_def
      leave_administration_def raise_error_def split: if_splits)

text \<open>C26: Runs and administration exclude each other. Whatever the order in which threads enter and leave the
  engine's guards, an administrative operation is alone: while one is in progress there is no run and no
  other administrative operation; and an idle engine accepts both a run and an administrative operation.\<close>

theorem administration_is_exclusive:
  assumes "guard_reach g"
  shows "oc_admins g \<le> 1 \<and> (oc_admins g = 0 \<or> oc_runs g = 0) \<and>
     (enter_administration (oc_active_runs g) \<in> range Inr \<longleftrightarrow> oc_runs g = 0 \<and> oc_admins g = 0) \<and>
     (enter_execution (oc_active_runs g) \<in> range Inr \<longleftrightarrow> oc_admins g = 0)"
proof -
  from assms have "guard_inv g"
  proof (induction rule: guard_reach.induct)
    case guard_idle
    then show ?case by (simp add: guard_inv_def)
  next
    case (guard_more g g')
    then show ?case by (blast intro: guard_inv_step)
  qed
  then show ?thesis
    by (auto simp: guard_inv_def enter_administration_def enter_execution_def raise_error_def split: if_splits)
qed

theorem administration_is_exclusive_witness:
  "enter_execution (-1) \<notin> range Inr \<and> enter_administration (-1) \<notin> range Inr"
proof -
  let ?g = "\<lparr>oc_active_runs = 0, oc_runs = 0, oc_admins = 0\<rparr>"
  have "guard_step ?g (?g\<lparr>oc_active_runs := -1, oc_admins := oc_admins ?g + 1\<rparr>)"
    by (rule admin_enters) (simp add: enter_administration_def)
  then have "guard_reach \<lparr>oc_active_runs = -1, oc_runs = 0, oc_admins = 1\<rparr>"
    using guard_more[OF guard_idle] by simp
  from administration_is_exclusive[OF this] show ?thesis by simp
qed

section \<open>A committed step resumes\<close>

lemma guard_survives:
  assumes "with_ephemeral_guard metadata st = Inr md" "is_null metadata \<or> is_object metadata"
    "\<not> json_contains metadata ''_neograph_ephemeral_guard''"
  shows "checkpoint_ephemeral_guard md = ephemeral_checkpoint_guard st"
proof (cases "is_null (ephemeral_checkpoint_guard st)")
  case True
  then have "ephemeral_checkpoint_guard st = JNull" by (cases "ephemeral_checkpoint_guard st") simp_all
  then show ?thesis using assms by (auto simp: with_ephemeral_guard_def checkpoint_ephemeral_guard_def)
next
  case False
  then show ?thesis using assms
    by (auto simp: with_ephemeral_guard_def checkpoint_ephemeral_guard_def Let_def split: if_splits)
qed

lemma guard_accepts:
  assumes "is_null metadata \<or> is_object metadata" "\<not> json_contains metadata ''_neograph_ephemeral_guard''"
  shows "\<exists>md. with_ephemeral_guard metadata st = Inr md"
  using assms by (auto simp: with_ephemeral_guard_def Let_def)

lemma smap_put_all: "list_all P m \<Longrightarrow> P (k, v) \<Longrightarrow> list_all P (smap_put k v m)"
  by (induction k v m rule: smap_put.induct) auto

lemma init_channels_unwritten:
  "init_channels reducer cds st = Inr st' \<Longrightarrow> list_all (\<lambda>(n, ch). ch_version ch = 0) (channels st) \<Longrightarrow>
     list_all (\<lambda>(n, ch). ch_version ch = 0) (channels st')"
proof (induction cds arbitrary: st)
  case (Cons cd cds)
  from Cons.prems(1) obtain f st1 where one:
    "init_channel (cd_name cd) (cd_type cd) f (initial_value_of cd) (lifecycle_of cd) st = Inr st1"
    "init_channels reducer cds st1 = Inr st'"
    by auto
  have "list_all (\<lambda>(n, ch). ch_version ch = 0) (channels st1)"
    using one(1) Cons.prems(2)
    by (auto simp: init_channel_def raise_error_def smap_put_all split: if_splits)
  with Cons.IH one(2) show ?case by blast
qed simp

lemma init_state_unwritten: "init_state en = Inr st0 \<Longrightarrow> \<not> ephemeral_written st0"
  using init_channels_unwritten[of "en_reducer en" "en_channel_defs en" empty_state st0]
  by (fastforce simp: init_state_def empty_state_def ephemeral_written_def list_ex_iff list_all_iff)

lemma save_keeps_rows: "save_checkpoint cp s = (r, s') \<Longrightarrow> get_writes s' t i = get_writes s t i"
  by (auto simp: save_checkpoint_def get_writes_def Let_def split: prod.splits sum.splits)

lemma clear_writes_fields:
  "by_id (clear_writes t p s) = by_id s" "by_thread (clear_writes t p s) = by_thread s" "blobs (clear_writes t p s) = blobs s"
  by (simp_all add: clear_writes_def)

lemma clear_keeps_store:
  "load_latest (clear_pending_writes co p s) t = load_latest s t"
  "load_by_id (clear_pending_writes co p s) i = load_by_id s i"
  "get_writes s t i = [] \<Longrightarrow> get_writes (clear_pending_writes co p s) t i = []"
proof -
  note same = clear_writes_fields[of "co_thread_id co" p s]
  show "load_latest (clear_pending_writes co p s) t = load_latest s t"
    "load_by_id (clear_pending_writes co p s) i = load_by_id s i"
    unfolding clear_pending_writes_def load_latest_def load_by_id_def by (simp_all only: same split: if_split) simp_all
  show "get_writes (clear_pending_writes co p s) t i = []" if "get_writes s t i = []"
    using that by (simp add: clear_pending_writes_def clear_writes_def get_writes_def)
qed

text \<open>What loading a saved snapshot gives back (\<open>save_then_load\<close>), for the restoring of channels.\<close>

definition loaded_snapshot :: "'m graph_state \<Rightarrow> (string \<times> json) list \<Rightarrow> json \<Rightarrow> bool" where
  "loaded_snapshot st extra vals \<longleftrightarrow> is_object vals \<and>
     json_get vals ''channels'' = JObject (map (\<lambda>(n, e). (n, JObject
        [(''version'', json_get e ''version''), (''value'', json_get e ''value'')])) (snapshot_entries st)) \<and>
     (\<forall>k. k \<noteq> ''channels'' \<longrightarrow> json_get vals k = json_get (extended_snapshot st extra) k)"

lemma extended_snapshot_shape:
  assumes "foreign_members extra" "smap_ok (channels st)" "snapshot_entries st \<noteq> []"
  shows "snapshot_shape (extended_snapshot st extra) (snapshot_entries st)"
proof -
  have "list_all (\<lambda>(n, e). versioned e) (snapshot_entries st)"
    by (auto simp: snapshot_entries_def list_all_iff channel_entry_def versioned_def)
  then show ?thesis using assms snapshot_entries_distinct[OF assms(2)]
    by (simp add: snapshot_shape_def extended_snapshot_def channel_snapshot_members)
qed

lemma json_contains_get: "json_get j k \<noteq> JNull \<Longrightarrow> json_contains j k"
  by (cases j) (auto split: option.splits)

lemma restore_loaded_snapshot:
  assumes snap: "loaded_snapshot st extra vals" and extra: "foreign_members extra" and ok: "smap_ok (channels st)"
    and ch: "map_of (channels st) c = Some ch" "\<not> is_ephemeral ch"
    and ch0: "map_of (channels st1) c = Some ch0" "\<not> is_ephemeral ch0"
  shows "get_channel (restore_channels trunc (\<lambda>ch. \<not> is_ephemeral ch) vals st1) c = ch_value ch \<and>
     channel_version (restore_channels trunc (\<lambda>ch. \<not> is_ephemeral ch) vals st1) c = ch_version ch"
proof -
  define es where "es = map (\<lambda>(n, e). (n, JObject [(''version'', json_get e ''version''), (''value'', json_get e ''value'')]))
      (snapshot_entries st)"
  have get: "json_get vals ''channels'' = JObject es" using snap by (simp add: loaded_snapshot_def es_def)
  then have has: "json_contains vals ''channels''" by (intro json_contains_get) simp
  have "map fst es = map fst (snapshot_entries st)" by (simp add: es_def case_prod_unfold comp_def)
  then have dist: "distinct (map fst es)" using snapshot_entries_distinct[OF ok] by simp
  have "map_of (snapshot_entries st) c = Some (channel_entry ch)" using map_of_snapshot_entries[OF ok, of c] ch by simp
  then have "map_of es c = Some (JObject [(''version'', JUint (ch_version ch)), (''value'', ch_value ch)])"
    unfolding es_def map_of_map_members by (simp add: channel_entry_def)
  then show ?thesis
    using fold_take_entry[OF dist, of trunc "\<lambda>ch. \<not> is_ephemeral ch" "channels st1" c] ch0 has
    by (simp add: get_channel_def channel_version_def restore_channels_def get json_value_def)
qed

lemma loaded_snapshot_reads:
  assumes "loaded_snapshot st extra vals" "foreign_members extra"
  shows "\<not> native_required vals" "json_value (get_uint64 trunc) vals ''global_version'' 0 = global_version st"
proof -
  have obj: "is_object (extended_snapshot st extra)" by (simp add: extended_snapshot_def channel_snapshot_members)
  show "\<not> native_required vals"
    using assms(1) obj extended_snapshot_reads(1)[OF assms(2), of st]
    by (simp add: native_required_def json_value_def loaded_snapshot_def)
  show "json_value (get_uint64 trunc) vals ''global_version'' 0 = global_version st"
    using assms(1) obj extended_snapshot_reads(2)[OF assms(2), of trunc st]
    by (simp add: json_value_def loaded_snapshot_def)
qed

lemma completed_context:
  assumes "co_enabled co" "load_latest s (co_thread_id co) = Inr (Some cp)" "cp_interrupt_phase cp = Completed"
    "cp_id cp \<noteq> []" "cp_thread_id cp = co_thread_id co" "0 \<le> cp_step cp" "cp_step cp < int_max"
    "get_writes s (co_thread_id co) (cp_id cp) = []"
  shows "load_for_resume co oc s = Some (Inr \<lparr>have_cp = True, rc_checkpoint_id = cp_id cp,
     rc_channel_values = cp_channel_values cp, rc_native_history = cp_native cp, rc_metadata = cp_metadata cp,
     rc_start_step = cp_step cp + 1, rc_phase = Completed, rc_current_node = cp_current_node cp,
     rc_next_nodes = cp_next_nodes cp, rc_replay_results = [], rc_barrier_state = cp_barrier_state cp,
     rc_source = Some cp\<rparr>)"
proof -
  have phase: "checkpoint_resume_phase cp = Inr Completed" using assms(3) by (simp add: checkpoint_resume_phase_def)
  have "require_visitable cp (co_thread_id co) False [] = Inr [cp_id cp]"
    using assms(4,5) by (simp add: require_visitable_def)
  moreover have "pause_chain_continues cp (cp_step cp) (co_thread_id co) = Inr False"
    by (simp add: pause_chain_continues_def phase)
  ultimately have "collect_loop (load_by_id s) (stored_rows s) (co_thread_id co) False (cp_step cp) cp [] ([], []) = Some (Inr [])"
    by (subst collect_loop.simps) (simp add: assms(8) select_newest_rows_def)
  then have "load_resume_writes oc (load_by_id s) (stored_rows s) (co_thread_id co) cp = Some (Inr [])"
    by (simp add: load_resume_writes_def collect_resume_writes_def phase)
  moreover have "resume_start_step cp = Inr (cp_step cp + 1)" using assms(6,7) by (simp add: resume_start_step_def phase)
  ultimately show ?thesis using assms(1,2) by (simp add: load_for_resume_def context_of_def phase)
qed

definition keeps_channels :: "'m history_restore \<Rightarrow> 'm graph_state \<Rightarrow> bool" where
  "keeps_channels histories st \<longleftrightarrow> (\<forall>data. \<exists>st'. histories data st = Inr st' \<and> channels st' = channels st)"

definition unshadowed :: "('n, 'm) memory_checkpoints \<Rightarrow> string \<Rightarrow> 'm graph_state \<Rightarrow> bool" where
  "unshadowed s thread st \<longleftrightarrow> (\<forall>n e. (n, e) \<in> set (snapshot_entries st) \<longrightarrow>
     map_of (blobs s) (thread, n, version_of e) \<in> {None, Some (json_get e ''value'')})"

lemma saved_snapshot_loads:
  assumes "cp_channel_values cp = extended_snapshot st extra" "foreign_members extra" "smap_ok (channels st)"
    "snapshot_entries st \<noteq> []" "unshadowed s (cp_thread_id cp) st"
  obtains s' vals where "save_checkpoint cp s = (None, s')"
    "load_latest s' (cp_thread_id cp) = Inr (Some (cp\<lparr>cp_channel_values := vals\<rparr>))"
    "load_by_id s' (cp_id cp) = Inr (Some (cp\<lparr>cp_channel_values := vals\<rparr>))" "loaded_snapshot st extra vals"
proof -
  have shape: "snapshot_shape (cp_channel_values cp) (snapshot_entries st)"
    unfolding assms(1) by (rule extended_snapshot_shape[OF assms(2-4)])
  have entry: "loaded_entry (blobs s) (cp_thread_id cp) n e =
      JObject [(''version'', json_get e ''version''), (''value'', json_get e ''value'')]" if "(n, e) \<in> set (snapshot_entries st)" for n e
  proof -
    have "versioned e" using shape that by (auto simp: snapshot_shape_def list_all_iff)
    moreover have "loaded_value (blobs s) (cp_thread_id cp) n e = json_get e ''value''"
      using assms(5) that by (fastforce simp: unshadowed_def loaded_value_def split: option.splits)
    ultimately show ?thesis by (simp add: loaded_entry_def versioned_reads)
  qed
  have same: "map (\<lambda>(n, e). (n, loaded_entry (blobs s) (cp_thread_id cp) n e)) (snapshot_entries st) =
      map (\<lambda>(n, e). (n, JObject [(''version'', json_get e ''version''), (''value'', json_get e ''value'')])) (snapshot_entries st)"
    using entry by auto
  obtain s' vals where "save_checkpoint cp s = (None, s')"
    "load_by_id s' (cp_id cp) = Inr (Some (cp\<lparr>cp_channel_values := vals\<rparr>))"
    "load_latest s' (cp_thread_id cp) = Inr (Some (cp\<lparr>cp_channel_values := vals\<rparr>))" "is_object vals"
    "json_get vals ''channels'' = JObject (map (\<lambda>(n, e). (n, loaded_entry (blobs s) (cp_thread_id cp) n e)) (snapshot_entries st))"
    "\<forall>k. k \<noteq> ''channels'' \<longrightarrow> json_get vals k = json_get (extended_snapshot st extra) k"
    using save_then_load[OF shape, of s] unfolding assms(1) by blast
  then show thesis unfolding same by (intro that[of s' vals]) (simp_all only: loaded_snapshot_def simp_thms)
qed

text \<open>C12: A committed super-step is where the next run resumes. Committing a super-step and then resuming the
  thread starts at the step after it, with the nodes the step had planned, the barrier signals it held, the
  checkpoint as parent and nothing to replay, and with a state in which every checkpointed channel has the
  value and version it had when the step was committed.\<close>

theorem committed_step_resumes:
  assumes "co_enabled co" "new_id \<noteq> []" "0 \<le> sb_step b" "sb_step b < int_max"
    and "is_null (sb_metadata b) \<or> is_object (sb_metadata b)"
    and "\<not> json_contains (sb_metadata b) ''_neograph_ephemeral_guard''"
    and "smap_ok (channels st)" "snapshot_entries st \<noteq> []" "\<not> ephemeral_written st"
    and "foreign_members (fst (en_provider en st))" "snd (en_provider en st) = None"
    and "unshadowed s (co_thread_id co) st" "get_writes s (co_thread_id co) new_id = []"
    and "init_state en = Inr st0" "same_lifecycles st st0" "keeps_channels (en_histories en) st0"
  shows "\<exists>cp s' rc run. commit_super_step co (en_provider en) new_id now st b s = (Inr cp, s') \<and>
     load_for_resume co oc s' = Some (Inr rc) \<and> resume_run en rc = Inr run \<and>
     rr_start_step run = sb_step b + 1 \<and> rr_ready run = sb_next_nodes b \<and>
     rr_barrier_state run = sb_barrier_state b \<and> rr_last_checkpoint_id run = new_id \<and> rr_replay_results run = [] \<and>
     global_version (rr_state run) = global_version st \<and>
     (\<forall>c ch. map_of (channels st) c = Some ch \<longrightarrow> \<not> is_ephemeral ch \<longrightarrow>
        get_channel (rr_state run) c = ch_value ch \<and> channel_version (rr_state run) c = ch_version ch)"
proof -
  let ?extra = "fst (en_provider en st)" and ?t = "co_thread_id co"
  obtain md where md: "with_ephemeral_guard (sb_metadata b) st = Inr md" using guard_accepts[OF assms(5,6)] by blast
  have guard: "checkpoint_ephemeral_guard md = ephemeral_checkpoint_guard st" by (rule guard_survives[OF md assms(5,6)])
  define cp where "cp = (capture_state (en_provider en) st
      (blank_checkpoint\<lparr>cp_id := new_id, cp_thread_id := ?t, cp_metadata := md\<rparr>))
      \<lparr>cp_parent_id := sb_parent_id b, cp_current_node := sb_current_node b, cp_next_nodes := sb_next_nodes b,
       cp_interrupt_phase := Completed, cp_barrier_state := sb_barrier_state b, cp_step := sb_step b, cp_timestamp := now\<rparr>"
  have cp: "boundary_checkpoint co (en_provider en) new_id now st Completed b = Inr cp"
    by (simp add: boundary_checkpoint_def md cp_def)
  have fields: "cp_id cp = new_id" "cp_thread_id cp = ?t" "cp_metadata cp = md" "cp_native cp = None"
    "cp_next_nodes cp = sb_next_nodes b" "cp_barrier_state cp = sb_barrier_state b" "cp_step cp = sb_step b"
    "cp_interrupt_phase cp = Completed" "cp_channel_values cp = extended_snapshot st ?extra"
    by (simp_all add: cp_def capture_state_def assms(11) extended_snapshot_def)
  obtain s1 vals where save: "save_checkpoint cp s = (None, s1)"
    "load_latest s1 ?t = Inr (Some (cp\<lparr>cp_channel_values := vals\<rparr>))" and snap: "loaded_snapshot st ?extra vals"
    using saved_snapshot_loads[OF fields(9) assms(10,7,8)] assms(12) fields(2) by metis
  define s' where "s' = clear_pending_writes co (sb_parent_id b) s1"
  have commit: "commit_super_step co (en_provider en) new_id now st b s = (Inr cp, s')"
    using assms(1) by (simp add: commit_super_step_def cp save(1) s'_def)
  have "get_writes s' ?t new_id = []"
    unfolding s'_def using save_keeps_rows[OF save(1)] assms(13) by (intro clear_keeps_store(3)) simp
  moreover have "load_latest s' ?t = Inr (Some (cp\<lparr>cp_channel_values := vals\<rparr>))"
    unfolding s'_def clear_keeps_store(1) by (rule save(2))
  ultimately have load: "load_for_resume co oc s' = Some (Inr \<lparr>have_cp = True, rc_checkpoint_id = new_id,
      rc_channel_values = vals, rc_native_history = None, rc_metadata = md, rc_start_step = sb_step b + 1,
      rc_phase = Completed, rc_current_node = cp_current_node cp, rc_next_nodes = sb_next_nodes b,
      rc_replay_results = [], rc_barrier_state = sb_barrier_state b, rc_source = Some (cp\<lparr>cp_channel_values := vals\<rparr>)\<rparr>)"
    using completed_context[OF assms(1), of s' "cp\<lparr>cp_channel_values := vals\<rparr>" oc] assms(2-4) fields by simp
  obtain st1 where st1: "en_histories en vals st0 = Inr st1" "channels st1 = channels st0"
    using assms(16) by (auto simp: keeps_channels_def)
  let ?run = "restore_channels (en_trunc en) (\<lambda>ch. \<not> is_ephemeral ch) vals st1"
  have restored: "restore_checkpoint (en_trunc en) (en_histories en) vals (ephemeral_checkpoint_guard st) st0 = Inr ?run"
    using restore_checkpoint_guarded[OF loaded_snapshot_reads(1)[OF snap assms(10)] assms(15)
        init_state_unwritten[OF assms(14)], of "en_trunc en" "en_histories en"] assms(9) st1(1) by simp
  have "get_channel ?run c = ch_value ch \<and> channel_version ?run c = ch_version ch"
    if c: "map_of (channels st) c = Some ch" "\<not> is_ephemeral ch" for c ch
  proof -
    obtain ch0 where "map_of (channels st1) c = Some ch0" "\<not> is_ephemeral ch0"
      using same_lifecycles_find[OF assms(15) c(1)] c(2) st1(2) by (auto simp: is_ephemeral_def)
    then show ?thesis by (rule restore_loaded_snapshot[OF snap assms(10,7) c])
  qed
  moreover have "global_version ?run = global_version st"
    by (simp add: restore_channels_def loaded_snapshot_reads(2)[OF snap assms(10)])
  ultimately show ?thesis
    using commit load restored assms(14) guard by (auto simp: resume_run_def restore_loaded_def)
qed

section \<open>A fork replays what its source replays\<close>

lemma walk_same_rows:
  assumes "collect_loop load rows_of thread ni step cur visited acc = Some r"
  shows "(\<forall>p. rows_of' thread p = rows_of thread p) \<longrightarrow> collect_loop load rows_of' thread ni step cur visited acc = Some r"
proof (rule collect_loop.raw_induct[where P = "\<lambda>load rows_of thread ni step cur visited acc r.
    (\<forall>p. rows_of' thread p = rows_of thread p) \<longrightarrow> collect_loop load rows_of' thread ni step cur visited acc = Some r",
    OF _ assms], goal_cases)
  case (1 walk load rows_of thread ni step cur visited acc r)
  show ?case
  proof
    assume same: "\<forall>p. rows_of' thread p = rows_of thread p"
    then show "collect_loop load rows_of' thread ni step cur visited acc = Some r"
      using 1(2) by (subst collect_loop.simps) (auto split: sum.splits if_splits dest!: 1(1))
  qed
qed

lemma collect_same_rows:
  assumes "collect_resume_writes load rows_of thread cp = Some r" "\<And>p. rows_of' thread p = rows_of thread p"
  shows "collect_resume_writes load rows_of' thread cp = Some r"
  using assms walk_same_rows[of load rows_of thread _ _ cp "[]" "([], [])" r rows_of']
  by (auto simp: collect_resume_writes_def split: sum.splits)

lemma put_rows:
  "load_by_id (fold (put_writes t p) rows s) = load_by_id s"
  "get_writes (fold (put_writes t p) rows s) u q = (if (u, q) = (t, p) then get_writes s t p @ rows else get_writes s u q)"
  by (induction rows arbitrary: s) (auto simp: put_writes_get)

lemma join_blobs_fields: "join_blobs bs cp = Inr cp' \<Longrightarrow> \<exists>v. cp' = cp\<lparr>cp_channel_values := v\<rparr>"
  by (auto simp: join_blobs_def split: if_splits) (metis checkpoint.surjective checkpoint.update_convs(3))

lemma split_blobs_fields: "split_blobs cp bs = (Inr cp', bs') \<Longrightarrow> \<exists>v. cp' = cp\<lparr>cp_channel_values := v\<rparr>"
  by (auto simp: split_blobs_def split: if_splits prod.splits sum.splits)
    (metis checkpoint.surjective checkpoint.update_convs(3))

lemma save_load_fields:
  assumes "save_checkpoint cp s = (None, s')" "load_by_id s' (cp_id cp) = Inr (Some f)"
  shows "\<exists>v. f = cp\<lparr>cp_channel_values := v\<rparr>"
proof -
  obtain shell bs where split: "split_blobs cp (blobs s) = (Inr shell, bs)" "map_of (by_id s') (cp_id shell) = Some shell"
    "blobs s' = bs"
    using assms(1) by (auto simp: save_checkpoint_def Let_def split: prod.splits sum.splits)
  from split_blobs_fields[OF split(1)] obtain v where v: "shell = cp\<lparr>cp_channel_values := v\<rparr>" by blast
  with assms(2) split(2) have "join_blobs bs shell = Inr f" by (simp add: load_by_id_def split(3))
  from join_blobs_fields[OF this] v show ?thesis by auto
qed

lemma resume_phase_values: "checkpoint_resume_phase (cp\<lparr>cp_channel_values := v\<rparr>) = checkpoint_resume_phase cp"
  unfolding checkpoint_resume_phase_def Let_def by simp

lemma forked_fields:
  "cp_interrupt_phase (forked_checkpoint en i now src new st cp) = cp_interrupt_phase cp"
  "cp_metadata (forked_checkpoint en i now src new st cp) = forked_metadata src cp"
  "cp_parent_id (forked_checkpoint en i now src new st cp) = cp_id cp"
  "cp_id (forked_checkpoint en i now src new st cp) = i" "cp_thread_id (forked_checkpoint en i now src new st cp) = new"
  "cp_step (forked_checkpoint en i now src new st cp) = cp_step cp"
  "cp_schema_version (forked_checkpoint en i now src new st cp) = CHECKPOINT_SCHEMA_VERSION"
  by (simp_all add: forked_checkpoint_def capture_state_def blank_checkpoint_def)

lemma forked_resume_phase: "checkpoint_resume_phase (forked_checkpoint en i now src new st cp) = checkpoint_resume_phase cp"
  unfolding checkpoint_resume_phase_def Let_def forked_fields forked_metadata_def by simp

lemma fork_stops_walk:
  assumes "src \<noteq> []" "src \<noteq> new" "cp_id cp \<noteq> i"
  shows "(case checkpoint_resume_phase cp of Inl e \<Rightarrow> True | Inr _ \<Rightarrow>
     pause_chain_continues ((forked_checkpoint en i now src new st cp)\<lparr>cp_channel_values := v\<rparr>) step new = Inr False)"
proof (cases "checkpoint_resume_phase cp")
  case (Inr phase)
  let ?f = "(forked_checkpoint en i now src new st cp)\<lparr>cp_channel_values := v\<rparr>"
  have phase: "checkpoint_resume_phase ?f = Inr phase"
    using forked_resume_phase[of en i now src new st cp] Inr by (simp only: resume_phase_values)
  have "is_external_resume_boundary ?f new" if "cp_id cp \<noteq> []"
    using that assms by (simp add: is_external_resume_boundary_def forked_fields forked_metadata_def
        json_value_def Let_def)
  then show ?thesis using Inr phase assms(3)
    by (auto simp: pause_chain_continues_def forked_fields)
qed simp

lemma by_task_Cons: "by_task [] t = None" "by_task (r # rows) t = (if pw_task_id r = t then Some r else by_task rows t)"
  by (simp_all add: by_task_def)

lemma by_task_rev: "distinct (map pw_task_id rows) \<Longrightarrow> by_task (rev rows) t = by_task rows t"
proof (induction rows)
  case (Cons r rows)
  then have "pw_task_id r = t \<Longrightarrow> by_task rows t = None" by (auto simp: by_task_None)
  with Cons show ?case by (cases "by_task rows t") (auto simp: by_task_append by_task_single by_task_Cons)
qed simp

lemma forkE:
  assumes "fork en new_id now src new checkpoint_id s = Some (Inr i, s')"
  obtains cp st s1 rows where "(if checkpoint_id = [] then load_latest s src else load_by_id s checkpoint_id) = Inr (Some cp)"
    "cp_thread_id cp = src" "i = new_id" "save_checkpoint (forked_checkpoint en new_id now src new st cp) s = (None, s1)"
    "resume_pending_writes s1 cp = Some (Inr rows)" "s' = fold (put_writes new new_id) rows s1" "new_id \<noteq> []" "new \<noteq> []"
proof -
  from assms obtain cp f s1 r where load:
    "(if checkpoint_id = [] then load_latest s src else load_by_id s checkpoint_id) = Inr (Some cp)"
    "prepare_fork en new_id now src new cp = Inr f" "save_checkpoint f s = (None, s1)"
    "copy_resume_pending_writes cp f s1 = Some (r, s')" "(case r of Some e \<Rightarrow> Inl e | None \<Rightarrow> Inr new_id) = Inr i"
    unfolding fork_def by (auto simp: raise_error_def split: if_splits sum.splits option.splits prod.splits)
  from load(2) obtain st where f: "f = forked_checkpoint en new_id now src new st cp" "cp_thread_id cp = src"
    by (auto simp: prepare_fork_def raise_error_def split: if_splits)
  have r: "r = None" "i = new_id" using load(5) by (auto split: option.splits)
  obtain z where z: "resume_pending_writes s1 cp = Some z" "new_id \<noteq> []" "new \<noteq> []"
    "(None, s') = (case z of Inl e \<Rightarrow> (Some e, s1) | Inr rows \<Rightarrow> (None, fold (put_writes new new_id) rows s1))"
    using load(4) r(1) by (auto simp: copy_resume_pending_writes_def f(1) forked_fields split: if_splits)
  then obtain rows where "z = Inr rows" "s' = fold (put_writes new new_id) rows s1" by (cases z) auto
  with z f load(1,3) r(2) show thesis by (intro that[of cp st s1 rows]) simp_all
qed

lemma collected_rows_in_step:
  assumes "collect_resume_writes load rows_of thread cp = Some (Inr rows)" "checkpoint_resume_phase cp = Inr NodeInterrupt"
    "r \<in> set rows"
  shows "pw_step r = cp_step cp"
proof -
  from collect_resume_result[OF assms(1)] obtain phase chain where "checkpoint_resume_phase cp = Inr phase"
    "pause_chain load thread (cp_step cp) cp chain" and
    chain: "distinct (map pw_task_id rows)"
    "\<forall>t. by_task rows t = by_task (concat (map (offered_rows rows_of thread (phase = NodeInterrupt) (cp_step cp)) chain)) t"
    by blast
  then have phase: "phase = NodeInterrupt" using assms(2) by simp
  have "r \<in> set (concat (map (offered_rows rows_of thread True (cp_step cp)) chain))"
    using mem_by_task[OF assms(3) chain(1)] chain(2) unfolding phase by (intro by_task_mem) simp
  then show ?thesis by (auto simp: offered_rows_def split: sum.splits)
qed

text \<open>C13: A fork replays what its source replays. After a fork of a checkpoint onto another thread, resuming
  the forked checkpoint replays, for every task, the very result that resuming the source would replay, also
  when the source is a pause whose results are spread over a chain of earlier pauses that the fork's own
  ancestry does not reach.\<close>

theorem fork_replays_source:
  assumes "fork en new_id now src new checkpoint_id s = Some (Inr i, s')"
    and "(if checkpoint_id = [] then load_latest s src else load_by_id s checkpoint_id) = Inr (Some cp)"
    and "src \<noteq> []" "src \<noteq> new" "cp_id cp \<noteq> new_id" "get_writes s new new_id = []"
    and "load_by_id s' i = Inr (Some forked)"
  shows "\<exists>rows rows'. resume_pending_writes s' cp = Some (Inr rows) \<and>
     resume_pending_writes s' forked = Some (Inr rows') \<and> by_task rows' = by_task rows"
proof -
  from forkE[OF assms(1)] assms(2) obtain st s1 rows where cp: "cp_thread_id cp = src" "i = new_id"
    and save: "save_checkpoint (forked_checkpoint en new_id now src new st cp) s = (None, s1)"
    and rows: "resume_pending_writes s1 cp = Some (Inr rows)" and s': "s' = fold (put_writes new new_id) rows s1"
    and ids: "new_id \<noteq> []" "new \<noteq> []" by (metis Inr_inject option.inject)
  let ?f = "forked_checkpoint en new_id now src new st cp"
  have load: "load_by_id s' = load_by_id s1" unfolding s' by (rule put_rows(1))
  have "collect_resume_writes (load_by_id s') (stored_rows s') src cp = Some (Inr rows)"
    unfolding load by (rule collect_same_rows[where rows_of = "stored_rows s1"])
      (use rows cp(1) assms(4) in \<open>simp_all add: resume_pending_writes_def s' put_rows(2)\<close>)
  then have source: "resume_pending_writes s' cp = Some (Inr rows)" by (simp add: resume_pending_writes_def cp(1))
  obtain v where f: "forked = ?f\<lparr>cp_channel_values := v\<rparr>"
    using save_load_fields[OF save, of forked] assms(7) load by (auto simp: cp(2) forked_fields)
  obtain phase where phase: "checkpoint_resume_phase cp = Inr phase"
    using rows by (auto simp: resume_pending_writes_def collect_resume_writes_def split: sum.splits)
  have phase_f: "checkpoint_resume_phase forked = Inr phase"
    unfolding f resume_phase_values forked_resume_phase by (rule phase)
  have stop: "pause_chain_continues forked (cp_step cp) new = Inr False"
    using fork_stops_walk[OF assms(3,4,5), where en = en and now = now and st = st and v = v and step = "cp_step cp"] unfolding f by (simp add: phase)
  have stored: "get_writes s' new new_id = rows"
    using save_keeps_rows[OF save] assms(6) by (simp add: s' put_rows(2))
  define rows' where "rows' = snd (select_newest_rows rows (phase = NodeInterrupt) (cp_step cp) ([], []))"
  have "collect_loop (load_by_id s') (stored_rows s') new (phase = NodeInterrupt) (cp_step cp) forked [] ([], []) = Some (Inr rows')"
    using ids stop stored
    by (subst collect_loop.simps) (simp add: f forked_fields require_visitable_def rows'_def)
  then have target: "resume_pending_writes s' forked = Some (Inr rows')"
    by (simp add: resume_pending_writes_def collect_resume_writes_def phase_f) (simp add: f forked_fields)
  have collected: "collect_resume_writes (load_by_id s1) (stored_rows s1) src cp = Some (Inr rows)"
    using rows by (simp add: resume_pending_writes_def cp(1))
  then have in_step: "filter (\<lambda>r. phase = NodeInterrupt \<longrightarrow> pw_step r = cp_step cp) (rev rows) = rev rows"
    using collected_rows_in_step[OF collected] phase by (auto intro!: filter_True)
  have dist: "distinct (map pw_task_id rows)" using collect_resume_result[OF collected] by blast
  have "by_task rows' t = by_task rows t" for t
    using select_newest_by_task(2)[of "([], [])" "stored_rows s'" new forked rows "phase = NodeInterrupt" "cp_step cp" t]
      stored in_step by_task_rev[OF dist, of t]
    by (simp add: rows'_def selection_ok_def offered_rows_def f forked_fields)
  then show ?thesis using source target by blast
qed

lemma update_savedE:
  assumes "load_latest s thread = Inr (Some cp)" "update_state_writes en new_id now thread writes [] s = (None, s')"
  obtains st phase where "checkpoint_resume_phase cp = Inr phase"
    "save_checkpoint (updated_checkpoint en new_id now thread [] phase st cp) s = (None, s')"
proof -
  from assms obtain u where u: "prepare_update en new_id now thread writes [] cp = Inr u" "save_checkpoint u s = (None, s')"
    by (auto simp: update_state_writes_def split: if_splits sum.splits)
  from u(1) obtain st1 where ended: "(case apply_writes (en_codec en) writes st1 of
        (Some e, st) \<Rightarrow> Inl e
      | (None, st) \<Rightarrow>
          if writes_ephemeral st then raise_error RuntimeError ''Cannot update checkpoint with ephemeral channel write''
          else bind_result (if ([] :: string) = [] then checkpoint_resume_phase cp else Inr Updated) (\<lambda>phase.
            Inr (updated_checkpoint en new_id now thread [] phase st cp))) = Inr u"
    unfolding prepare_update_def bind_result_eq_Inr by auto
  obtain r st where "apply_writes (en_codec en) writes st1 = (r, st)" by (metis prod.exhaust)
  then show thesis using ended u(2) that by (auto simp: raise_error_def split: option.splits if_splits)
qed


section \<open>An example\<close>

definition counter_engine :: "(unit, unit) engine" where
  "counter_engine =
     \<lparr>en_has_store = True,
      en_channel_defs = [\<lparr>cd_name = ''x'', cd_type = OVERWRITE, cd_reducer_name = ''overwrite'', cd_initial_value = JUint 0,
        cd_has_initial = True, cd_retention = Unbounded, cd_retention_limit = 0, cd_persistence = Checkpointed\<rparr>],
      en_reducer = (\<lambda>_. Inr reducer_overwrite),
      en_codec = \<lparr>mc_project = (\<lambda>_. JNull), mc_portable = (\<lambda>_. Inr ()), mc_native = (\<lambda>_. None)\<rparr>,
      en_provider = (\<lambda>_. ([], None)), en_trunc = id, en_histories = (\<lambda>_ st. Inr st),
      en_restore_native = (\<lambda>_ _ _ st. Inr st)\<rparr>"

definition counter_state :: "json \<Rightarrow> u64 \<Rightarrow> unit graph_state" where
  "counter_state v n =
     \<lparr>channels = [(''x'', \<lparr>ch_reducer_type = OVERWRITE, ch_reducer = reducer_overwrite,
         ch_lifecycle = \<lparr>retention = Unbounded, retention_limit = 0, persistence = Checkpointed\<rparr>,
         ch_value = v, ch_version = n\<rparr>)], global_version = n, provider_histories = []\<rparr>"

definition counter_coordinator :: coordinator where
  "counter_coordinator = \<lparr>co_has_store = True, co_thread_id = ''t'', co_native_memory = False\<rparr>"

definition counter_codec :: "unit outcome_codec" where
  "counter_codec = \<lparr>oc_observe = (\<lambda>_. JNull), oc_encode = (\<lambda>_ _. Inr JNull), oc_decode = (\<lambda>_ _. Inr []), oc_dump = (\<lambda>_. [])\<rparr>"

definition counter_boundary :: step_boundary where
  "counter_boundary = \<lparr>sb_current_node = ''a'', sb_next_nodes = [''b''], sb_step = 3, sb_parent_id = [],
     sb_barrier_state = [(''j'', [''a''])], sb_metadata = JNull\<rparr>"

lemma counter_init: "init_state counter_engine = Inr (counter_state (JUint 0) 0)"
  by (simp add: init_state_def counter_engine_def init_channel_def initial_value_of_def lifecycle_of_def
      apply_retention_def empty_state_def counter_state_def)

lemma counter_snapshot: "snapshot_entries (counter_state v n) = [(''x'', JObject [(''value'', v), (''version'', JUint n)])]"
  by (simp add: snapshot_entries_def counter_state_def channel_entry_def is_ephemeral_def)

lemma counter_checks:
  "smap_ok (channels (counter_state v n))" "\<not> ephemeral_written (counter_state v n)"
  "same_lifecycles (counter_state v n) (counter_state w m)" "foreign_members (fst (en_provider counter_engine st))"
  "snd (en_provider counter_engine st) = None" "keeps_channels (en_histories counter_engine) st"
  by (simp_all add: counter_state_def ephemeral_written_def is_ephemeral_def same_lifecycles_def foreign_members_def
      counter_engine_def keeps_channels_def)

lemma counter_unshadowed: "unshadowed empty_store ''t'' st"
  by (simp add: unshadowed_def empty_store_def)

lemma empty_store_rows: "get_writes empty_store t i = []"
  by (simp add: get_writes_def empty_store_def)

theorem committed_step_resumes_witness:
  "\<exists>cp s' rc run. commit_super_step counter_coordinator (en_provider counter_engine) ''c1'' 0
       (counter_state (JUint 7) 5) counter_boundary empty_store = (Inr cp, s') \<and>
     load_for_resume counter_coordinator counter_codec s' = Some (Inr rc) \<and> resume_run counter_engine rc = Inr run \<and>
     rr_start_step run = 4 \<and> rr_ready run = [''b''] \<and> rr_barrier_state run = [(''j'', [''a''])] \<and>
     get_channel (rr_state run) ''x'' = JUint 7"
proof -
  let ?st = "counter_state (JUint 7) 5"
  have ch: "\<exists>ch. map_of (channels ?st) ''x'' = Some ch \<and> \<not> is_ephemeral ch \<and> ch_value ch = JUint 7"
    by (simp add: counter_state_def is_ephemeral_def)
  have co: "co_enabled counter_coordinator" "co_thread_id counter_coordinator = ''t''"
    by (simp_all add: co_enabled_def counter_coordinator_def)
  have b: "sb_step counter_boundary = 3" "sb_metadata counter_boundary = JNull" "sb_next_nodes counter_boundary = [''b'']"
    "sb_barrier_state counter_boundary = [(''j'', [''a''])]" by (simp_all add: counter_boundary_def)
  obtain cp s' rc run where run: "commit_super_step counter_coordinator (en_provider counter_engine) ''c1'' 0 ?st counter_boundary
      empty_store = (Inr cp, s')" "load_for_resume counter_coordinator counter_codec s' = Some (Inr rc)"
    "resume_run counter_engine rc = Inr run" "rr_start_step run = sb_step counter_boundary + 1"
    "rr_ready run = sb_next_nodes counter_boundary" "rr_barrier_state run = sb_barrier_state counter_boundary"
    "\<forall>c ch. map_of (channels ?st) c = Some ch \<longrightarrow> \<not> is_ephemeral ch \<longrightarrow>
        get_channel (rr_state run) c = ch_value ch \<and> channel_version (rr_state run) c = ch_version ch"
    using committed_step_resumes[OF co(1), where new_id = "''c1''" and b = counter_boundary and st = ?st and en = counter_engine
        and s = empty_store and st0 = "counter_state (JUint 0) 0" and now = 0 and oc = counter_codec,
        unfolded co(2) b(1,2), OF _ _ _ _ _ counter_checks(1) _ counter_checks(2,4,5) counter_unshadowed empty_store_rows
        counter_init counter_checks(3,6)]
    by (auto simp: counter_snapshot int_max_def b)
  have "get_channel (rr_state run) ''x'' = JUint 7" using run(7) ch by metis
  with run b show ?thesis by (intro exI[of _ cp] exI[of _ s'] exI[of _ rc] exI[of _ run]) simp
qed

text \<open>A thread paused in a step: the second checkpoint is the pause, and the step's results are under both.\<close>

definition pausing_store :: "(unit, unit) memory_checkpoints" where
  "pausing_store = snd (save_checkpoint (paused_checkpoint ''c2'' ''c1'' NodeInterrupt) paused_store)"

definition bump :: "unit channel_write" where
  "bump = \<lparr>cw_channel = ''x'', cw_value = JUint 3, cw_mode = Reduce, cw_native = None\<rparr>"

lemma pausing_latest:
  "case load_latest pausing_store ''t'' of
     Inr (Some cp) \<Rightarrow> cp_id cp = ''c2'' \<and> cp_step cp = 0 \<and> is_null (cp_metadata cp) | _ \<Rightarrow> False"
  by code_simp

definition loads :: "('n, 'm) memory_checkpoints \<Rightarrow> string \<Rightarrow> bool" where
  "loads s i = (case load_by_id s i of Inr (Some f) \<Rightarrow> True | _ \<Rightarrow> False)"

lemma loads_iff: "loads s i \<longleftrightarrow> (\<exists>f. load_by_id s i = Inr (Some f))"
  by (auto simp: loads_def split: sum.splits option.splits)

lemma case_forkedD: "(case r of Some (Inr i, s') \<Rightarrow> P i s' | _ \<Rightarrow> False) \<Longrightarrow> \<exists>i s'. r = Some (Inr i, s') \<and> P i s'"
proof (cases r)
  case (Some q)
  moreover assume "case r of Some (Inr i, s') \<Rightarrow> P i s' | _ \<Rightarrow> False"
  ultimately show ?thesis by (cases q; cases "fst q") simp_all
qed simp

lemma pausing_store_forks:
  "case fork counter_engine ''f'' 9 ''t'' ''u'' [] pausing_store of
     Some (Inr i, s') \<Rightarrow> i = ''f'' \<and> loads s' i
   | _ \<Rightarrow> False"
  by code_simp

lemma pausing_rows: "get_writes pausing_store ''u'' ''f'' = []"
  by code_simp

lemma pausing_store_updates:
  "case update_state_writes counter_engine ''d'' 9 ''t'' [bump] [] pausing_store of
     (None, s') \<Rightarrow> loads s' ''d'' | _ \<Rightarrow> False"
  by code_simp

theorem fork_replays_source_witness:
  "\<exists>cp s' forked rows rows'. load_latest pausing_store ''t'' = Inr (Some cp) \<and>
     fork counter_engine ''f'' 9 ''t'' ''u'' [] pausing_store = Some (Inr ''f'', s') \<and>
     load_by_id s' ''f'' = Inr (Some forked) \<and> resume_pending_writes s' cp = Some (Inr rows) \<and>
     resume_pending_writes s' forked = Some (Inr rows') \<and> by_task rows' = by_task rows"
proof -
  obtain cp where cp: "load_latest pausing_store ''t'' = Inr (Some cp)" "cp_id cp = ''c2''"
    using pausing_latest by (auto split: sum.split_asm option.split_asm)
  obtain s' forked where f: "fork counter_engine ''f'' 9 ''t'' ''u'' [] pausing_store = Some (Inr ''f'', s')"
    "load_by_id s' ''f'' = Inr (Some forked)"
    using case_forkedD[OF pausing_store_forks] unfolding loads_iff by blast
  have "\<exists>rows rows'. resume_pending_writes s' cp = Some (Inr rows) \<and>
      resume_pending_writes s' forked = Some (Inr rows') \<and> by_task rows' = by_task rows"
    by (rule fork_replays_source[OF f(1) _ _ _ _ pausing_rows f(2)]) (simp_all add: cp)
  with cp(1) f show ?thesis by blast
qed


end
