(* ===== verification/NG_Bits.thy ===== *)
theory NG_Bits
  imports NG_Prelude
begin

text \<open>
  Sets of node indices as vectors of 64-bit words (\<open>Words\<close> in
  \<open>src/src/core/graph_soundness.cpp\<close>). The locale \<open>index_set\<close> is what the soundness checker
  relies on; it is interpreted on vectors of a fixed number of words.
\<close>

unbundle bit_operations_syntax

section \<open>Operations\<close>

type_synonym words = "u64 list"

definition zero_words :: "nat \<Rightarrow> words" where
  "zero_words n = replicate n 0"

definition bit_at :: "words \<Rightarrow> nat \<Rightarrow> bool" where
  "bit_at ws i = bit (ws ! (i div 64)) (i mod 64)"

definition set_bit_at :: "words \<Rightarrow> nat \<Rightarrow> words" where
  "set_bit_at ws i = ws[i div 64 := (ws ! (i div 64)) OR push_bit (i mod 64) 1]"

definition no_bits :: "words \<Rightarrow> bool" where
  "no_bits ws = list_all (\<lambda>w. w = 0) ws"

fun intersects :: "words \<Rightarrow> words \<Rightarrow> bool" where
  "intersects (l # ls) (r # rs) = (l AND r \<noteq> 0 \<or> intersects ls rs)"
| "intersects _ _ = False"

definition or_words :: "words \<Rightarrow> words \<Rightarrow> words" where
  "or_words ls rs = map2 (\<lambda>l r. l OR r) ls rs"

section \<open>The set a vector stands for\<close>

definition bits_of :: "words \<Rightarrow> nat set" where
  "bits_of ws = {i. i < 64 * length ws \<and> bit_at ws i}"

lemma length_zero_words [simp]: "length (zero_words n) = n"
  by (simp add: zero_words_def)

lemma length_set_bit_at [simp]: "length (set_bit_at ws i) = length ws"
  by (simp add: set_bit_at_def)

lemma length_or_words [simp]: "length ls = length rs \<Longrightarrow> length (or_words ls rs) = length rs"
  by (simp add: or_words_def)

lemma bits_zero [simp]: "bits_of (zero_words n) = {}"
  by (auto simp: bits_of_def bit_at_def zero_words_def less_mult_imp_div_less mult.commute)

lemma word_index: "i < 64 * length ws \<Longrightarrow> i div 64 < length ws" for ws :: words
  by (simp add: less_mult_imp_div_less mult.commute)

lemma bit_at_bits: "i < 64 * length ws \<Longrightarrow> bit_at ws i \<longleftrightarrow> i \<in> bits_of ws"
  by (simp add: bits_of_def)

lemma bits_set [simp]: "i < 64 * length ws \<Longrightarrow> bits_of (set_bit_at ws i) = insert i (bits_of ws)"
proof -
  assume i: "i < 64 * length ws"
  have "bit_at (set_bit_at ws i) j \<longleftrightarrow> j = i \<or> bit_at ws j" if "j < 64 * length ws" for j
  proof (cases "j div 64 = i div 64")
    case True
    then have "j mod 64 = i mod 64 \<longleftrightarrow> j = i" by (metis div_mult_mod_eq)
    moreover have "j mod 64 < LENGTH(64)" by simp
    ultimately show ?thesis
      using True word_index[OF i] by (auto simp: bit_at_def set_bit_at_def bit_simps)
  next
    case False
    then have "j \<noteq> i" by auto
    with False show ?thesis by (simp add: bit_at_def set_bit_at_def)
  qed
  with i show ?thesis by (auto simp: bits_of_def)
qed

lemma word_zero_iff: "(w :: u64) = 0 \<longleftrightarrow> (\<forall>k < 64. \<not> bit w k)"
  by (auto intro: bit_word_eqI)

lemma no_bits_iff: "no_bits ws \<longleftrightarrow> bits_of ws = {}"
proof
  assume "no_bits ws"
  then show "bits_of ws = {}"
    by (auto simp: no_bits_def list_all_length bits_of_def bit_at_def word_index)
next
  assume empty: "bits_of ws = {}"
  have "\<not> bit (ws ! j) k" if "j < length ws" "k < 64" for j k
  proof -
    have "64 * j + k < 64 * length ws" using that by linarith
    moreover have "(64 * j + k) div 64 = j" "(64 * j + k) mod 64 = k" using that by simp_all
    ultimately show ?thesis using empty by (auto simp: bits_of_def bit_at_def)
  qed
  then show "no_bits ws" by (simp add: no_bits_def list_all_length word_zero_iff)
qed

lemma intersects_nth: "length ls = length rs \<Longrightarrow> intersects ls rs \<longleftrightarrow> (\<exists>j < length ls. ls ! j AND rs ! j \<noteq> 0)"
  by (induction ls rs rule: list_induct2) (auto simp: less_Suc_eq_0_disj)

lemma intersects_iff:
  assumes "length ls = length rs"
  shows "intersects ls rs \<longleftrightarrow> bits_of ls \<inter> bits_of rs \<noteq> {}"
proof
  assume "intersects ls rs"
  then obtain j where j: "j < length ls" "ls ! j AND rs ! j \<noteq> 0" using intersects_nth[OF assms] by blast
  then obtain k where k: "k < 64" "bit (ls ! j AND rs ! j) k" unfolding word_zero_iff by blast
  have "64 * j + k < 64 * length ls" using j(1) k(1) by linarith
  moreover have "(64 * j + k) div 64 = j" "(64 * j + k) mod 64 = k" using k(1) by simp_all
  ultimately have "64 * j + k \<in> bits_of ls \<inter> bits_of rs"
    using k(2) assms by (simp add: bits_of_def bit_at_def bit_simps)
  then show "bits_of ls \<inter> bits_of rs \<noteq> {}" by blast
next
  assume "bits_of ls \<inter> bits_of rs \<noteq> {}"
  then obtain i where i: "i < 64 * length ls" "bit_at ls i" "bit_at rs i" by (auto simp: bits_of_def)
  then have "bit (ls ! (i div 64) AND rs ! (i div 64)) (i mod 64)" by (simp add: bit_at_def bit_simps)
  then have "ls ! (i div 64) AND rs ! (i div 64) \<noteq> 0" by (metis bit_0_eq bot_apply bot_bool_def)
  then show "intersects ls rs" using intersects_nth[OF assms] word_index[OF i(1)] by blast
qed

lemma bits_or [simp]: "length ls = length rs \<Longrightarrow> bits_of (or_words ls rs) = bits_of ls \<union> bits_of rs"
  by (auto simp: bits_of_def bit_at_def or_words_def word_index bit_simps)

lemma bits_inj:
  assumes "length ls = length rs" "bits_of ls = bits_of rs"
  shows "ls = rs"
proof (rule nth_equalityI)
  fix j assume j: "j < length ls"
  show "ls ! j = rs ! j"
  proof (rule bit_word_eqI)
    fix k assume k: "k < LENGTH(64)"
    have "64 * j + k < 64 * length ls" using j k by simp
    moreover have "(64 * j + k) div 64 = j" "(64 * j + k) mod 64 = k" using k by simp_all
    ultimately show "bit (ls ! j) k \<longleftrightarrow> bit (rs ! j) k"
      using assms(2)[THEN eqset_imp_iff, of "64 * j + k"] assms(1) by (simp add: bits_of_def bit_at_def)
  qed
qed (use assms in simp)

section \<open>The interface\<close>

locale index_set =
  fixes ok :: "'b \<Rightarrow> bool" and set_of :: "'b \<Rightarrow> nat set" and capacity :: nat
    and none :: 'b and add :: "'b \<Rightarrow> nat \<Rightarrow> 'b" and has :: "'b \<Rightarrow> nat \<Rightarrow> bool"
    and join :: "'b \<Rightarrow> 'b \<Rightarrow> 'b" and meets :: "'b \<Rightarrow> 'b \<Rightarrow> bool" and is_none :: "'b \<Rightarrow> bool"
  assumes none_ok: "ok none" and none_set: "set_of none = {}"
    and add_ok: "ok b \<Longrightarrow> ok (add b i)"
    and add_set: "ok b \<Longrightarrow> i < capacity \<Longrightarrow> set_of (add b i) = insert i (set_of b)"
    and has_iff: "ok b \<Longrightarrow> i < capacity \<Longrightarrow> has b i \<longleftrightarrow> i \<in> set_of b"
    and join_ok: "ok a \<Longrightarrow> ok b \<Longrightarrow> ok (join a b)"
    and join_set: "ok a \<Longrightarrow> ok b \<Longrightarrow> set_of (join a b) = set_of a \<union> set_of b"
    and meets_iff: "ok a \<Longrightarrow> ok b \<Longrightarrow> meets a b \<longleftrightarrow> set_of a \<inter> set_of b \<noteq> {}"
    and is_none_iff: "ok b \<Longrightarrow> is_none b \<longleftrightarrow> set_of b = {}"
    and set_inj: "ok a \<Longrightarrow> ok b \<Longrightarrow> set_of a = set_of b \<Longrightarrow> a = b"
begin

lemma add_list_ok: "ok b \<Longrightarrow> ok (fold (\<lambda>i b. add b i) is b)"
  by (induction "is" arbitrary: b) (simp_all add: add_ok)

lemma add_list_set:
  "ok b \<Longrightarrow> set is \<subseteq> {..<capacity} \<Longrightarrow> set_of (fold (\<lambda>i b. add b i) is b) = set is \<union> set_of b"
  by (induction "is" arbitrary: b) (simp_all add: add_ok add_set)

lemma filled_iff:
  "list_all ok slots \<Longrightarrow> ok b \<Longrightarrow>
     list_all (\<lambda>s. meets s b) slots \<longleftrightarrow> (\<forall>s \<in> set slots. \<exists>i \<in> set_of s. i \<in> set_of b)"
  by (induction slots) (auto simp: meets_iff)

end

interpretation node_bits: index_set "\<lambda>ws. length ws = n" bits_of "64 * n" "zero_words n" set_bit_at bit_at or_words
    intersects no_bits for n
  by unfold_locales (auto simp: no_bits_iff intersects_iff bit_at_bits intro: bits_inj)

end
