(* ===== verification/NG_Skeleton.thy ===== *)
theory NG_Skeleton
  imports NG_Scheduler NG_Failure NG_Bits
begin

text \<open>
  The control skeleton the soundness check explores (\<open>src/src/core/graph_soundness.cpp\<close>, the
  model and the states): what a topology's nodes may do in a super-step, and one super-step for one
  choice of routes. The registry's effect contracts and condition declarations are the parameters
  \<open>effects_of\<close> and \<open>conditions\<close>. A node is its position among the node names, which the
  topology's map visits in order; \<open>kEndTarget\<close> is the end of the run.
\<close>

section \<open>Topologies\<close>

text \<open>The parts of \<open>TopologySpec\<close> that the check reads.\<close>

record topology =
  tp_channel_defs :: "channel_def list"
  tp_edges :: "edge list"
  tp_conditional_edges :: "conditional_edge list"
  tp_barrier_specs :: barrier_specs
  tp_join_specs :: join_specs
  tp_node_defs :: "(string \<times> json) list"
  tp_retry_policies :: "(string \<times> retry_policy_spec) list"
  tp_failure_edges :: "failure_edge list"
  tp_failure_exits :: "(string \<times> string) list"

section \<open>The model\<close>

definition kEndTarget :: int where
  "kEndTarget = -1"

datatype option_kind = KNormal | KFailure | KVisitLimit | KFails

record route_option =
  ro_kind :: option_kind
  ro_label :: string
  ro_targets :: "int list"
  ro_explicit_end :: bool
  ro_failure_exit :: bool

record node_model =
  nm_name :: string
  nm_type :: string
  nm_normal :: "route_option list"
  nm_failure_target :: "nat option"
  nm_failure_exit :: bool
  nm_max_visits :: int
  nm_visit_slot :: "nat option"
  nm_resets :: "nat list"
  nm_control :: "string list"

record join_model =
  jm_node :: nat
  jm_slots :: "string list list"
  jm_slot_bits :: "words list"
  jm_members :: words

record skeleton =
  sk_nodes :: "node_model list"
  sk_joins :: "join_model list"
  sk_join_of :: "nat option list"
  sk_start :: "nat list"
  sk_visit_nodes :: "nat list"
  sk_words :: nat
  sk_effects_known :: bool
  sk_channel_writers :: "(string \<times> words) list"
  sk_e5_pairs :: "(nat \<times> nat) list"

section \<open>Building the model\<close>

definition node_names :: "topology \<Rightarrow> string list" where
  "node_names tp = map fst (tp_node_defs tp)"

definition node_index :: "string list \<Rightarrow> string \<Rightarrow> nat option" where
  "node_index names name = map_of (zip names [0..<length names]) name"

definition index_of :: "string list \<Rightarrow> string \<Rightarrow> int option" where
  "index_of names name = (if name = END_NODE then Some kEndTarget else map_option int (node_index names name))"

text \<open>The index of a target that is a node: \<open>index_of(name) >= 0\<close>.\<close>

definition index_of_node :: "string list \<Rightarrow> string \<Rightarrow> nat option" where
  "index_of_node names name =
     (case index_of names name of None \<Rightarrow> None | Some i \<Rightarrow> if i \<ge> 0 then Some (nat i) else None)"

definition words_for :: "string list \<Rightarrow> nat" where
  "words_for names = max 1 ((length names + 63) div 64)"

definition type_of_definition :: "json \<Rightarrow> string" where
  "type_of_definition d =
     (if is_object d \<and> json_contains d ''type'' then (case json_get d ''type'' of JString s \<Rightarrow> s | _ \<Rightarrow> []) else [])"

definition strings_in :: "json \<Rightarrow> string list" where
  "strings_in j = concat (map (\<lambda>x. case x of JString s \<Rightarrow> [s] | _ \<Rightarrow> []) (json_elems j))"

definition effect_list :: "json \<Rightarrow> string \<Rightarrow> string list" where
  "effect_list effects field =
     (if is_object effects \<and> json_contains effects field \<and> is_array (json_get effects field)
      then strings_in (json_get effects field) else [])"

definition declared_control :: "json \<Rightarrow> string list" where
  "declared_control effects =
     sset_of (filter (\<lambda>v. v = ''goto'' \<or> v = ''send'') (effect_list effects ''control''))"

definition reducer_of :: "topology \<Rightarrow> string \<Rightarrow> reducer_type option" where
  "reducer_of tp channel = map_option cd_type (find (\<lambda>d. cd_name d = channel) (rev (tp_channel_defs tp)))"

definition add_writer :: "topology \<Rightarrow> nat \<Rightarrow> string \<Rightarrow> (string \<times> words) list \<Rightarrow> (string \<times> words) list" where
  "add_writer tp u channel writers =
     (if reducer_of tp channel = Some OVERWRITE
      then smap_put channel
             (set_bit_at (case map_of writers channel of None \<Rightarrow> zero_words (words_for (node_names tp)) | Some b \<Rightarrow> b) u)
             writers
      else writers)"

definition channel_writers :: "(string \<Rightarrow> json) \<Rightarrow> topology \<Rightarrow> (string \<times> words) list" where
  "channel_writers effects_of tp =
     fold (\<lambda>(u, name, d). fold (add_writer tp u) (effect_list (effects_of (type_of_definition d)) ''writes''))
       (enumerate 0 (tp_node_defs tp)) []"

definition e5_pairs :: "topology \<Rightarrow> (nat \<times> nat) list" where
  "e5_pairs tp =
     concat (map (\<lambda>e. concat (map (\<lambda>f.
       case (index_of_node (node_names tp) (edge_to e), index_of_node (node_names tp) (edge_to f)) of
         (Some a, Some b) \<Rightarrow> if edge_from e = edge_from f \<and> a < b then [(a, b)] else []
       | _ \<Rightarrow> []) (tp_edges tp))) (tp_edges tp))"

fun route_options :: "string list \<Rightarrow> condition_spec option \<Rightarrow> (string \<times> string) list \<Rightarrow> int list \<Rightarrow> route_option list" where
  "route_options names spec [] seen = []"
| "route_options names spec ((key, target) # rs) seen =
     (if outside_closed_contract spec key then route_options names spec rs seen
      else case index_of names target of
             None \<Rightarrow> route_options names spec rs seen
           | Some t \<Rightarrow>
               if t \<in> set seen then route_options names spec rs seen
               else \<lparr>ro_kind = KNormal, ro_label = (if key = kLegacyDefaultRoute then DEFAULT_ROUTE else key),
                     ro_targets = [t], ro_explicit_end = (t = kEndTarget), ro_failure_exit = False\<rparr>
                    # route_options names spec rs (t # seen))"

definition static_option :: "topology \<Rightarrow> string \<Rightarrow> route_option" where
  "static_option tp name =
     (let targets = sset_of (concat (map (\<lambda>e. case index_of (node_names tp) (edge_to e) of None \<Rightarrow> [] | Some t \<Rightarrow> [t])
                      (filter (\<lambda>e. edge_from e = name) (tp_edges tp))))
      in \<lparr>ro_kind = KNormal, ro_label = [], ro_targets = targets,
          ro_explicit_end = (kEndTarget \<in> set targets), ro_failure_exit = False\<rparr>)"

definition normal_options :: "(string \<Rightarrow> condition_spec option) \<Rightarrow> topology \<Rightarrow> string \<Rightarrow> route_option list" where
  "normal_options conditions tp name =
     (let options =
        (case find (\<lambda>ce. ce_from ce = name) (tp_conditional_edges tp) of
           Some ce \<Rightarrow> route_options (node_names tp) (conditions (ce_condition ce)) (ce_routes ce) []
         | None \<Rightarrow> [static_option tp name])
      in if map_of (tp_failure_exits tp) name \<noteq> None
         then map (\<lambda>r. r\<lparr>ro_failure_exit := True\<rparr>) options else options)"

definition failure_target_of :: "topology \<Rightarrow> string \<Rightarrow> nat option" where
  "failure_target_of tp name =
     (case find (\<lambda>e. fe_from e = name \<and> index_of_node (node_names tp) (fe_to e) \<noteq> None) (rev (tp_failure_edges tp)) of
        None \<Rightarrow> None | Some e \<Rightarrow> index_of_node (node_names tp) (fe_to e))"

definition limited_nodes :: "topology \<Rightarrow> (nat \<times> int) list" where
  "limited_nodes tp =
     concat (map (\<lambda>(name, policy).
       case (node_index (node_names tp) name, rp_max_visits policy) of
         (Some u, Some v) \<Rightarrow> if v \<le> 0 then [] else [(u, min v 255)]
       | _ \<Rightarrow> []) (tp_retry_policies tp))"

definition slot_of :: "topology \<Rightarrow> nat \<Rightarrow> nat option" where
  "slot_of tp u = map_of (zip (map fst (limited_nodes tp)) [0..<length (limited_nodes tp)]) u"

definition resets_of :: "topology \<Rightarrow> nat \<Rightarrow> nat list" where
  "resets_of tp u =
     concat (map (\<lambda>(slot, v, limit).
       if failure_target_of tp (node_names tp ! v) = Some u then [slot] else []) (enumerate 0 (limited_nodes tp)))"

definition node_model_of ::
    "(string \<Rightarrow> json) \<Rightarrow> (string \<Rightarrow> condition_spec option) \<Rightarrow> topology \<Rightarrow> nat \<Rightarrow> string \<times> json \<Rightarrow> node_model" where
  "node_model_of effects_of conditions tp u def =
     \<lparr>nm_name = fst def, nm_type = type_of_definition (snd def), nm_normal = normal_options conditions tp (fst def),
      nm_failure_target = failure_target_of tp (fst def),
      nm_failure_exit = (map_of (tp_failure_exits tp) (fst def) \<noteq> None),
      nm_max_visits = (case map_of (limited_nodes tp) u of None \<Rightarrow> 0 | Some v \<Rightarrow> v),
      nm_visit_slot = slot_of tp u, nm_resets = resets_of tp u,
      nm_control = declared_control (effects_of (type_of_definition (snd def)))\<rparr>"

definition slot_bits :: "string list \<Rightarrow> string list \<Rightarrow> words" where
  "slot_bits names slot =
     fold (\<lambda>m b. case index_of_node names m of None \<Rightarrow> b | Some i \<Rightarrow> set_bit_at b i) slot (zero_words (words_for names))"

definition join_model_of :: "string list \<Rightarrow> nat \<Rightarrow> string list list \<Rightarrow> join_model" where
  "join_model_of names node slots =
     \<lparr>jm_node = node, jm_slots = slots, jm_slot_bits = map (slot_bits names) slots,
      jm_members = slot_bits names (concat slots)\<rparr>"

definition add_join :: "string list \<Rightarrow> string \<times> string list list \<Rightarrow> join_model list \<Rightarrow> join_model list" where
  "add_join names spec joins =
     (case node_index names (fst spec) of
        None \<Rightarrow> joins
      | Some u \<Rightarrow> if u \<in> jm_node ` set joins then joins else joins @ [join_model_of names u (snd spec)])"

definition joins_of :: "topology \<Rightarrow> join_model list" where
  "joins_of tp =
     fold (add_join (node_names tp))
       (map (\<lambda>(name, members). (name, map (\<lambda>m. [m]) members)) (tp_barrier_specs tp) @ tp_join_specs tp) []"

definition join_of_nodes :: "nat \<Rightarrow> join_model list \<Rightarrow> nat option list" where
  "join_of_nodes n joins = map (map_of (zip (map jm_node joins) [0..<length joins])) [0..<n]"

definition start_nodes :: "topology \<Rightarrow> nat list" where
  "start_nodes tp =
     sset_of (concat (map (\<lambda>e. case index_of_node (node_names tp) (edge_to e) of None \<Rightarrow> [] | Some t \<Rightarrow> [t])
       (filter (\<lambda>e. edge_from e = START_NODE) (tp_edges tp))))"

definition build_model :: "(string \<Rightarrow> json) \<Rightarrow> (string \<Rightarrow> condition_spec option) \<Rightarrow> topology \<Rightarrow> skeleton" where
  "build_model effects_of conditions tp =
     \<lparr>sk_nodes = map (\<lambda>(u, def). node_model_of effects_of conditions tp u def) (enumerate 0 (tp_node_defs tp)),
      sk_joins = joins_of tp,
      sk_join_of = join_of_nodes (length (tp_node_defs tp)) (joins_of tp),
      sk_start = start_nodes tp,
      sk_visit_nodes = map fst (limited_nodes tp),
      sk_words = words_for (node_names tp),
      sk_effects_known = list_all (\<lambda>(name, d). is_object (effects_of (type_of_definition d))) (tp_node_defs tp),
      sk_channel_writers = channel_writers effects_of tp,
      sk_e5_pairs = e5_pairs tp\<rparr>"

section \<open>States\<close>

record sk_state =
  st_ready :: words
  st_pending :: "words list"
  st_visits :: "8 word list"

text \<open>
  A state is stored under its memory image: the words of the ready set and of each join, and then
  the visit bytes.
\<close>

type_synonym state_key = "u64 list \<times> 8 word list"

definition encode_state :: "sk_state \<Rightarrow> state_key" where
  "encode_state s = (st_ready s @ concat (st_pending s), st_visits s)"

fun split_words :: "nat \<Rightarrow> nat \<Rightarrow> u64 list \<Rightarrow> words list" where
  "split_words w 0 ws = []"
| "split_words w (Suc n) ws = take w ws # split_words w n (drop w ws)"

definition decode_state :: "skeleton \<Rightarrow> state_key \<Rightarrow> sk_state" where
  "decode_state sk key =
     \<lparr>st_ready = take (sk_words sk) (fst key),
      st_pending = split_words (sk_words sk) (length (sk_joins sk)) (drop (sk_words sk) (fst key)),
      st_visits = take (length (sk_visit_nodes sk)) (snd key)\<rparr>"

definition ready_nodes :: "skeleton \<Rightarrow> sk_state \<Rightarrow> nat list" where
  "ready_nodes sk s = filter (bit_at (st_ready s)) [0..<length (sk_nodes sk)]"

definition past_limit :: "node_model \<Rightarrow> sk_state \<Rightarrow> bool" where
  "past_limit node s \<longleftrightarrow>
     (case nm_visit_slot node of None \<Rightarrow> False | Some slot \<Rightarrow> int (unat (st_visits s ! slot)) \<ge> nm_max_visits node)"

definition routes_along :: "option_kind \<Rightarrow> string \<Rightarrow> nat option \<Rightarrow> route_option" where
  "routes_along kind label target =
     \<lparr>ro_kind = kind, ro_label = label, ro_targets = (case target of None \<Rightarrow> [] | Some t \<Rightarrow> [int t]),
      ro_explicit_end = False, ro_failure_exit = False\<rparr>"

definition options_of_node :: "node_model \<Rightarrow> sk_state \<Rightarrow> route_option list" where
  "options_of_node node s =
     (if past_limit node s
      then [routes_along (if nm_failure_target node \<noteq> None then KVisitLimit else KFails) ''visit_limit''
              (nm_failure_target node)]
      else (if nm_normal node = [] then [routes_along KFails ''no_route'' None] else nm_normal node) @
           (case nm_failure_target node of
              None \<Rightarrow> [] | Some t \<Rightarrow> [routes_along KFailure ''on_failure'' (Some t)]))"

definition options_for :: "skeleton \<Rightarrow> sk_state \<Rightarrow> nat list \<Rightarrow> route_option list list" where
  "options_for sk s rdy = map (\<lambda>u. options_of_node (sk_nodes sk ! u) s) rdy"

section \<open>One super-step\<close>

datatype terminal = TNone | TCompleted | TCompletedOverPending | TStalled | TFailureExit | TFailed

record transition =
  tr_next :: sk_state
  tr_terminal :: terminal
  tr_fired :: "nat list"
  tr_signalled :: "nat list"
  tr_signals :: "words list"
  tr_failed_node :: "nat option"

record step_acc =
  sa_ready :: words
  sa_visits :: "8 word list"
  sa_signals :: "words list"
  sa_signalled :: "bool list"
  sa_explicit_end :: bool
  sa_failure_exit :: bool
  sa_completed :: "nat list"
  sa_failed_node :: "nat option"

definition route_target :: "skeleton \<Rightarrow> nat \<Rightarrow> int \<Rightarrow> step_acc \<Rightarrow> step_acc" where
  "route_target sk u target acc =
     (if target = kEndTarget then acc\<lparr>sa_explicit_end := True\<rparr>
      else case sk_join_of sk ! nat target of
             None \<Rightarrow> acc\<lparr>sa_ready := set_bit_at (sa_ready acc) (nat target)\<rparr>
           | Some j \<Rightarrow> acc\<lparr>sa_signals := (sa_signals acc)[j := set_bit_at (sa_signals acc ! j) u],
                           sa_signalled := (sa_signalled acc)[j := True]\<rparr>)"

definition count_visit :: "node_model \<Rightarrow> option_kind \<Rightarrow> 8 word list \<Rightarrow> 8 word list" where
  "count_visit node kind vs =
     (case nm_visit_slot node of
        None \<Rightarrow> vs
      | Some slot \<Rightarrow>
          if kind = KVisitLimit then vs
          else vs[slot := of_int (min (int (unat (vs ! slot)) + 1) (nm_max_visits node))])"

definition take_option :: "skeleton \<Rightarrow> nat \<Rightarrow> route_option \<Rightarrow> step_acc \<Rightarrow> step_acc" where
  "take_option sk u opt acc =
     (if ro_kind opt = KFails
      then acc\<lparr>sa_failed_node := (if sa_failed_node acc = None then Some u else sa_failed_node acc)\<rparr>
      else fold (route_target sk u) (ro_targets opt)
             (acc\<lparr>sa_completed := sa_completed acc @ (if ro_kind opt = KNormal then [u] else []),
                  sa_visits := count_visit (sk_nodes sk ! u) (ro_kind opt) (sa_visits acc),
                  sa_failure_exit := (sa_failure_exit acc \<or> ro_kind opt = KNormal \<and> ro_failure_exit opt)\<rparr>))"

fun take_options :: "skeleton \<Rightarrow> nat list \<Rightarrow> route_option list list \<Rightarrow> nat \<Rightarrow> step_acc \<Rightarrow> step_acc" where
  "take_options sk (u # us) (choice # choices) combo acc =
     take_options sk us choices (combo div length choice) (take_option sk u (choice ! (combo mod length choice)) acc)"
| "take_options sk _ _ combo acc = acc"

definition reset_visits :: "skeleton \<Rightarrow> nat list \<Rightarrow> 8 word list \<Rightarrow> 8 word list" where
  "reset_visits sk completed vs =
     fold (\<lambda>u. fold (\<lambda>slot xs. xs[slot := 0]) (nm_resets (sk_nodes sk ! u))) completed vs"

record join_acc =
  ja_ready :: words
  ja_pending :: "words list"
  ja_signalled :: "nat list"
  ja_fired :: "nat list"

definition settle_join :: "skeleton \<Rightarrow> step_acc \<Rightarrow> nat \<Rightarrow> join_acc \<Rightarrow> join_acc" where
  "settle_join sk acc j ja =
     (if \<not> sa_signalled acc ! j then ja
      else
        let pending = or_words (ja_pending ja ! j) (sa_signals acc ! j);
            join = sk_joins sk ! j
        in if list_all (\<lambda>slot. intersects slot pending) (jm_slot_bits join)
           then ja\<lparr>ja_signalled := ja_signalled ja @ [j], ja_ready := set_bit_at (ja_ready ja) (jm_node join),
                   ja_pending := (ja_pending ja)[j := zero_words (sk_words sk)], ja_fired := ja_fired ja @ [j]\<rparr>
           else ja\<lparr>ja_signalled := ja_signalled ja @ [j], ja_pending := (ja_pending ja)[j := pending]\<rparr>)"

definition terminal_of :: "step_acc \<Rightarrow> join_acc \<Rightarrow> terminal" where
  "terminal_of acc ja =
     (if sa_failed_node acc \<noteq> None then TFailed
      else if sa_failure_exit acc then TFailureExit
      else if no_bits (ja_ready ja)
      then if \<not> list_ex (\<lambda>p. \<not> no_bits p) (ja_pending ja) then TCompleted
           else if sa_explicit_end acc then TCompletedOverPending else TStalled
      else TNone)"

definition first_acc :: "skeleton \<Rightarrow> sk_state \<Rightarrow> step_acc" where
  "first_acc sk s =
     \<lparr>sa_ready = zero_words (sk_words sk), sa_visits = st_visits s,
      sa_signals = replicate (length (sk_joins sk)) (zero_words (sk_words sk)),
      sa_signalled = replicate (length (sk_joins sk)) False, sa_explicit_end = False, sa_failure_exit = False,
      sa_completed = [], sa_failed_node = None\<rparr>"

definition apply_step :: "skeleton \<Rightarrow> sk_state \<Rightarrow> nat list \<Rightarrow> route_option list list \<Rightarrow> nat \<Rightarrow> transition" where
  "apply_step sk s rdy options combo =
     (let acc = take_options sk rdy options combo (first_acc sk s);
          ja = fold (settle_join sk acc) [0..<length (sk_joins sk)]
                 \<lparr>ja_ready = sa_ready acc, ja_pending = st_pending s, ja_signalled = [], ja_fired = []\<rparr>
      in \<lparr>tr_next = \<lparr>st_ready = ja_ready ja, st_pending = ja_pending ja,
                      st_visits = reset_visits sk (sa_completed acc) (sa_visits acc)\<rparr>,
          tr_terminal = terminal_of acc ja, tr_fired = ja_fired ja, tr_signalled = ja_signalled ja,
          tr_signals = sa_signals acc, tr_failed_node = sa_failed_node acc\<rparr>)"

end
