(* ===== verification/NG_Explore.thy ===== *)
theory NG_Explore
  imports NG_Skeleton
begin

text \<open>
  The exploration of the soundness check (\<open>explore\<close> and what it records,
  \<open>src/src/core/graph_soundness.cpp\<close>): breadth first over the states of the control skeleton, with
  a cap on the states and on the route combinations. The table that finds a state's index is the
  position of its key among the keys. Indices are natural numbers; the code keeps them in 32 bits,
  which is exact for state caps up to \<open>2 ^ 32\<close>.
\<close>

unbundle bit_operations_syntax

section \<open>Records\<close>

record state_record =
  sr_parent :: nat
  sr_combo :: nat
  sr_opaque :: bool
  sr_complete_exit :: bool
  sr_any_exit :: bool
  sr_reasons :: u64

record outcomes =
  oc_completed :: bool
  oc_completed_over_pending :: bool
  oc_stalled :: bool
  oc_failure_exit :: bool
  oc_failed :: bool
  oc_cyclic :: bool

datatype end_kind = EndStalled | EndCompleted

record pending_end =
  pe_state :: nat
  pe_combo :: nat
  pe_pending :: words

record exploration =
  ex_keys :: "state_key list"
  ex_records :: "state_record list"
  ex_successors :: "nat list list"
  ex_transitions :: nat
  ex_capped :: bool
  ex_outcomes :: outcomes
  ex_opaque_first :: "(nat \<times> nat) list"
  ex_pending_ends :: "((nat \<times> end_kind) \<times> pending_end) list"
  ex_first_signal :: "(nat \<times> nat \<times> nat) list"
  ex_received :: "words list"
  ex_fired :: "bool list"
  ex_co_ready :: "(nat \<times> nat \<times> nat list) list"

definition kCombosPerState :: nat where
  "kCombosPerState = 64"

definition kFailedBit :: u64 where
  "kFailedBit = push_bit 62 1"

definition kLoopBit :: u64 where
  "kLoopBit = push_bit 63 1"

definition stall_bit :: "nat \<Rightarrow> u64" where
  "stall_bit j = push_bit (min j 61) 1"

text \<open>\<open>std::map::emplace\<close>: an existing entry stays.\<close>

definition emplace :: "'k \<Rightarrow> 'v \<Rightarrow> ('k \<times> 'v) list \<Rightarrow> ('k \<times> 'v) list" where
  "emplace k v m = (if map_of m k = None then m @ [(k, v)] else m)"

section \<open>Recording one transition\<close>

definition lookup_key :: "state_key list \<Rightarrow> state_key \<Rightarrow> nat option" where
  "lookup_key ks k = find (\<lambda>i. ks ! i = k) [0..<length ks]"

definition fresh_record :: "nat \<Rightarrow> nat \<Rightarrow> state_record" where
  "fresh_record parent combo = \<lparr>sr_parent = parent, sr_combo = combo, sr_opaque = False, sr_complete_exit = False,
     sr_any_exit = False, sr_reasons = 0\<rparr>"

definition intern :: "state_key \<Rightarrow> nat \<Rightarrow> nat \<Rightarrow> exploration \<Rightarrow> exploration" where
  "intern key parent combo ex =
     ex\<lparr>ex_keys := ex_keys ex @ [key], ex_records := ex_records ex @ [fresh_record parent combo],
        ex_successors := ex_successors ex @ [[]]\<rparr>"

definition holding_joins :: "sk_state \<Rightarrow> nat list" where
  "holding_joins s = filter (\<lambda>j. \<not> no_bits (st_pending s ! j)) [0..<length (st_pending s)]"

definition record_pending_end :: "nat \<Rightarrow> nat \<Rightarrow> transition \<Rightarrow> end_kind \<Rightarrow> exploration \<Rightarrow> exploration" where
  "record_pending_end i combo step kind ex =
     ex\<lparr>ex_pending_ends := fold (\<lambda>j. emplace (j, kind)
          \<lparr>pe_state = i, pe_combo = combo, pe_pending = st_pending (tr_next step) ! j\<rparr>)
          (holding_joins (tr_next step)) (ex_pending_ends ex)\<rparr>"

definition stall_reasons :: "transition \<Rightarrow> u64" where
  "stall_reasons step = fold (\<lambda>j r. r OR stall_bit j) (holding_joins (tr_next step)) 0"

definition exit_record :: "transition \<Rightarrow> state_record \<Rightarrow> state_record" where
  "exit_record step r =
     (case tr_terminal step of
        TCompleted \<Rightarrow> r\<lparr>sr_any_exit := True, sr_complete_exit := True\<rparr>
      | TCompletedOverPending \<Rightarrow> r\<lparr>sr_any_exit := True, sr_complete_exit := True\<rparr>
      | TStalled \<Rightarrow> r\<lparr>sr_any_exit := True, sr_reasons := sr_reasons r OR stall_reasons step\<rparr>
      | TFailureExit \<Rightarrow> r\<lparr>sr_any_exit := True, sr_complete_exit := True\<rparr>
      | TFailed \<Rightarrow> r\<lparr>sr_any_exit := True, sr_reasons := sr_reasons r OR kFailedBit\<rparr>
      | TNone \<Rightarrow> r\<lparr>sr_any_exit := True\<rparr>)"

definition exit_outcomes :: "terminal \<Rightarrow> outcomes \<Rightarrow> outcomes" where
  "exit_outcomes t out =
     (case t of
        TCompleted \<Rightarrow> out\<lparr>oc_completed := True\<rparr>
      | TCompletedOverPending \<Rightarrow> out\<lparr>oc_completed_over_pending := True\<rparr>
      | TStalled \<Rightarrow> out\<lparr>oc_stalled := True\<rparr>
      | TFailureExit \<Rightarrow> out\<lparr>oc_failure_exit := True\<rparr>
      | TFailed \<Rightarrow> out\<lparr>oc_failed := True\<rparr>
      | TNone \<Rightarrow> out)"

definition record_terminal :: "nat \<Rightarrow> nat \<Rightarrow> transition \<Rightarrow> exploration \<Rightarrow> exploration" where
  "record_terminal i combo step ex =
     (let ex = ex\<lparr>ex_records := (ex_records ex)[i := exit_record step (ex_records ex ! i)],
                  ex_outcomes := exit_outcomes (tr_terminal step) (ex_outcomes ex)\<rparr>
      in case tr_terminal step of
           TCompletedOverPending \<Rightarrow> record_pending_end i combo step EndCompleted ex
         | TStalled \<Rightarrow> record_pending_end i combo step EndStalled ex
         | _ \<Rightarrow> ex)"

definition record_signals :: "nat \<Rightarrow> nat \<Rightarrow> transition \<Rightarrow> exploration \<Rightarrow> exploration" where
  "record_signals i combo step ex =
     ex\<lparr>ex_received := fold (\<lambda>j r. r[j := or_words (r ! j) (tr_signals step ! j)]) (tr_signalled step) (ex_received ex),
        ex_first_signal := fold (\<lambda>j. emplace j (i, combo)) (tr_signalled step) (ex_first_signal ex),
        ex_fired := fold (\<lambda>j f. f[j := True]) (tr_fired step) (ex_fired ex)\<rparr>"

definition add_successor :: "nat \<Rightarrow> nat \<Rightarrow> exploration \<Rightarrow> exploration" where
  "add_successor i t ex = ex\<lparr>ex_successors := (ex_successors ex)[i := ex_successors ex ! i @ [t]]\<rparr>"

definition take_combo :: "nat \<Rightarrow> nat \<Rightarrow> nat \<Rightarrow> transition \<Rightarrow> exploration \<Rightarrow> exploration" where
  "take_combo cap i combo step ex =
     (let ex = record_signals i combo step (ex\<lparr>ex_transitions := ex_transitions ex + 1\<rparr>)
      in if tr_terminal step \<noteq> TNone then record_terminal i combo step ex
         else
           let key = encode_state (tr_next step)
           in case lookup_key (ex_keys ex) key of
                Some t \<Rightarrow> add_successor i t ex
              | None \<Rightarrow>
                  if length (ex_keys ex) \<ge> cap then ex\<lparr>ex_capped := True\<rparr>
                  else add_successor i (length (ex_keys ex)) (intern key i combo ex))"

fun scan_combos ::
    "skeleton \<Rightarrow> nat \<Rightarrow> nat \<Rightarrow> sk_state \<Rightarrow> nat list \<Rightarrow> route_option list list \<Rightarrow> nat \<Rightarrow> nat \<Rightarrow> exploration \<Rightarrow> exploration" where
  "scan_combos sk cap i s rdy options 0 combo ex = ex"
| "scan_combos sk cap i s rdy options (Suc n) combo ex =
     (let ex' = take_combo cap i combo (apply_step sk s rdy options combo) ex
      in if ex_capped ex' then ex' else scan_combos sk cap i s rdy options n (combo + 1) ex')"

section \<open>Visiting one state\<close>

fun ordered_pairs :: "'a list \<Rightarrow> ('a \<times> 'a) list" where
  "ordered_pairs [] = []"
| "ordered_pairs (x # xs) = map (Pair x) xs @ ordered_pairs xs"

definition check_co_ready :: "skeleton \<Rightarrow> nat \<Rightarrow> nat list \<Rightarrow> exploration \<Rightarrow> exploration" where
  "check_co_ready sk i rdy ex =
     (if \<not> sk_effects_known sk \<or> length rdy < 2 then ex
      else ex\<lparr>ex_co_ready := fold (\<lambda>(c, channel, bits) m.
             let writers = filter (bit_at bits) rdy
             in if list_ex (\<lambda>p. p \<notin> set (sk_e5_pairs sk)) (ordered_pairs writers) then emplace c (i, writers) m else m)
           (enumerate 0 (sk_channel_writers sk)) (ex_co_ready ex)\<rparr>)"

definition declares_control :: "skeleton \<Rightarrow> nat \<Rightarrow> bool" where
  "declares_control sk u \<longleftrightarrow> nm_control (sk_nodes sk ! u) \<noteq> []"

definition note_opaque :: "skeleton \<Rightarrow> nat \<Rightarrow> nat list \<Rightarrow> exploration \<Rightarrow> exploration" where
  "note_opaque sk i rdy ex =
     ex\<lparr>ex_opaque_first := fold (\<lambda>u. emplace u i) (filter (declares_control sk) rdy) (ex_opaque_first ex)\<rparr>"

fun count_combos :: "nat \<Rightarrow> 'a list list \<Rightarrow> nat \<Rightarrow> nat option" where
  "count_combos remaining [] combos = Some combos"
| "count_combos remaining (choice # choices) combos =
     (if combos > remaining div length choice then None
      else count_combos remaining choices (combos * length choice))"

definition combo_budget :: "nat \<Rightarrow> nat" where
  "combo_budget cap = unat (of_nat (max 1 cap) * of_nat kCombosPerState :: u64)"

definition sort_successors :: "nat \<Rightarrow> exploration \<Rightarrow> exploration" where
  "sort_successors i ex = ex\<lparr>ex_successors := (ex_successors ex)[i := sort_unique (ex_successors ex ! i)]\<rparr>"

definition visit_state :: "skeleton \<Rightarrow> nat \<Rightarrow> nat \<Rightarrow> exploration \<Rightarrow> exploration" where
  "visit_state sk cap i ex =
     (let s = decode_state sk (ex_keys ex ! i);
          rdy = ready_nodes sk s;
          ex = note_opaque sk i rdy (check_co_ready sk i rdy ex)
      in if list_ex (declares_control sk) rdy
         then ex\<lparr>ex_records := (ex_records ex)[i := (ex_records ex ! i)\<lparr>sr_opaque := True\<rparr>]\<rparr>
         else
           let options = options_for sk s rdy;
               remaining = combo_budget cap - ex_transitions ex
           in case count_combos remaining options 1 of
                None \<Rightarrow> ex\<lparr>ex_capped := True\<rparr>
              | Some combos \<Rightarrow>
                  if combos > remaining then ex\<lparr>ex_capped := True\<rparr>
                  else sort_successors i (scan_combos sk cap i s rdy options combos 0 ex))"

section \<open>The loop\<close>

definition no_outcomes :: outcomes where
  "no_outcomes = \<lparr>oc_completed = False, oc_completed_over_pending = False, oc_stalled = False,
     oc_failure_exit = False, oc_failed = False, oc_cyclic = False\<rparr>"

definition initial_state :: "skeleton \<Rightarrow> sk_state" where
  "initial_state sk =
     \<lparr>st_ready = fold (\<lambda>u b. set_bit_at b u) (sk_start sk) (zero_words (sk_words sk)),
      st_pending = replicate (length (sk_joins sk)) (zero_words (sk_words sk)),
      st_visits = replicate (length (sk_visit_nodes sk)) 0\<rparr>"

definition empty_exploration :: "skeleton \<Rightarrow> exploration" where
  "empty_exploration sk =
     \<lparr>ex_keys = [], ex_records = [], ex_successors = [], ex_transitions = 0, ex_capped = False,
      ex_outcomes = no_outcomes, ex_opaque_first = [], ex_pending_ends = [], ex_first_signal = [],
      ex_received = replicate (length (sk_joins sk)) (zero_words (sk_words sk)),
      ex_fired = replicate (length (sk_joins sk)) False, ex_co_ready = []\<rparr>"

lemma take_combo_keys_bound: "length (ex_keys (take_combo cap i combo step ex)) \<le> max (length (ex_keys ex)) cap"
  by (auto simp: take_combo_def record_signals_def record_terminal_def record_pending_end_def add_successor_def
      intern_def Let_def split: option.splits terminal.splits)

lemma scan_combos_keys_bound:
  "length (ex_keys (scan_combos sk cap i s rdy options n combo ex)) \<le> max (length (ex_keys ex)) cap"
proof (induction n arbitrary: combo ex)
  case (Suc n)
  let ?ex = "take_combo cap i combo (apply_step sk s rdy options combo) ex"
  have "length (ex_keys (scan_combos sk cap i s rdy options n (combo + 1) ?ex)) \<le> max (length (ex_keys ?ex)) cap"
    by (rule Suc.IH)
  moreover have "length (ex_keys ?ex) \<le> max (length (ex_keys ex)) cap" by (rule take_combo_keys_bound)
  ultimately show ?case by (auto simp: Let_def)
qed simp

definition before_scan :: "skeleton \<Rightarrow> nat \<Rightarrow> exploration \<Rightarrow> exploration" where
  "before_scan sk i ex =
     (let rdy = ready_nodes sk (decode_state sk (ex_keys ex ! i)) in note_opaque sk i rdy (check_co_ready sk i rdy ex))"

lemma before_scan_same [simp]:
  "ex_keys (before_scan sk i ex) = ex_keys ex" "ex_records (before_scan sk i ex) = ex_records ex"
  "ex_successors (before_scan sk i ex) = ex_successors ex" "ex_transitions (before_scan sk i ex) = ex_transitions ex"
  "ex_capped (before_scan sk i ex) = ex_capped ex" "ex_outcomes (before_scan sk i ex) = ex_outcomes ex"
  "ex_pending_ends (before_scan sk i ex) = ex_pending_ends ex" "ex_received (before_scan sk i ex) = ex_received ex"
  "ex_fired (before_scan sk i ex) = ex_fired ex" "ex_first_signal (before_scan sk i ex) = ex_first_signal ex"
  by (simp_all add: before_scan_def note_opaque_def check_co_ready_def Let_def)

lemma visit_state_cases:
  fixes sk cap i ex
  defines "s \<equiv> decode_state sk (ex_keys ex ! i)"
  defines "rdy \<equiv> ready_nodes sk s"
  defines "options \<equiv> options_for sk s rdy"
  obtains
    (opaque) "list_ex (declares_control sk) rdy" "visit_state sk cap i ex = (before_scan sk i ex)
        \<lparr>ex_records := (ex_records ex)[i := (ex_records ex ! i)\<lparr>sr_opaque := True\<rparr>]\<rparr>"
  | (capped) "\<not> list_ex (declares_control sk) rdy" "visit_state sk cap i ex = (before_scan sk i ex)\<lparr>ex_capped := True\<rparr>"
  | (scan) combos where "\<not> list_ex (declares_control sk) rdy"
      "count_combos (combo_budget cap - ex_transitions ex) options 1 = Some combos"
      "combos \<le> combo_budget cap - ex_transitions ex"
      "visit_state sk cap i ex =
         sort_successors i (scan_combos sk cap i s rdy options combos 0 (before_scan sk i ex))"
proof -
  have same: "note_opaque sk i rdy (check_co_ready sk i rdy ex) = before_scan sk i ex"
    by (simp add: before_scan_def rdy_def s_def Let_def)
  have "visit_state sk cap i ex =
      (if list_ex (declares_control sk) rdy
       then (before_scan sk i ex)\<lparr>ex_records := (ex_records ex)[i := (ex_records ex ! i)\<lparr>sr_opaque := True\<rparr>]\<rparr>
       else case count_combos (combo_budget cap - ex_transitions ex) options 1 of
              None \<Rightarrow> (before_scan sk i ex)\<lparr>ex_capped := True\<rparr>
            | Some combos \<Rightarrow>
                if combos > combo_budget cap - ex_transitions ex then (before_scan sk i ex)\<lparr>ex_capped := True\<rparr>
                else sort_successors i (scan_combos sk cap i s rdy options combos 0 (before_scan sk i ex)))"
    unfolding visit_state_def Let_def s_def[symmetric] rdy_def[symmetric] options_def[symmetric] same before_scan_same
    by (rule refl)
  then show thesis
    using that by (cases "list_ex (declares_control sk) rdy";
        cases "count_combos (combo_budget cap - ex_transitions ex) options 1") (auto split: if_splits)
qed

lemma sort_successors_same [simp]:
  "ex_keys (sort_successors i ex) = ex_keys ex" "ex_records (sort_successors i ex) = ex_records ex"
  "ex_transitions (sort_successors i ex) = ex_transitions ex" "ex_capped (sort_successors i ex) = ex_capped ex"
  "ex_outcomes (sort_successors i ex) = ex_outcomes ex" "ex_pending_ends (sort_successors i ex) = ex_pending_ends ex"
  "ex_received (sort_successors i ex) = ex_received ex" "ex_fired (sort_successors i ex) = ex_fired ex"
  "ex_first_signal (sort_successors i ex) = ex_first_signal ex" "ex_opaque_first (sort_successors i ex) = ex_opaque_first ex"
  by (simp_all add: sort_successors_def)

lemma visit_state_keys_bound: "length (ex_keys (visit_state sk cap i ex)) \<le> max (length (ex_keys ex)) cap"
proof (cases rule: visit_state_cases[where sk = sk and i = i and ex = ex and cap = cap])
  case (scan combos)
  then show ?thesis using scan_combos_keys_bound[of sk cap i _ _ _ combos 0 "before_scan sk i ex"] by simp
qed simp_all

function explore_loop :: "skeleton \<Rightarrow> nat \<Rightarrow> nat \<Rightarrow> exploration \<Rightarrow> exploration" where
  "explore_loop sk cap i ex =
     (if i < length (ex_keys ex) \<and> \<not> ex_capped ex then explore_loop sk cap (i + 1) (visit_state sk cap i ex) else ex)"
  by pat_completeness auto

termination
proof (relation "measure (\<lambda>(sk, cap, i, ex). max (length (ex_keys ex)) cap - i)")
  fix sk cap i and ex :: exploration assume "i < length (ex_keys ex) \<and> \<not> ex_capped ex"
  then show "((sk, cap, i + 1, visit_state sk cap i ex), sk, cap, i, ex)
      \<in> measure (\<lambda>(sk, cap, i, ex). max (length (ex_keys ex)) cap - i)"
    using visit_state_keys_bound[of sk cap i ex] by auto
qed simp

declare explore_loop.simps [simp del]

definition explore :: "skeleton \<Rightarrow> nat \<Rightarrow> exploration" where
  "explore sk cap =
     (let ex = intern (encode_state (initial_state sk)) 0 0 (empty_exploration sk)
      in if sk_start sk = []
         then ex\<lparr>ex_outcomes := (ex_outcomes ex)\<lparr>oc_completed := True\<rparr>,
                 ex_records := (ex_records ex)[0 := (ex_records ex ! 0)\<lparr>sr_complete_exit := True, sr_any_exit := True\<rparr>]\<rparr>
         else explore_loop sk cap 0 ex)"

end
