(* ===== verification/NG_Reach.thy ===== *)
theory NG_Reach
  imports NG_Explore
begin

text \<open>
  What the exploration computes: the states the control skeleton can reach and every super-step
  from them. \<open>sk_reach\<close> is the specification; \<open>ex_inv\<close> relates an exploration to the set of
  route combinations it has tried, and every operation of the exploration keeps it.
\<close>

unbundle bit_operations_syntax

section \<open>The runs of a skeleton\<close>

definition choices_of :: "skeleton \<Rightarrow> sk_state \<Rightarrow> route_option list list" where
  "choices_of sk s = options_for sk s (ready_nodes sk s)"

definition combos_of :: "skeleton \<Rightarrow> sk_state \<Rightarrow> nat" where
  "combos_of sk s = prod_list (map length (choices_of sk s))"

definition step_of :: "skeleton \<Rightarrow> sk_state \<Rightarrow> nat \<Rightarrow> transition" where
  "step_of sk s c = apply_step sk s (ready_nodes sk s) (choices_of sk s) c"

definition opaque_state :: "skeleton \<Rightarrow> sk_state \<Rightarrow> bool" where
  "opaque_state sk s = list_ex (declares_control sk) (ready_nodes sk s)"

definition tries :: "skeleton \<Rightarrow> sk_state \<Rightarrow> nat set" where
  "tries sk s = (if opaque_state sk s then {} else {..<combos_of sk s})"

inductive sk_reach :: "skeleton \<Rightarrow> sk_state \<Rightarrow> bool" for sk where
    reach_start: "sk_reach sk (initial_state sk)"
  | reach_step: "sk_reach sk s \<Longrightarrow> c \<in> tries sk s \<Longrightarrow> tr_terminal (step_of sk s c) = TNone \<Longrightarrow>
      sk_reach sk (tr_next (step_of sk s c))"

section \<open>Shapes and keys\<close>

definition shaped :: "skeleton \<Rightarrow> sk_state \<Rightarrow> bool" where
  "shaped sk s \<longleftrightarrow> length (st_ready s) = sk_words sk \<and> length (st_pending s) = length (sk_joins sk) \<and>
     list_all (\<lambda>p. length p = sk_words sk) (st_pending s) \<and> length (st_visits s) = length (sk_visit_nodes sk)"

lemma split_words_concat: "list_all (\<lambda>p. length p = w) ps \<Longrightarrow> split_words w (length ps) (concat ps) = ps"
  by (induction ps) auto

lemma decode_encode: "shaped sk s \<Longrightarrow> decode_state sk (encode_state s) = s"
  using split_words_concat[of "sk_words sk" "st_pending s"]
  by (cases s) (simp add: decode_state_def encode_state_def shaped_def)

lemma encode_inj: "shaped sk s \<Longrightarrow> shaped sk t \<Longrightarrow> encode_state s = encode_state t \<longleftrightarrow> s = t"
  by (metis decode_encode)

lemma fold_set_bit_length [simp]: "length (fold (\<lambda>u b. set_bit_at b u) us b) = length b"
  by (induction us arbitrary: b) simp_all

lemma shaped_initial: "shaped sk (initial_state sk)"
  by (simp add: shaped_def initial_state_def list_all_length)

definition acc_ok :: "skeleton \<Rightarrow> step_acc \<Rightarrow> bool" where
  "acc_ok sk acc \<longleftrightarrow> length (sa_ready acc) = sk_words sk \<and> length (sa_visits acc) = length (sk_visit_nodes sk) \<and>
     length (sa_signals acc) = length (sk_joins sk) \<and> list_all (\<lambda>p. length p = sk_words sk) (sa_signals acc) \<and>
     length (sa_signalled acc) = length (sk_joins sk)"

lemma list_all_update: "list_all P xs \<Longrightarrow> P x \<Longrightarrow> list_all P (xs[i := x])"
  by (auto simp: list_all_iff dest: set_update_subset_insert[THEN subsetD])

lemma acc_ok_target:
  assumes "acc_ok sk acc"
  shows "acc_ok sk (route_target sk u t acc)"
proof (cases "t = kEndTarget \<or> sk_join_of sk ! nat t = None")
  case True
  then show ?thesis using assms by (auto simp: acc_ok_def route_target_def)
next
  case False
  then obtain j where j: "sk_join_of sk ! nat t = Some j" "t \<noteq> kEndTarget" by auto
  have "list_all (\<lambda>p. length p = sk_words sk) ((sa_signals acc)[j := set_bit_at (sa_signals acc ! j) u])"
  proof (cases "j < length (sa_signals acc)")
    case True
    then show ?thesis using assms by (intro list_all_update) (auto simp: acc_ok_def list_all_length)
  next
    case False
    then have "(sa_signals acc)[j := set_bit_at (sa_signals acc ! j) u] = sa_signals acc" by (simp add: list_update_beyond)
    then show ?thesis using assms by (simp add: acc_ok_def)
  qed
  then show ?thesis using assms j by (simp add: acc_ok_def route_target_def)
qed

lemma acc_ok_targets: "acc_ok sk acc \<Longrightarrow> acc_ok sk (fold (route_target sk u) ts acc)"
  by (induction ts arbitrary: acc) (simp_all add: acc_ok_target)

lemma count_visit_length [simp]: "length (count_visit node kind vs) = length vs"
  by (simp add: count_visit_def split: option.splits)

lemma acc_ok_option:
  assumes "acc_ok sk acc"
  shows "acc_ok sk (take_option sk u opt acc)"
proof (cases "ro_kind opt = KFails")
  case True
  then show ?thesis using assms by (simp add: take_option_def acc_ok_def)
next
  case False
  have "acc_ok sk (acc\<lparr>sa_completed := sa_completed acc @ (if ro_kind opt = KNormal then [u] else []),
      sa_visits := count_visit (sk_nodes sk ! u) (ro_kind opt) (sa_visits acc),
      sa_failure_exit := (sa_failure_exit acc \<or> ro_kind opt = KNormal \<and> ro_failure_exit opt)\<rparr>)"
    using assms by (simp add: acc_ok_def)
  with False show ?thesis by (simp only: take_option_def if_False acc_ok_targets)
qed

lemma acc_ok_options: "acc_ok sk acc \<Longrightarrow> acc_ok sk (take_options sk us cs combo acc)"
  by (induction sk us cs combo acc rule: take_options.induct) (simp_all add: acc_ok_option)

definition joins_ok :: "skeleton \<Rightarrow> join_acc \<Rightarrow> bool" where
  "joins_ok sk ja \<longleftrightarrow> length (ja_ready ja) = sk_words sk \<and> length (ja_pending ja) = length (sk_joins sk) \<and>
     list_all (\<lambda>p. length p = sk_words sk) (ja_pending ja)"

lemma joins_ok_settle:
  assumes "acc_ok sk acc" "joins_ok sk ja" "j < length (sk_joins sk)"
  shows "joins_ok sk (settle_join sk acc j ja)"
proof -
  have "length (or_words (ja_pending ja ! j) (sa_signals acc ! j)) = sk_words sk"
    using assms by (simp add: acc_ok_def joins_ok_def list_all_length)
  then show ?thesis using assms by (auto simp: settle_join_def joins_ok_def Let_def intro!: list_all_update)
qed

lemma joins_ok_fold:
  "acc_ok sk acc \<Longrightarrow> joins_ok sk ja \<Longrightarrow> set js \<subseteq> {..<length (sk_joins sk)} \<Longrightarrow>
     joins_ok sk (fold (settle_join sk acc) js ja)"
  by (induction js arbitrary: ja) (simp_all add: joins_ok_settle)

lemma fold_reset_length [simp]: "length (fold (\<lambda>slot xs. xs[slot := 0]) slots vs) = length vs"
  by (induction slots arbitrary: vs) simp_all

lemma reset_visits_length [simp]: "length (reset_visits sk us vs) = length vs"
  unfolding reset_visits_def by (induction us arbitrary: vs) simp_all

lemma shaped_apply:
  assumes "shaped sk s"
  shows "shaped sk (tr_next (apply_step sk s rdy options combo))"
proof -
  let ?acc = "take_options sk rdy options combo (first_acc sk s)"
  have acc: "acc_ok sk ?acc"
    using assms by (intro acc_ok_options) (simp add: acc_ok_def first_acc_def shaped_def list_all_length)
  let ?ja = "fold (settle_join sk ?acc) [0..<length (sk_joins sk)]
      \<lparr>ja_ready = sa_ready ?acc, ja_pending = st_pending s, ja_signalled = [], ja_fired = []\<rparr>"
  have "joins_ok sk ?ja"
    using acc assms by (intro joins_ok_fold) (auto simp: joins_ok_def acc_ok_def shaped_def)
  then show ?thesis using acc by (simp add: apply_step_def Let_def shaped_def joins_ok_def acc_ok_def)
qed

lemma shaped_step: "shaped sk s \<Longrightarrow> shaped sk (tr_next (step_of sk s c))"
  by (simp add: step_of_def shaped_apply)

lemma shaped_reach: "sk_reach sk s \<Longrightarrow> shaped sk s"
  by (induction rule: sk_reach.induct) (simp_all add: shaped_initial shaped_step)

lemma count_combos_product:
  "count_combos rem choices n = Some m \<Longrightarrow> m = n * prod_list (map length choices)"
proof (induction choices arbitrary: n)
  case (Cons a choices)
  then show ?case using Cons.IH[of "n * length a"] by (simp add: mult.assoc split: if_splits)
qed simp

section \<open>The invariant of the exploration\<close>

definition state_at :: "skeleton \<Rightarrow> exploration \<Rightarrow> nat \<Rightarrow> sk_state" where
  "state_at sk ex j = decode_state sk (ex_keys ex ! j)"

definition tr_at :: "skeleton \<Rightarrow> exploration \<Rightarrow> nat \<Rightarrow> nat \<Rightarrow> transition" where
  "tr_at sk ex j c = step_of sk (state_at sk ex j) c"

definition keys_ok :: "skeleton \<Rightarrow> exploration \<Rightarrow> bool" where
  "keys_ok sk ex \<longleftrightarrow> length (ex_records ex) = length (ex_keys ex) \<and> length (ex_successors ex) = length (ex_keys ex) \<and>
     ex_keys ex \<noteq> [] \<and> distinct (ex_keys ex) \<and> ex_keys ex ! 0 = encode_state (initial_state sk) \<and>
     (\<forall>k \<in> set (ex_keys ex). \<exists>s. sk_reach sk s \<and> k = encode_state s)"

lemma state_at_reach:
  assumes "keys_ok sk ex" "j < length (ex_keys ex)"
  shows "sk_reach sk (state_at sk ex j)" "encode_state (state_at sk ex j) = ex_keys ex ! j"
proof -
  have "ex_keys ex ! j \<in> set (ex_keys ex)" using assms(2) by simp
  with assms(1) obtain s where s: "sk_reach sk s" "ex_keys ex ! j = encode_state s" unfolding keys_ok_def by blast
  then have "state_at sk ex j = s" by (simp add: state_at_def decode_encode shaped_reach)
  then show "sk_reach sk (state_at sk ex j)" "encode_state (state_at sk ex j) = ex_keys ex ! j"
    using s by (simp_all only:)
qed

lemma state_at_append: "j < length (ex_keys ex) \<Longrightarrow> ex_keys ex' = ex_keys ex @ ks \<Longrightarrow> state_at sk ex' j = state_at sk ex j"
  by (simp add: state_at_def nth_append)

lemma tr_at_append: "j < length (ex_keys ex) \<Longrightarrow> ex_keys ex' = ex_keys ex @ ks \<Longrightarrow> tr_at sk ex' j c = tr_at sk ex j c"
  unfolding tr_at_def by (subst state_at_append[of j ex ex' ks]) simp_all

lemma lookup_key_Some:
  assumes "lookup_key ks k = Some t"
  shows "t < length ks" "ks ! t = k"
proof -
  from assms obtain i where "i < length ks" "ks ! i = k" "t = i"
    unfolding lookup_key_def find_Some_iff by auto
  then show "t < length ks" "ks ! t = k" by simp_all
qed

lemma lookup_key_None: "lookup_key ks k = None \<longleftrightarrow> k \<notin> set ks"
  by (auto simp: lookup_key_def find_None_iff in_set_conv_nth)

definition completing :: "terminal \<Rightarrow> bool" where
  "completing t \<longleftrightarrow> t = TCompleted \<or> t = TCompletedOverPending \<or> t = TFailureExit"

definition end_reasons :: "transition \<Rightarrow> u64" where
  "end_reasons step =
     (if tr_terminal step = TStalled then stall_reasons step
      else if tr_terminal step = TFailed then kFailedBit else 0)"

lemma exit_record_fields:
  assumes "tr_terminal step \<noteq> TNone"
  shows "sr_complete_exit (exit_record step r) \<longleftrightarrow> sr_complete_exit r \<or> completing (tr_terminal step)"
    "sr_any_exit (exit_record step r)" "sr_reasons (exit_record step r) = sr_reasons r OR end_reasons step"
    "sr_parent (exit_record step r) = sr_parent r" "sr_combo (exit_record step r) = sr_combo r"
    "sr_opaque (exit_record step r) = sr_opaque r"
  using assms by (auto simp: exit_record_def completing_def end_reasons_def split: terminal.splits)

lemma take_combo_cases:
  fixes cap i c step ex
  defines "ex' \<equiv> take_combo cap i c step ex"
  obtains
    (ended) "tr_terminal step \<noteq> TNone" "ex_keys ex' = ex_keys ex" "ex_successors ex' = ex_successors ex"
      "ex_capped ex' = ex_capped ex" "ex_records ex' = (ex_records ex)[i := exit_record step (ex_records ex ! i)]"
      "ex_outcomes ex' = exit_outcomes (tr_terminal step) (ex_outcomes ex)"
  | (known) t where "tr_terminal step = TNone" "t < length (ex_keys ex)" "ex_keys ex ! t = encode_state (tr_next step)"
      "ex_keys ex' = ex_keys ex" "ex_successors ex' = (ex_successors ex)[i := ex_successors ex ! i @ [t]]"
      "ex_capped ex' = ex_capped ex" "ex_records ex' = ex_records ex" "ex_outcomes ex' = ex_outcomes ex"
  | (full) "tr_terminal step = TNone" "cap \<le> length (ex_keys ex)" "ex_capped ex'" "ex_keys ex' = ex_keys ex"
      "ex_successors ex' = ex_successors ex" "ex_records ex' = ex_records ex" "ex_outcomes ex' = ex_outcomes ex"
  | (fresh) "tr_terminal step = TNone" "encode_state (tr_next step) \<notin> set (ex_keys ex)" "length (ex_keys ex) < cap"
      "ex_keys ex' = ex_keys ex @ [encode_state (tr_next step)]" "ex_capped ex' = ex_capped ex"
      "ex_records ex' = ex_records ex @ [fresh_record i c]" "ex_outcomes ex' = ex_outcomes ex"
      "ex_successors ex' = (ex_successors ex @ [[]])[i := (ex_successors ex @ [[]]) ! i @ [length (ex_keys ex)]]"
proof (cases "tr_terminal step = TNone")
  case False
  then show thesis
    by (intro ended) (auto simp: ex'_def take_combo_def record_terminal_def record_pending_end_def record_signals_def
        Let_def split: terminal.splits)
next
  case True
  show thesis
  proof (cases "lookup_key (ex_keys ex) (encode_state (tr_next step))")
    case (Some t)
    with True lookup_key_Some[OF Some] show thesis
      by (intro known[of t]) (simp_all add: ex'_def take_combo_def record_signals_def add_successor_def Let_def)
  next
    case None
    have notin: "encode_state (tr_next step) \<notin> set (ex_keys ex)" using None by (simp add: lookup_key_None)
    show thesis
    proof (cases "length (ex_keys ex) \<ge> cap")
      case True
      with \<open>tr_terminal step = TNone\<close> None show thesis
        by (intro full) (simp_all add: ex'_def take_combo_def record_signals_def Let_def)
    next
      case False
      with \<open>tr_terminal step = TNone\<close> None notin show thesis
        by (intro fresh) (simp_all add: ex'_def take_combo_def record_signals_def add_successor_def intern_def Let_def)
    qed
  qed
qed

lemma exit_outcomes_None: "exit_outcomes TNone out = out"
  by (simp add: exit_outcomes_def)

lemma take_combo_outcomes:
  "ex_outcomes (take_combo cap i c step ex) = exit_outcomes (tr_terminal step) (ex_outcomes ex)"
  by (cases rule: take_combo_cases[where cap = cap and i = i and c = c and step = step and ex = ex])
    (simp_all add: exit_outcomes_None)

lemma take_combo_signals:
  "ex_fired (take_combo cap i c step ex) = fold (\<lambda>j f. f[j := True]) (tr_fired step) (ex_fired ex)"
  "ex_transitions (take_combo cap i c step ex) = ex_transitions ex + 1"
  "ex_opaque_first (take_combo cap i c step ex) = ex_opaque_first ex"
  "ex_co_ready (take_combo cap i c step ex) = ex_co_ready ex"
  by (auto simp: take_combo_def record_terminal_def record_pending_end_def record_signals_def add_successor_def
      intern_def Let_def split: terminal.splits option.splits)

definition log_ok :: "skeleton \<Rightarrow> exploration \<Rightarrow> (nat \<times> nat) set \<Rightarrow> bool" where
  "log_ok sk ex L \<longleftrightarrow> (\<forall>j c. (j, c) \<in> L \<longrightarrow> j < length (ex_keys ex) \<and> c \<in> tries sk (state_at sk ex j))"

definition succ_sound :: "skeleton \<Rightarrow> exploration \<Rightarrow> (nat \<times> nat) set \<Rightarrow> bool" where
  "succ_sound sk ex L \<longleftrightarrow> (\<forall>j < length (ex_keys ex). \<forall>t \<in> set (ex_successors ex ! j). t < length (ex_keys ex) \<and>
     (\<exists>c. (j, c) \<in> L \<and> tr_terminal (tr_at sk ex j c) = TNone \<and> tr_next (tr_at sk ex j c) = state_at sk ex t))"

definition succ_complete :: "skeleton \<Rightarrow> exploration \<Rightarrow> (nat \<times> nat) set \<Rightarrow> bool" where
  "succ_complete sk ex L \<longleftrightarrow> (\<forall>j c. (j, c) \<in> L \<longrightarrow> tr_terminal (tr_at sk ex j c) = TNone \<longrightarrow>
     (\<exists>t \<in> set (ex_successors ex ! j). tr_next (tr_at sk ex j c) = state_at sk ex t))"

definition parents_ok :: "skeleton \<Rightarrow> exploration \<Rightarrow> (nat \<times> nat) set \<Rightarrow> bool" where
  "parents_ok sk ex L \<longleftrightarrow> (\<forall>t. 0 < t \<longrightarrow> t < length (ex_keys ex) \<longrightarrow>
     (let p = sr_parent (ex_records ex ! t); c = sr_combo (ex_records ex ! t) in
        p < t \<and> (p, c) \<in> L \<and> tr_terminal (tr_at sk ex p c) = TNone \<and> tr_next (tr_at sk ex p c) = state_at sk ex t))"

definition records_ok :: "skeleton \<Rightarrow> exploration \<Rightarrow> (nat \<times> nat) set \<Rightarrow> bool" where
  "records_ok sk ex L \<longleftrightarrow> (\<forall>j < length (ex_keys ex).
     (sr_complete_exit (ex_records ex ! j) \<longleftrightarrow> (\<exists>c. (j, c) \<in> L \<and> completing (tr_terminal (tr_at sk ex j c)))) \<and>
     (sr_any_exit (ex_records ex ! j) \<longleftrightarrow> (\<exists>c. (j, c) \<in> L \<and> tr_terminal (tr_at sk ex j c) \<noteq> TNone)) \<and>
     (\<forall>b. bit (sr_reasons (ex_records ex ! j)) b \<longleftrightarrow> (\<exists>c. (j, c) \<in> L \<and> bit (end_reasons (tr_at sk ex j c)) b)))"

definition seen :: "skeleton \<Rightarrow> exploration \<Rightarrow> (nat \<times> nat) set \<Rightarrow> (transition \<Rightarrow> bool) \<Rightarrow> bool" where
  "seen sk ex L P \<longleftrightarrow> (\<exists>j c. (j, c) \<in> L \<and> P (tr_at sk ex j c))"

definition outcomes_ok :: "skeleton \<Rightarrow> exploration \<Rightarrow> (nat \<times> nat) set \<Rightarrow> bool" where
  "outcomes_ok sk ex L \<longleftrightarrow>
     (oc_completed (ex_outcomes ex) \<longleftrightarrow> seen sk ex L (\<lambda>s. tr_terminal s = TCompleted)) \<and>
     (oc_completed_over_pending (ex_outcomes ex) \<longleftrightarrow> seen sk ex L (\<lambda>s. tr_terminal s = TCompletedOverPending)) \<and>
     (oc_stalled (ex_outcomes ex) \<longleftrightarrow> seen sk ex L (\<lambda>s. tr_terminal s = TStalled)) \<and>
     (oc_failure_exit (ex_outcomes ex) \<longleftrightarrow> seen sk ex L (\<lambda>s. tr_terminal s = TFailureExit)) \<and>
     (oc_failed (ex_outcomes ex) \<longleftrightarrow> seen sk ex L (\<lambda>s. tr_terminal s = TFailed))"

definition fired_ok :: "skeleton \<Rightarrow> exploration \<Rightarrow> (nat \<times> nat) set \<Rightarrow> bool" where
  "fired_ok sk ex L \<longleftrightarrow> length (ex_fired ex) = length (sk_joins sk) \<and>
     (\<forall>k < length (sk_joins sk). ex_fired ex ! k \<longleftrightarrow> seen sk ex L (\<lambda>s. k \<in> set (tr_fired s)))"

fun ends_holding :: "nat \<times> end_kind \<Rightarrow> transition \<Rightarrow> bool" where
  "ends_holding (k, EndStalled) step = (tr_terminal step = TStalled \<and> k \<in> set (holding_joins (tr_next step)))"
| "ends_holding (k, EndCompleted) step =
     (tr_terminal step = TCompletedOverPending \<and> k \<in> set (holding_joins (tr_next step)))"

definition ends_ok :: "skeleton \<Rightarrow> exploration \<Rightarrow> (nat \<times> nat) set \<Rightarrow> bool" where
  "ends_ok sk ex L \<longleftrightarrow> (\<forall>e. map_of (ex_pending_ends ex) e \<noteq> None \<longleftrightarrow> seen sk ex L (ends_holding e))"

section \<open>One transition keeps the invariant\<close>

text \<open>The situation in which a transition is recorded, and the exploration after it.\<close>

definition taking :: "skeleton \<Rightarrow> nat \<Rightarrow> nat \<Rightarrow> exploration \<Rightarrow> (nat \<times> nat) set \<Rightarrow> bool" where
  "taking sk i c ex L \<longleftrightarrow> keys_ok sk ex \<and> log_ok sk ex L \<and> i < length (ex_keys ex) \<and> c \<in> tries sk (state_at sk ex i)"

definition taken :: "skeleton \<Rightarrow> nat \<Rightarrow> nat \<Rightarrow> nat \<Rightarrow> exploration \<Rightarrow> exploration" where
  "taken sk cap i c ex = take_combo cap i c (tr_at sk ex i c) ex"

lemma taken_cases:
  fixes sk cap i c ex
  defines "step \<equiv> tr_at sk ex i c"
  defines "ex' \<equiv> taken sk cap i c ex"
  obtains
    (ended) "tr_terminal step \<noteq> TNone" "ex_keys ex' = ex_keys ex" "ex_successors ex' = ex_successors ex"
      "ex_capped ex' = ex_capped ex" "ex_records ex' = (ex_records ex)[i := exit_record step (ex_records ex ! i)]"
  | (known) t where "tr_terminal step = TNone" "t < length (ex_keys ex)" "ex_keys ex ! t = encode_state (tr_next step)"
      "ex_keys ex' = ex_keys ex" "ex_successors ex' = (ex_successors ex)[i := ex_successors ex ! i @ [t]]"
      "ex_capped ex' = ex_capped ex" "ex_records ex' = ex_records ex"
  | (full) "tr_terminal step = TNone" "cap \<le> length (ex_keys ex)" "ex_capped ex'" "ex_keys ex' = ex_keys ex"
      "ex_successors ex' = ex_successors ex" "ex_records ex' = ex_records ex"
  | (fresh) "tr_terminal step = TNone" "encode_state (tr_next step) \<notin> set (ex_keys ex)" "length (ex_keys ex) < cap"
      "ex_keys ex' = ex_keys ex @ [encode_state (tr_next step)]" "ex_capped ex' = ex_capped ex"
      "ex_records ex' = ex_records ex @ [fresh_record i c]"
      "ex_successors ex' = (ex_successors ex @ [[]])[i := (ex_successors ex @ [[]]) ! i @ [length (ex_keys ex)]]"
  by (cases rule: take_combo_cases[where cap = cap and i = i and c = c and step = step and ex = ex])
    (simp_all add: ex'_def step_def taken_def that)

lemma taken_grows: "\<exists>ks. ex_keys (taken sk cap i c ex) = ex_keys ex @ ks"
  by (cases rule: taken_cases[where sk = sk and cap = cap and i = i and c = c and ex = ex]) auto

lemma taken_state: "j < length (ex_keys ex) \<Longrightarrow> state_at sk (taken sk cap i c ex) j = state_at sk ex j"
  using taken_grows state_at_append by blast

lemma taken_tr: "j < length (ex_keys ex) \<Longrightarrow> tr_at sk (taken sk cap i c ex) j d = tr_at sk ex j d"
  using taken_grows tr_at_append by blast

lemma taken_longer: "length (ex_keys ex) \<le> length (ex_keys (taken sk cap i c ex))"
  using taken_grows[of sk cap i c ex] by auto

lemma taking_index: "taking sk i c ex L \<Longrightarrow> (j, d) \<in> insert (i, c) L \<Longrightarrow> j < length (ex_keys ex)"
  by (auto simp: taking_def log_ok_def)

lemma taking_next:
  assumes "taking sk i c ex L"
  shows "shaped sk (tr_next (tr_at sk ex i c))"
    "tr_terminal (tr_at sk ex i c) = TNone \<Longrightarrow> sk_reach sk (tr_next (tr_at sk ex i c))"
proof -
  have r: "sk_reach sk (state_at sk ex i)" using assms by (simp add: taking_def state_at_reach)
  then show "shaped sk (tr_next (tr_at sk ex i c))" by (simp add: tr_at_def shaped_step shaped_reach)
  show "tr_terminal (tr_at sk ex i c) = TNone \<Longrightarrow> sk_reach sk (tr_next (tr_at sk ex i c))"
    unfolding tr_at_def using r assms by (intro reach_step) (simp_all add: taking_def)
qed

lemma log_taken:
  assumes "taking sk i c ex L"
  shows "log_ok sk (taken sk cap i c ex) (insert (i, c) L)"
  unfolding log_ok_def
proof (intro allI impI)
  fix j d assume "(j, d) \<in> insert (i, c) L"
  moreover from this have "j < length (ex_keys ex)" by (rule taking_index[OF assms])
  ultimately show "j < length (ex_keys (taken sk cap i c ex)) \<and> d \<in> tries sk (state_at sk (taken sk cap i c ex) j)"
    using assms taken_longer[of ex sk cap i c] by (auto simp: taken_state taking_def log_ok_def)
qed

lemma keys_taken:
  assumes "taking sk i c ex L"
  shows "keys_ok sk (taken sk cap i c ex)"
proof (cases rule: taken_cases[where sk = sk and cap = cap and i = i and c = c and ex = ex])
  case fresh
  then show ?thesis using assms taking_next(2)[OF assms] by (auto simp: taking_def keys_ok_def nth_append)
qed (use assms in \<open>simp_all add: taking_def keys_ok_def\<close>)

lemma seen_taken:
  assumes "taking sk i c ex L"
  shows "seen sk (taken sk cap i c ex) (insert (i, c) L) P \<longleftrightarrow> P (tr_at sk ex i c) \<or> seen sk ex L P"
proof -
  have "seen sk (taken sk cap i c ex) (insert (i, c) L) P \<longleftrightarrow> (\<exists>j d. (j, d) \<in> insert (i, c) L \<and> P (tr_at sk ex j d))"
    unfolding seen_def using taking_index[OF assms] taken_tr by metis
  then show ?thesis by (auto simp: seen_def)
qed

lemma outcomes_taken:
  assumes "taking sk i c ex L" "outcomes_ok sk ex L"
  shows "outcomes_ok sk (taken sk cap i c ex) (insert (i, c) L)"
  using assms(2) unfolding outcomes_ok_def seen_taken[OF assms(1)] unfolding taken_def take_combo_outcomes
  by (cases "tr_terminal (tr_at sk ex i c)") (simp_all add: exit_outcomes_def)

lemma mark_length: "length (fold (\<lambda>j f. f[j := True]) js f) = length f"
  by (induction js arbitrary: f) simp_all

lemma mark_one: "k < length f \<Longrightarrow> f[a := True] ! k \<longleftrightarrow> k = a \<or> f ! k"
  by (cases "k = a") simp_all

lemma mark_nth: "k < length f \<Longrightarrow> fold (\<lambda>j f. f[j := True]) js f ! k \<longleftrightarrow> k \<in> set js \<or> f ! k"
  by (induction js arbitrary: f) (auto simp: mark_one)

lemma fired_taken:
  assumes "taking sk i c ex L" "fired_ok sk ex L"
  shows "fired_ok sk (taken sk cap i c ex) (insert (i, c) L)"
  using assms(2) unfolding fired_ok_def seen_taken[OF assms(1)] unfolding taken_def take_combo_signals
  by (simp add: mark_length mark_nth)

lemma fold_emplace: "map_of (fold (\<lambda>j. emplace (f j) (g j)) js m) e \<noteq> None \<longleftrightarrow> e \<in> f ` set js \<or> map_of m e \<noteq> None"
  by (induction js arbitrary: m) (auto simp: emplace_def map_add_def split: option.splits)

lemma taken_ends:
  "map_of (ex_pending_ends (taken sk cap i c ex)) e \<noteq> None \<longleftrightarrow>
     ends_holding e (tr_at sk ex i c) \<or> map_of (ex_pending_ends ex) e \<noteq> None"
proof -
  obtain k kind where e: "e = (k, kind)" by (cases e)
  show ?thesis
    by (cases "tr_terminal (tr_at sk ex i c)"; cases kind)
      (auto simp: e taken_def take_combo_def record_terminal_def record_pending_end_def record_signals_def add_successor_def
        intern_def Let_def fold_emplace[unfolded not_None_eq] split: option.splits if_splits)
qed

lemma ends_taken:
  assumes "taking sk i c ex L" "ends_ok sk ex L"
  shows "ends_ok sk (taken sk cap i c ex) (insert (i, c) L)"
  using assms(2) unfolding ends_ok_def seen_taken[OF assms(1)] taken_ends by blast

lemma nth_update_append:
  "i < length xs \<Longrightarrow> (xs @ [[]])[i := (xs @ [[]]) ! i @ [t]] = xs[i := xs ! i @ [t]] @ [[]]"
  by (simp add: nth_append list_update_append)

lemma succ_sound_taken:
  assumes "taking sk i c ex L" "succ_sound sk ex L"
  shows "succ_sound sk (taken sk cap i c ex) (insert (i, c) L)"
proof -
  let ?ex = "taken sk cap i c ex"
  have i: "i < length (ex_keys ex)" "keys_ok sk ex" using assms(1) by (simp_all add: taking_def)
  have old: "t < length (ex_keys ?ex) \<and> (\<exists>d. (j, d) \<in> insert (i, c) L \<and> tr_terminal (tr_at sk ?ex j d) = TNone \<and>
      tr_next (tr_at sk ?ex j d) = state_at sk ?ex t)"
    if j: "j < length (ex_keys ex)" and t: "t \<in> set (ex_successors ex ! j)" for j t
  proof -
    from assms(2) j t obtain d where d: "t < length (ex_keys ex)" "(j, d) \<in> L" "tr_terminal (tr_at sk ex j d) = TNone"
      "tr_next (tr_at sk ex j d) = state_at sk ex t" by (auto simp: succ_sound_def)
    with j show ?thesis using taken_longer[of ex sk cap i c] by (auto simp: taken_tr taken_state)
  qed
  have new: "t < length (ex_keys ?ex) \<and> (\<exists>d. (i, d) \<in> insert (i, c) L \<and> tr_terminal (tr_at sk ?ex i d) = TNone \<and>
      tr_next (tr_at sk ?ex i d) = state_at sk ?ex t)"
    if "t < length (ex_keys ?ex)" "ex_keys ?ex ! t = encode_state (tr_next (tr_at sk ex i c))"
      "tr_terminal (tr_at sk ex i c) = TNone" for t
  proof -
    have "state_at sk ?ex t = tr_next (tr_at sk ex i c)"
      using that(2) taking_next(1)[OF assms(1)] by (simp add: state_at_def decode_encode)
    with that i show ?thesis by (auto simp: taken_tr)
  qed
  have len: "length (ex_successors ex) = length (ex_keys ex)" using i(2) by (simp add: keys_ok_def)
  show ?thesis
    unfolding succ_sound_def
  proof (intro allI impI ballI)
    fix j t assume j: "j < length (ex_keys ?ex)" and t: "t \<in> set (ex_successors ?ex ! j)"
    show "t < length (ex_keys ?ex) \<and> (\<exists>d. (j, d) \<in> insert (i, c) L \<and> tr_terminal (tr_at sk ?ex j d) = TNone \<and>
        tr_next (tr_at sk ?ex j d) = state_at sk ?ex t)"
    proof (cases rule: taken_cases[where sk = sk and cap = cap and i = i and c = c and ex = ex])
      case (known u)
      show ?thesis
      proof (cases "t \<in> set (ex_successors ex ! j)")
        case True
        then show ?thesis using old j known by simp
      next
        case False
        then have "j = i" "t = u" using t known(5) i len j known(4) by (auto simp: nth_list_update split: if_splits)
        with known show ?thesis using new[of u] by simp
      qed
    next
      case fresh
      show ?thesis
      proof (cases "j < length (ex_keys ex) \<and> t \<in> set (ex_successors ex ! j)")
        case True
        then show ?thesis using old by blast
      next
        case False
        then have "j = i" "t = length (ex_keys ex)"
          using t fresh(7) i len j fresh(4)
          by (auto simp: nth_update_append nth_append nth_list_update less_Suc_eq split: if_splits)
        with fresh show ?thesis using new[of t] by simp
      qed
    qed (use old j t in auto)
  qed
qed

lemma succ_complete_taken:
  assumes "taking sk i c ex L" "succ_complete sk ex L" "\<not> ex_capped (taken sk cap i c ex)" "succ_sound sk ex L"
  shows "succ_complete sk (taken sk cap i c ex) (insert (i, c) L)"
proof -
  let ?ex = "taken sk cap i c ex"
  have i: "i < length (ex_keys ex)" "keys_ok sk ex" using assms(1) by (simp_all add: taking_def)
  have len: "length (ex_successors ex) = length (ex_keys ex)" using i(2) by (simp add: keys_ok_def)
  have more: "set (ex_successors ex ! j) \<subseteq> set (ex_successors ?ex ! j)" if "j < length (ex_keys ex)" for j
    using that i len
    by (cases rule: taken_cases[where sk = sk and cap = cap and i = i and c = c and ex = ex])
      (auto simp: nth_update_append nth_append nth_list_update)
  have here: "\<exists>t \<in> set (ex_successors ?ex ! i). tr_next (tr_at sk ex i c) = state_at sk ?ex t"
    if "tr_terminal (tr_at sk ex i c) = TNone"
  proof -
    have "\<exists>t \<in> set (ex_successors ?ex ! i). ex_keys ?ex ! t = encode_state (tr_next (tr_at sk ex i c))"
      using that assms(3) i len
      by (cases rule: taken_cases[where sk = sk and cap = cap and i = i and c = c and ex = ex])
        (auto simp: nth_update_append nth_append)
    then obtain t where t: "t \<in> set (ex_successors ?ex ! i)" "ex_keys ?ex ! t = encode_state (tr_next (tr_at sk ex i c))"
      by blast
    have "state_at sk ?ex t = tr_next (tr_at sk ex i c)"
      unfolding state_at_def t(2) by (rule decode_encode[OF taking_next(1)[OF assms(1)]])
    then show ?thesis using t(1) by (intro bexI[of _ t]) simp_all
  qed
  have old: "\<exists>t \<in> set (ex_successors ?ex ! j). tr_next (tr_at sk ex j d) = state_at sk ?ex t"
    if jd: "(j, d) \<in> L" "tr_terminal (tr_at sk ex j d) = TNone" for j d
  proof -
    have j: "j < length (ex_keys ex)" using taking_index[OF assms(1)] jd(1) by blast
    from assms(2) jd obtain t where t: "t \<in> set (ex_successors ex ! j)" "tr_next (tr_at sk ex j d) = state_at sk ex t"
      by (auto simp: succ_complete_def)
    have "t \<in> set (ex_successors ?ex ! j)" using more[OF j] t(1) by blast
    moreover have "state_at sk ?ex t = state_at sk ex t"
      using assms(4) t(1) j by (intro taken_state) (auto simp: succ_sound_def)
    ultimately show ?thesis using t(2) by metis
  qed
  show ?thesis
    unfolding succ_complete_def
  proof (intro allI impI)
    fix j d assume jd: "(j, d) \<in> insert (i, c) L" and none: "tr_terminal (tr_at sk ?ex j d) = TNone"
    have j: "j < length (ex_keys ex)" by (rule taking_index[OF assms(1) jd])
    show "\<exists>t \<in> set (ex_successors ?ex ! j). tr_next (tr_at sk ?ex j d) = state_at sk ?ex t"
      using jd none here old by (auto simp: taken_tr j)
  qed
qed

lemma parents_taken:
  assumes "taking sk i c ex L" "parents_ok sk ex L"
  shows "parents_ok sk (taken sk cap i c ex) (insert (i, c) L)"
proof -
  let ?ex = "taken sk cap i c ex"
  have i: "i < length (ex_keys ex)" "length (ex_records ex) = length (ex_keys ex)"
    using assms(1) by (simp_all add: taking_def keys_ok_def)
  have same: "sr_parent (ex_records ?ex ! t) = sr_parent (ex_records ex ! t) \<and> sr_combo (ex_records ?ex ! t) = sr_combo (ex_records ex ! t)"
    if "t < length (ex_keys ex)" for t
    using that i
    by (cases rule: taken_cases[where sk = sk and cap = cap and i = i and c = c and ex = ex])
      (auto simp: nth_append nth_list_update exit_record_fields)
  show ?thesis
    unfolding parents_ok_def Let_def
  proof (intro allI impI)
    fix t assume t: "0 < t" "t < length (ex_keys ?ex)"
    let ?p = "sr_parent (ex_records ?ex ! t)" and ?d = "sr_combo (ex_records ?ex ! t)"
    show "?p < t \<and> (?p, ?d) \<in> insert (i, c) L \<and> tr_terminal (tr_at sk ?ex ?p ?d) = TNone \<and>
        tr_next (tr_at sk ?ex ?p ?d) = state_at sk ?ex t"
    proof (cases "t < length (ex_keys ex)")
      case True
      let ?q = "sr_parent (ex_records ex ! t)" and ?e = "sr_combo (ex_records ex ! t)"
      have q: "?q < t" "(?q, ?e) \<in> L" "tr_terminal (tr_at sk ex ?q ?e) = TNone"
        "tr_next (tr_at sk ex ?q ?e) = state_at sk ex t"
        using assms(2) t(1) True by (simp_all add: parents_ok_def Let_def)
      have "?q < length (ex_keys ex)" using q(1) True by simp
      with q same[OF True] True show ?thesis by (simp add: taken_tr taken_state)
    next
      case False
      then show ?thesis
      proof (cases rule: taken_cases[where sk = sk and cap = cap and i = i and c = c and ex = ex])
        case fresh
        then have new: "t = length (ex_keys ex)" using False t by simp
        then have "ex_records ?ex ! t = fresh_record i c" using fresh(6) i by (simp add: nth_append)
        moreover have "state_at sk ?ex t = tr_next (tr_at sk ex i c)"
          using fresh(4) new taking_next(1)[OF assms(1)] by (simp add: state_at_def decode_encode)
        ultimately show ?thesis using fresh(1) new i by (simp add: fresh_record_def taken_tr)
      qed (use t False in simp_all)
    qed
  qed
qed

lemma records_taken:
  assumes "taking sk i c ex L" "records_ok sk ex L"
  shows "records_ok sk (taken sk cap i c ex) (insert (i, c) L)"
proof -
  let ?ex = "taken sk cap i c ex" and ?step = "tr_at sk ex i c"
  have i: "i < length (ex_keys ex)" "length (ex_records ex) = length (ex_keys ex)"
    using assms(1) by (simp_all add: taking_def keys_ok_def)
  have rec: "ex_records ?ex ! j = (if j = i \<and> tr_terminal ?step \<noteq> TNone then exit_record ?step (ex_records ex ! j) else ex_records ex ! j)"
    if "j < length (ex_keys ex)" for j
    using that i
    by (cases rule: taken_cases[where sk = sk and cap = cap and i = i and c = c and ex = ex]) (auto simp: nth_append)
  have quiet: "\<not> completing TNone" "tr_terminal step = TNone \<Longrightarrow> end_reasons step = 0" for step
    by (simp_all add: completing_def end_reasons_def)
  have new: "sr_complete_exit (ex_records ?ex ! j) = False \<and> sr_any_exit (ex_records ?ex ! j) = False \<and>
      sr_reasons (ex_records ?ex ! j) = 0 \<and> (\<forall>d. (j, d) \<notin> insert (i, c) L)"
    if "j < length (ex_keys ?ex)" "\<not> j < length (ex_keys ex)" for j
    using that i taking_index[OF assms(1)]
    by (cases rule: taken_cases[where sk = sk and cap = cap and i = i and c = c and ex = ex])
      (auto simp: nth_append fresh_record_def less_Suc_eq)
  show ?thesis
    unfolding records_ok_def
  proof (intro allI impI)
    fix j assume j: "j < length (ex_keys ?ex)"
    show "(sr_complete_exit (ex_records ?ex ! j) \<longleftrightarrow>
             (\<exists>d. (j, d) \<in> insert (i, c) L \<and> completing (tr_terminal (tr_at sk ?ex j d)))) \<and>
        (sr_any_exit (ex_records ?ex ! j) \<longleftrightarrow> (\<exists>d. (j, d) \<in> insert (i, c) L \<and> tr_terminal (tr_at sk ?ex j d) \<noteq> TNone)) \<and>
        (\<forall>b. bit (sr_reasons (ex_records ?ex ! j)) b \<longleftrightarrow>
             (\<exists>d. (j, d) \<in> insert (i, c) L \<and> bit (end_reasons (tr_at sk ?ex j d)) b))"
    proof (cases "j < length (ex_keys ex)")
      case False
      then show ?thesis using new[OF j False] i by auto
    next
      case True
      note old = assms(2)[unfolded records_ok_def, rule_format, OF True]
      show ?thesis
      proof (cases "j = i")
        case False
        then show ?thesis using old rec[OF True] by (simp add: taken_tr True)
      next
        case here: True
        show ?thesis
        proof (cases "tr_terminal ?step = TNone")
          case True
          then show ?thesis using old rec[OF i(1)] quiet(1) quiet(2)[OF True] i here
            by (auto simp: taken_tr)
        next
          case False
          then have "ex_records ?ex ! i = exit_record ?step (ex_records ex ! i)" using rec[OF i(1)] by simp
          then show ?thesis
            using old exit_record_fields[OF False] False i unfolding here by (auto simp: taken_tr bit_or_iff)
        qed
      qed
    qed
  qed
qed

section \<open>The exploration keeps the invariant\<close>

definition ex_inv :: "skeleton \<Rightarrow> exploration \<Rightarrow> (nat \<times> nat) set \<Rightarrow> bool" where
  "ex_inv sk ex L \<longleftrightarrow> keys_ok sk ex \<and> log_ok sk ex L \<and> succ_sound sk ex L \<and> parents_ok sk ex L \<and>
     records_ok sk ex L \<and> outcomes_ok sk ex L \<and> fired_ok sk ex L \<and> ends_ok sk ex L \<and>
     (\<not> ex_capped ex \<longrightarrow> succ_complete sk ex L)"

lemma taken_capped: "\<not> ex_capped (taken sk cap i c ex) \<Longrightarrow> \<not> ex_capped ex"
  by (cases rule: taken_cases[where sk = sk and cap = cap and i = i and c = c and ex = ex]) simp_all

lemma ex_inv_taken:
  assumes "ex_inv sk ex L" "i < length (ex_keys ex)" "c \<in> tries sk (state_at sk ex i)"
  shows "ex_inv sk (taken sk cap i c ex) (insert (i, c) L)"
proof -
  have t: "taking sk i c ex L" using assms by (simp add: taking_def ex_inv_def)
  note inv = assms(1)[unfolded ex_inv_def]
  show ?thesis
    unfolding ex_inv_def
    using inv keys_taken[OF t] log_taken[OF t] succ_sound_taken[OF t] parents_taken[OF t] records_taken[OF t]
      outcomes_taken[OF t] fired_taken[OF t] ends_taken[OF t] succ_complete_taken[OF t] taken_capped[of sk cap i c ex]
    by blast
qed

lemma ex_inv_same:
  assumes "ex_inv sk ex L" "ex_keys ex' = ex_keys ex" "ex_outcomes ex' = ex_outcomes ex" "ex_fired ex' = ex_fired ex"
    "ex_pending_ends ex' = ex_pending_ends ex" "ex_capped ex \<longrightarrow> ex_capped ex'"
    "length (ex_records ex') = length (ex_records ex)" "length (ex_successors ex') = length (ex_successors ex)"
    "\<And>j. j < length (ex_keys ex) \<Longrightarrow> set (ex_successors ex' ! j) = set (ex_successors ex ! j)"
    "\<And>j. j < length (ex_keys ex) \<Longrightarrow>
       (\<lambda>r. (sr_parent r, sr_combo r, sr_complete_exit r, sr_any_exit r, sr_reasons r)) (ex_records ex' ! j) =
       (\<lambda>r. (sr_parent r, sr_combo r, sr_complete_exit r, sr_any_exit r, sr_reasons r)) (ex_records ex ! j)"
  shows "ex_inv sk ex' L"
proof -
  have at: "state_at sk ex' = state_at sk ex" "tr_at sk ex' = tr_at sk ex"
    by (simp_all add: fun_eq_iff state_at_def tr_at_def assms(2))
  have rec: "sr_parent (ex_records ex' ! j) = sr_parent (ex_records ex ! j)"
    "sr_combo (ex_records ex' ! j) = sr_combo (ex_records ex ! j)"
    "sr_complete_exit (ex_records ex' ! j) = sr_complete_exit (ex_records ex ! j)"
    "sr_any_exit (ex_records ex' ! j) = sr_any_exit (ex_records ex ! j)"
    "sr_reasons (ex_records ex' ! j) = sr_reasons (ex_records ex ! j)" if "j < length (ex_keys ex)" for j
    using assms(10)[OF that] by simp_all
  have "succ_complete sk ex' L" if "\<not> ex_capped ex'"
  proof -
    have c: "succ_complete sk ex L" "log_ok sk ex L" using assms(1,6) that by (auto simp: ex_inv_def)
    show ?thesis
      unfolding succ_complete_def at
    proof (intro allI impI)
      fix j d assume jd: "(j, d) \<in> L" "tr_terminal (tr_at sk ex j d) = TNone"
      then have "j < length (ex_keys ex)" using c(2) by (auto simp: log_ok_def)
      with c(1) jd assms(9) show "\<exists>t\<in>set (ex_successors ex' ! j). tr_next (tr_at sk ex j d) = state_at sk ex t"
        by (auto simp: succ_complete_def)
    qed
  qed
  moreover have "keys_ok sk ex'" using assms(1,2,7,8) by (auto simp: ex_inv_def keys_ok_def)
  moreover have "log_ok sk ex' L" using assms(1,2) by (simp add: ex_inv_def log_ok_def at)
  moreover have "succ_sound sk ex' L" using assms(1,2,9) by (simp add: ex_inv_def succ_sound_def at)
  moreover have "parents_ok sk ex' L" using assms(1,2) rec by (simp add: ex_inv_def parents_ok_def at)
  moreover have "records_ok sk ex' L" using assms(1,2) rec by (simp add: ex_inv_def records_ok_def at)
  moreover have "outcomes_ok sk ex' L" using assms(1,3) by (simp add: ex_inv_def outcomes_ok_def seen_def at)
  moreover have "fired_ok sk ex' L" using assms(1,4) by (simp add: ex_inv_def fired_ok_def seen_def at)
  moreover have "ends_ok sk ex' L" using assms(1,5) by (simp add: ex_inv_def ends_ok_def seen_def at)
  ultimately show ?thesis by (simp add: ex_inv_def)
qed

definition opaque_ok :: "skeleton \<Rightarrow> exploration \<Rightarrow> nat \<Rightarrow> bool" where
  "opaque_ok sk ex n \<longleftrightarrow> n \<le> length (ex_keys ex) \<and>
     (\<forall>j < length (ex_keys ex). sr_opaque (ex_records ex ! j) \<longleftrightarrow> j < n \<and> opaque_state sk (state_at sk ex j))"

lemma opaque_taken:
  assumes "keys_ok sk ex" "opaque_ok sk ex n" "i < length (ex_keys ex)"
  shows "opaque_ok sk (taken sk cap i c ex) n"
proof -
  let ?ex = "taken sk cap i c ex"
  have len: "length (ex_records ex) = length (ex_keys ex)" using assms(1) by (simp add: keys_ok_def)
  have n: "n \<le> length (ex_keys ex)" using assms(2) by (simp add: opaque_ok_def)
  have "sr_opaque (ex_records ?ex ! j) \<longleftrightarrow> j < n \<and> opaque_state sk (state_at sk ?ex j)" if j: "j < length (ex_keys ?ex)" for j
  proof (cases "j < length (ex_keys ex)")
    case True
    have "sr_opaque (ex_records ?ex ! j) = sr_opaque (ex_records ex ! j)"
      using True len assms(3)
      by (cases rule: taken_cases[where sk = sk and cap = cap and i = i and c = c and ex = ex])
        (auto simp: nth_append nth_list_update exit_record_fields)
    then show ?thesis using assms(2) True by (simp add: opaque_ok_def taken_state)
  next
    case False
    then have "\<not> sr_opaque (ex_records ?ex ! j)"
      using j len
      by (cases rule: taken_cases[where sk = sk and cap = cap and i = i and c = c and ex = ex])
        (auto simp: nth_append fresh_record_def)
    then show ?thesis using n False by simp
  qed
  then show ?thesis using n taken_longer[of ex sk cap i c] by (auto simp: opaque_ok_def)
qed

lemma scan_inv:
  assumes "ex_inv sk ex L" "opaque_ok sk ex m" "i < length (ex_keys ex)" "s = state_at sk ex i"
    "{combo..<combo + n} \<subseteq> tries sk s" "\<not> ex_capped ex"
  shows "\<exists>L'. ex_inv sk (scan_combos sk cap i s (ready_nodes sk s) (choices_of sk s) n combo ex) L' \<and>
     opaque_ok sk (scan_combos sk cap i s (ready_nodes sk s) (choices_of sk s) n combo ex) m \<and>
     (\<exists>ks. ex_keys (scan_combos sk cap i s (ready_nodes sk s) (choices_of sk s) n combo ex) = ex_keys ex @ ks) \<and>
     (\<not> ex_capped (scan_combos sk cap i s (ready_nodes sk s) (choices_of sk s) n combo ex) \<longrightarrow>
        L' = L \<union> {i} \<times> {combo..<combo + n})"
  using assms
proof (induction n arbitrary: combo ex L)
  case 0
  then show ?case by auto
next
  case (Suc n)
  let ?ex = "taken sk cap i combo ex"
  have step: "take_combo cap i combo (apply_step sk s (ready_nodes sk s) (choices_of sk s) combo) ex = ?ex"
    by (simp add: taken_def tr_at_def step_of_def Suc.prems(4))
  have try_c: "combo \<in> tries sk (state_at sk ex i)" using Suc.prems(4,5) by auto
  have inv: "ex_inv sk ?ex (insert (i, combo) L)" using ex_inv_taken[OF Suc.prems(1,3) try_c] .
  have op: "opaque_ok sk ?ex m" using Suc.prems(1,2,3) by (intro opaque_taken) (simp_all add: ex_inv_def)
  obtain ks where ks: "ex_keys ?ex = ex_keys ex @ ks" using taken_grows by blast
  show ?case
  proof (cases "ex_capped ?ex")
    case True
    then have "scan_combos sk cap i s (ready_nodes sk s) (choices_of sk s) (Suc n) combo ex = ?ex" by (simp add: step)
    then show ?thesis using inv op ks True by (simp only: simp_thms) blast
  next
    case False
    then have scan: "scan_combos sk cap i s (ready_nodes sk s) (choices_of sk s) (Suc n) combo ex =
        scan_combos sk cap i s (ready_nodes sk s) (choices_of sk s) n (combo + 1) ?ex" by (simp add: step)
    have "s = state_at sk ?ex i" "i < length (ex_keys ?ex)"
      using Suc.prems(3,4) ks by (simp_all add: taken_state)
    moreover have "{combo + 1..<combo + 1 + n} \<subseteq> tries sk s" using Suc.prems(5) by auto
    ultimately obtain L' where L': "ex_inv sk (scan_combos sk cap i s (ready_nodes sk s) (choices_of sk s) n (combo + 1) ?ex) L'"
      "opaque_ok sk (scan_combos sk cap i s (ready_nodes sk s) (choices_of sk s) n (combo + 1) ?ex) m"
      "\<exists>ks. ex_keys (scan_combos sk cap i s (ready_nodes sk s) (choices_of sk s) n (combo + 1) ?ex) = ex_keys ?ex @ ks"
      "\<not> ex_capped (scan_combos sk cap i s (ready_nodes sk s) (choices_of sk s) n (combo + 1) ?ex) \<longrightarrow>
        L' = insert (i, combo) L \<union> {i} \<times> {combo + 1..<combo + 1 + n}"
      using Suc.IH[OF inv op] False by blast
    have range: "insert (i, combo) L \<union> {i} \<times> {combo + 1..<combo + 1 + n} = L \<union> {i} \<times> {combo..<combo + Suc n}"
      by (auto simp: less_Suc_eq_le)
    show ?thesis unfolding scan using L' ks unfolding range by (intro exI[of _ L']) auto
  qed
qed

definition explored :: "skeleton \<Rightarrow> exploration \<Rightarrow> nat \<Rightarrow> bool" where
  "explored sk ex i \<longleftrightarrow> opaque_ok sk ex i \<and>
     (\<exists>L. ex_inv sk ex L \<and> (\<not> ex_capped ex \<longrightarrow> L = {(j, c). j < i \<and> c \<in> tries sk (state_at sk ex j)}))"

lemma opaque_same:
  assumes "opaque_ok sk ex n" "ex_keys ex' = ex_keys ex" "\<And>j. j < length (ex_keys ex) \<Longrightarrow> sr_opaque (ex_records ex' ! j) = sr_opaque (ex_records ex ! j)"
  shows "opaque_ok sk ex' n"
  using assms by (simp add: opaque_ok_def state_at_def)

lemma opaque_Suc:
  assumes "opaque_ok sk ex i" "i < length (ex_keys ex)" "\<not> opaque_state sk (state_at sk ex i)"
  shows "opaque_ok sk ex (Suc i)"
  using assms by (auto simp: opaque_ok_def less_Suc_eq)

lemma sort_inv: "ex_inv sk ex L \<Longrightarrow> i < length (ex_keys ex) \<Longrightarrow> ex_inv sk (sort_successors i ex) L"
  by (rule ex_inv_same) (auto simp: sort_successors_def ex_inv_def keys_ok_def nth_list_update)

lemma tries_combos:
  assumes "\<not> opaque_state sk s" "count_combos r (choices_of sk s) 1 = Some n"
  shows "tries sk s = {0..<n}"
  using assms count_combos_product[OF assms(2)] by (auto simp: tries_def combos_of_def)

lemma visit_explored:
  assumes "explored sk ex i" "i < length (ex_keys ex)" "\<not> ex_capped ex"
  shows "explored sk (visit_state sk cap i ex) (Suc i)"
proof -
  let ?s = "state_at sk ex i" and ?b = "before_scan sk i ex"
  define D where "D n e = {(j, c). j < n \<and> c \<in> tries sk (state_at sk e j)}" for n e
  from assms(1,3) obtain inv: "ex_inv sk ex (D i ex)" and op: "opaque_ok sk ex i" by (auto simp: explored_def D_def)
  have inv_b: "ex_inv sk ?b (D i ex)" by (rule ex_inv_same[OF inv]) simp_all
  have op_b: "opaque_ok sk ?b i" by (rule opaque_same[OF op]) simp_all
  have s_b: "?s = state_at sk ?b i" by (simp add: state_at_def)
  show ?thesis
  proof (cases rule: visit_state_cases[where sk = sk and i = i and ex = ex and cap = cap])
    case opaque
    let ?ex = "visit_state sk cap i ex"
    have len: "length (ex_records ex) = length (ex_keys ex)" using inv by (simp add: ex_inv_def keys_ok_def)
    have op_s: "opaque_state sk ?s" using opaque(1) by (simp add: opaque_state_def state_at_def)
    have same: "state_at sk ?ex = state_at sk ex" by (simp add: fun_eq_iff state_at_def opaque(2))
    have "ex_inv sk ?ex (D i ex)"
      by (rule ex_inv_same[OF inv_b]) (auto simp: opaque(2) nth_list_update len assms(2))
    moreover have "D (Suc i) ?ex = D i ex" using op_s by (auto simp: D_def same less_Suc_eq tries_def)
    moreover have "opaque_ok sk ?ex (Suc i)"
    proof -
      have "ex_keys ?ex = ex_keys ex" "ex_records ?ex = (ex_records ex)[i := (ex_records ex ! i)\<lparr>sr_opaque := True\<rparr>]"
        by (simp_all add: opaque(2))
      then show ?thesis using op op_s assms(2) len unfolding opaque_ok_def same by (auto simp: nth_list_update less_Suc_eq)
    qed
    ultimately show ?thesis unfolding explored_def D_def by metis
  next
    case capped
    have "ex_inv sk (visit_state sk cap i ex) (D i ex)" by (rule ex_inv_same[OF inv_b]) (simp_all add: capped(2))
    moreover have "opaque_ok sk (visit_state sk cap i ex) (Suc i)"
      using capped(1) assms(2)
      by (intro opaque_Suc opaque_same[OF op]) (simp_all add: capped(2) opaque_state_def state_at_def)
    ultimately show ?thesis using capped(2) by (auto simp: explored_def)
  next
    case (scan n)
    have not_op: "\<not> opaque_state sk ?s" using scan(1) by (simp add: opaque_state_def state_at_def)
    have range: "tries sk ?s = {0..<n}"
      using scan(2) by (intro tries_combos[OF not_op]) (simp add: choices_of_def state_at_def)
    let ?e = "scan_combos sk cap i ?s (ready_nodes sk ?s) (choices_of sk ?s) n 0 ?b"
    have ex': "visit_state sk cap i ex = sort_successors i ?e" using scan(4) by (simp only: state_at_def choices_of_def)
    obtain L' ks where L': "ex_inv sk ?e L'" "opaque_ok sk ?e i" "ex_keys ?e = ex_keys ex @ ks"
      "\<not> ex_capped ?e \<longrightarrow> L' = D i ex \<union> {i} \<times> {0..<n}"
      using scan_inv[OF inv_b op_b, of i ?s 0 n cap] assms(2,3) s_b range by auto
    have i: "i < length (ex_keys ?e)" using L'(3) assms(2) by simp
    have same: "state_at sk (sort_successors i ?e) j = state_at sk ex j" if "j < Suc i" for j
      using that L'(3) assms(2) by (simp add: state_at_def nth_append)
    have "p \<in> D (Suc i) (sort_successors i ?e) \<longleftrightarrow> p \<in> D i ex \<union> {i} \<times> {0..<n}" for p
    proof (cases p)
      case (Pair j c)
      show ?thesis
      proof (cases "j < Suc i")
        case True
        show ?thesis using True same[OF True] range unfolding Pair D_def by (cases "j = i") auto
      qed (simp add: Pair D_def)
    qed
    then have "D (Suc i) (sort_successors i ?e) = D i ex \<union> {i} \<times> {0..<n}" by blast
    moreover have "ex_inv sk (sort_successors i ?e) L'" by (rule sort_inv[OF L'(1) i])
    moreover have "opaque_ok sk (sort_successors i ?e) (Suc i)"
    proof (rule opaque_Suc)
      show "opaque_ok sk (sort_successors i ?e) i" by (rule opaque_same[OF L'(2)]) (simp_all only: sort_successors_same)
      show "i < length (ex_keys (sort_successors i ?e))" using i by (simp only: sort_successors_same)
      show "\<not> opaque_state sk (state_at sk (sort_successors i ?e) i)" using not_op same[OF lessI] by (simp only: simp_thms)
    qed
    moreover have "\<not> ex_capped (sort_successors i ?e) \<longrightarrow> L' = D i ex \<union> {i} \<times> {0..<n}"
      using L'(4) by (simp only: sort_successors_same)
    ultimately show ?thesis unfolding ex' explored_def D_def[symmetric] by (intro conjI exI[of _ L']) (simp_all only:)
  qed
qed

lemma explore_loop_explored:
  "explored sk ex i \<Longrightarrow> \<exists>n. explored sk (explore_loop sk cap i ex) n \<and>
     (\<not> ex_capped (explore_loop sk cap i ex) \<longrightarrow> n = length (ex_keys (explore_loop sk cap i ex)))"
proof (induction sk cap i ex rule: explore_loop.induct)
  case (1 sk cap i ex)
  show ?case
  proof (cases "i < length (ex_keys ex) \<and> \<not> ex_capped ex")
    case True
    have "explored sk (visit_state sk cap i ex) (i + 1)" using visit_explored[OF 1(2)] True by simp
    moreover have "explore_loop sk cap i ex = explore_loop sk cap (i + 1) (visit_state sk cap i ex)"
      using True by (subst explore_loop.simps) (simp only: simp_thms if_True)
    ultimately show ?thesis using 1(1)[OF True] by (simp only:)
  next
    case False
    then have "explore_loop sk cap i ex = ex" by (subst explore_loop.simps) (simp only: if_False)
    moreover have "i \<le> length (ex_keys ex)" using 1(2) by (simp add: explored_def opaque_ok_def)
    ultimately show ?thesis using False 1(2) by (intro exI[of _ i]) auto
  qed
qed

definition first_exploration :: "skeleton \<Rightarrow> exploration" where
  "first_exploration sk = intern (encode_state (initial_state sk)) 0 0 (empty_exploration sk)"

lemma first_exploration_fields:
  "ex_keys (first_exploration sk) = [encode_state (initial_state sk)]"
  "ex_records (first_exploration sk) = [fresh_record 0 0]" "ex_successors (first_exploration sk) = [[]]"
  "ex_outcomes (first_exploration sk) = no_outcomes" "ex_pending_ends (first_exploration sk) = []"
  "ex_fired (first_exploration sk) = replicate (length (sk_joins sk)) False"
  by (simp_all add: first_exploration_def intern_def empty_exploration_def)

lemma first_explored: "explored sk (first_exploration sk) 0"
proof -
  have "keys_ok sk (first_exploration sk)"
    using reach_start[of sk] by (auto simp: keys_ok_def first_exploration_fields)
  moreover have "records_ok sk (first_exploration sk) {}" "parents_ok sk (first_exploration sk) {}"
    "succ_sound sk (first_exploration sk) {}"
    by (simp_all add: records_ok_def parents_ok_def succ_sound_def first_exploration_fields fresh_record_def)
  moreover have "log_ok sk (first_exploration sk) {}" "succ_complete sk (first_exploration sk) {}"
    by (simp_all add: log_ok_def succ_complete_def)
  moreover have "outcomes_ok sk (first_exploration sk) {}" "fired_ok sk (first_exploration sk) {}"
    "ends_ok sk (first_exploration sk) {}"
    by (simp_all add: outcomes_ok_def fired_ok_def ends_ok_def seen_def first_exploration_fields no_outcomes_def)
  ultimately have "ex_inv sk (first_exploration sk) {}" by (simp add: ex_inv_def)
  moreover have "opaque_ok sk (first_exploration sk) 0"
    by (simp add: opaque_ok_def first_exploration_fields fresh_record_def)
  ultimately show ?thesis by (auto simp: explored_def)
qed

section \<open>What the exploration found\<close>

definition all_tries :: "skeleton \<Rightarrow> exploration \<Rightarrow> (nat \<times> nat) set" where
  "all_tries sk ex = {(j, c). j < length (ex_keys ex) \<and> c \<in> tries sk (state_at sk ex j)}"

lemma explore_nonempty:
  assumes "sk_start sk \<noteq> []"
  obtains n L where "opaque_ok sk (explore sk cap) n" "ex_inv sk (explore sk cap) L"
    "\<not> ex_capped (explore sk cap) \<Longrightarrow> n = length (ex_keys (explore sk cap)) \<and> L = all_tries sk (explore sk cap)"
proof -
  have "explore sk cap = explore_loop sk cap 0 (first_exploration sk)"
    using assms by (simp add: explore_def first_exploration_def Let_def)
  with explore_loop_explored[OF first_explored, of sk cap] obtain n where
    n: "explored sk (explore sk cap) n" "\<not> ex_capped (explore sk cap) \<longrightarrow> n = length (ex_keys (explore sk cap))" by auto
  then obtain L where "opaque_ok sk (explore sk cap) n" "ex_inv sk (explore sk cap) L"
    "\<not> ex_capped (explore sk cap) \<longrightarrow> L = {(j, c). j < n \<and> c \<in> tries sk (state_at sk (explore sk cap) j)}"
    unfolding explored_def by blast
  with n show thesis by (intro that[of n L]) (auto simp: all_tries_def)
qed

lemma explore_complete:
  assumes "ex_inv sk ex (all_tries sk ex)" "\<not> ex_capped ex" "sk_reach sk s"
  shows "\<exists>j < length (ex_keys ex). state_at sk ex j = s"
  using assms(3)
proof (induction rule: sk_reach.induct)
  case reach_start
  have "0 < length (ex_keys ex)" "ex_keys ex ! 0 = encode_state (initial_state sk)"
    using assms(1) by (simp_all add: ex_inv_def keys_ok_def)
  then show ?case by (intro exI[of _ 0]) (simp add: state_at_def decode_encode shaped_initial)
next
  case (reach_step s c)
  then obtain j where j: "j < length (ex_keys ex)" "state_at sk ex j = s" by blast
  then have "(j, c) \<in> all_tries sk ex" using reach_step(2) by (simp add: all_tries_def)
  moreover have "succ_complete sk ex (all_tries sk ex)" "succ_sound sk ex (all_tries sk ex)"
    using assms(1,2) by (auto simp: ex_inv_def)
  ultimately obtain t where "t \<in> set (ex_successors ex ! j)" "tr_next (tr_at sk ex j c) = state_at sk ex t"
    using reach_step(3) j by (auto simp: succ_complete_def tr_at_def)
  with j \<open>succ_sound sk ex _\<close> show ?case by (auto simp: succ_sound_def tr_at_def)
qed

end
