(* ===== verification/NG_Soundness.thy ===== *)
theory NG_Soundness
  imports NG_Reach
begin

text \<open>
  The analysis of the explored states (\<open>src/src/core/graph_soundness.cpp\<close>, \<open>backward_closure\<close>,
  \<open>analyze\<close>, \<open>path_to\<close>, the status of the report): which states can still complete or end, for
  which reasons a state cannot, the points of no return (S1), and the routes that lead to a state.
  The strongly connected components, which S4 and the cyclic outcome rest on, are not modelled.
\<close>

unbundle bit_operations_syntax

section \<open>Propagation against the steps\<close>

definition predecessors :: "nat list list \<Rightarrow> nat list list" where
  "predecessors succ = map (\<lambda>t. filter (\<lambda>s. t \<in> set (succ ! s)) [0..<length succ]) [0..<length succ]"

text \<open>
  The queues are stacks: the head is the back of the vector. An index outside the vectors is
  ignored; the callers have none.
\<close>

definition reach_pred :: "nat \<Rightarrow> bool list \<times> nat list \<Rightarrow> bool list \<times> nat list" where
  "reach_pred p rq =
     (if p \<ge> length (fst rq) \<or> fst rq ! p then rq else ((fst rq)[p := True], p # snd rq))"

definition merge_pred :: "nat \<Rightarrow> nat \<Rightarrow> u64 list \<times> nat list \<Rightarrow> u64 list \<times> nat list" where
  "merge_pred s p rq =
     (let merged = fst rq ! p OR fst rq ! s
      in if p \<ge> length (fst rq) \<or> merged = fst rq ! p then rq else ((fst rq)[p := merged], p # snd rq))"

definition open_count :: "bool list \<Rightarrow> nat" where
  "open_count r = length (filter Not r)"

definition clear_bits :: "u64 list \<Rightarrow> nat" where
  "clear_bits r = (\<Sum>w\<leftarrow>r. card {b. b < 64 \<and> \<not> bit w b})"

lemma open_count_mark: "p < length r \<Longrightarrow> \<not> r ! p \<Longrightarrow> open_count (r[p := True]) < open_count r"
proof (induction r arbitrary: p)
  case (Cons x r)
  then show ?case by (cases p) (auto simp: open_count_def)
qed simp

lemma clear_bits_merge:
  "p < length r \<Longrightarrow> r ! p OR w \<noteq> r ! p \<Longrightarrow> clear_bits (r[p := r ! p OR w]) < clear_bits r"
proof (induction r arbitrary: p)
  case (Cons x r)
  show ?case
  proof (cases p)
    case 0
    with Cons.prems(2) obtain b where b: "b < 64" "bit (x OR w) b \<noteq> bit x b"
      using bit_word_eqI[of "x OR w" x] by auto
    then have "b \<in> {b. b < 64 \<and> \<not> bit x b} - {b. b < 64 \<and> \<not> bit (x OR w) b}" by (auto simp: bit_or_iff)
    moreover have "{b. b < 64 \<and> \<not> bit (x OR w) b} \<subseteq> {b. b < 64 \<and> \<not> bit x b}" by (auto simp: bit_or_iff)
    ultimately have "card {b. b < 64 \<and> \<not> bit (x OR w) b} < card {b. b < 64 \<and> \<not> bit x b}"
      by (intro psubset_card_mono) auto
    with 0 show ?thesis by (simp add: clear_bits_def)
  next
    case (Suc q)
    then show ?thesis using Cons by (simp add: clear_bits_def)
  qed
qed simp

lemma reach_preds_measure:
  "open_count (fst (fold reach_pred ps rq)) < open_count (fst rq) \<or> fold reach_pred ps rq = rq"
proof (induction ps arbitrary: rq)
  case (Cons p ps)
  show ?case
  proof (cases "p \<ge> length (fst rq) \<or> fst rq ! p")
    case True
    then show ?thesis using Cons[of rq] by (simp add: reach_pred_def)
  next
    case False
    then have "open_count (fst (reach_pred p rq)) < open_count (fst rq)"
      by (simp add: reach_pred_def open_count_mark)
    then show ?thesis using Cons[of "reach_pred p rq"] by auto
  qed
qed simp

lemma merge_preds_measure:
  "clear_bits (fst (fold (merge_pred s) ps rq)) < clear_bits (fst rq) \<or> fold (merge_pred s) ps rq = rq"
proof (induction ps arbitrary: rq)
  case (Cons p ps)
  show ?case
  proof (cases "p \<ge> length (fst rq) \<or> fst rq ! p OR fst rq ! s = fst rq ! p")
    case True
    then show ?thesis using Cons[of rq] by (simp add: merge_pred_def Let_def)
  next
    case False
    then have "clear_bits (fst (merge_pred s p rq)) < clear_bits (fst rq)"
      by (simp add: merge_pred_def Let_def clear_bits_merge)
    then show ?thesis using Cons[of "merge_pred s p rq"] by auto
  qed
qed simp

function closure_loop :: "nat list list \<Rightarrow> bool list \<Rightarrow> nat list \<Rightarrow> bool list" where
  "closure_loop preds reached [] = reached"
| "closure_loop preds reached (s # queue) =
     closure_loop preds (fst (fold reach_pred (preds ! s) (reached, queue)))
       (snd (fold reach_pred (preds ! s) (reached, queue)))"
  by pat_completeness auto

termination
proof (relation "measures [\<lambda>(preds, reached, queue). open_count reached, \<lambda>(preds, reached, queue). length queue]", goal_cases)
  case (2 preds reached s queue)
  then show ?case using reach_preds_measure[of "preds ! s" "(reached, queue)"] by (auto simp: case_prod_unfold)
qed simp

function reasons_loop :: "nat list list \<Rightarrow> u64 list \<Rightarrow> nat list \<Rightarrow> u64 list" where
  "reasons_loop preds reasons [] = reasons"
| "reasons_loop preds reasons (s # queue) =
     reasons_loop preds (fst (fold (merge_pred s) (preds ! s) (reasons, queue)))
       (snd (fold (merge_pred s) (preds ! s) (reasons, queue)))"
  by pat_completeness auto

termination
proof (relation "measures [\<lambda>(preds, reasons, queue). clear_bits reasons, \<lambda>(preds, reasons, queue). length queue]", goal_cases)
  case (2 preds reasons s queue)
  then show ?case using merge_preds_measure[of s "preds ! s" "(reasons, queue)"] by (auto simp: case_prod_unfold)
qed simp

definition backward_closure :: "nat list list \<Rightarrow> bool list \<Rightarrow> bool list" where
  "backward_closure preds seeds = closure_loop preds seeds (rev (filter (\<lambda>s. seeds ! s) [0..<length seeds]))"

definition propagate_reasons :: "nat list list \<Rightarrow> u64 list \<Rightarrow> u64 list" where
  "propagate_reasons preds init = reasons_loop preds init (rev (filter (\<lambda>s. init ! s \<noteq> 0) [0..<length init]))"

section \<open>The analysis\<close>

record analysis =
  an_can_complete :: "bool list"
  an_can_end :: "bool list"
  an_reasons :: "u64 list"
  an_dead_ends :: "nat list"

definition is_trap :: "exploration \<Rightarrow> bool list \<Rightarrow> u64 list \<Rightarrow> nat \<Rightarrow> bool" where
  "is_trap ex can_complete reasons s \<longleftrightarrow>
     \<not> (can_complete ! s \<or> reasons ! s AND NOT kLoopBit = 0) \<and>
     \<not> (s \<noteq> 0 \<and> \<not> can_complete ! sr_parent (ex_records ex ! s))"

definition traps_of :: "exploration \<Rightarrow> bool list \<Rightarrow> u64 list \<Rightarrow> (u64 \<times> nat) list" where
  "traps_of ex can_complete reasons =
     fold (\<lambda>s. emplace (reasons ! s) s) (filter (is_trap ex can_complete reasons) [0..<length (ex_keys ex)]) []"

definition analyze :: "exploration \<Rightarrow> analysis" where
  "analyze ex =
     (let preds = predecessors (ex_successors ex);
          can_complete = backward_closure preds (map (\<lambda>r. sr_complete_exit r \<or> sr_opaque r) (ex_records ex));
          can_end = backward_closure preds (map (\<lambda>r. sr_any_exit r \<or> sr_opaque r) (ex_records ex));
          reasons = propagate_reasons preds
            (map2 (\<lambda>r e. sr_reasons r OR (if e then 0 else kLoopBit)) (ex_records ex) can_end)
      in \<lparr>an_can_complete = can_complete, an_can_end = can_end, an_reasons = reasons,
          an_dead_ends = sort (map snd (traps_of ex can_complete reasons))\<rparr>)"

fun path_back :: "exploration \<Rightarrow> nat \<Rightarrow> nat \<Rightarrow> (nat \<times> nat) list" where
  "path_back ex 0 s = []"
| "path_back ex (Suc fuel) s =
     (if s = 0 then []
      else (sr_parent (ex_records ex ! s), sr_combo (ex_records ex ! s)) # path_back ex fuel (sr_parent (ex_records ex ! s)))"

text \<open>A parent has a smaller index, so the number of states is enough fuel.\<close>

definition path_to :: "exploration \<Rightarrow> nat \<Rightarrow> (nat \<times> nat) list" where
  "path_to ex s = rev (path_back ex (length (ex_keys ex)) s)"

datatype soundness_status = Checked | Partial | NotChecked

definition status_of :: "exploration \<Rightarrow> soundness_status" where
  "status_of ex = (if ex_capped ex then NotChecked else if ex_opaque_first ex \<noteq> [] then Partial else Checked)"

section \<open>The propagation computes the reachable reasons\<close>

definition step_edges :: "nat list list \<Rightarrow> (nat \<times> nat) set" where
  "step_edges succ = {(s, t). s < length succ \<and> t \<in> set (succ ! s)}"

definition succ_in_range :: "nat list list \<Rightarrow> bool" where
  "succ_in_range succ \<longleftrightarrow> (\<forall>s < length succ. \<forall>t \<in> set (succ ! s). t < length succ)"

lemma predecessors_iff:
  assumes "t < length succ"
  shows "p \<in> set (predecessors succ ! t) \<longleftrightarrow> (p, t) \<in> step_edges succ"
  using assms by (auto simp: predecessors_def step_edges_def)

definition merged_to :: "nat \<Rightarrow> nat set \<Rightarrow> u64 list \<times> nat list \<Rightarrow> u64 list \<times> nat list \<Rightarrow> bool" where
  "merged_to s ps rq rq' \<longleftrightarrow> length (fst rq') = length (fst rq) \<and>
     (\<forall>j < length (fst rq). \<forall>b. bit (fst rq' ! j) b \<longleftrightarrow> bit (fst rq ! j) b \<or> j \<in> ps \<and> bit (fst rq ! s) b) \<and>
     set (snd rq) \<subseteq> set (snd rq') \<and> set (snd rq') \<subseteq> set (snd rq) \<union> {..<length (fst rq)} \<and>
     (\<forall>j < length (fst rq). fst rq' ! j \<noteq> fst rq ! j \<longrightarrow> j \<in> set (snd rq'))"

lemma merge_pred_result:
  assumes "p < length (fst rq)"
  shows "merged_to s {p} rq (merge_pred s p rq)"
proof (cases "fst rq ! p OR fst rq ! s = fst rq ! p")
  case True
  then have "bit (fst rq ! p) b" if "bit (fst rq ! s) b" for b
    using that bit_or_iff[of "fst rq ! p" "fst rq ! s" b] by simp
  with True show ?thesis by (auto simp: merged_to_def merge_pred_def)
next
  case False
  with assms show ?thesis
    by (auto simp: merged_to_def merge_pred_def Let_def bit_or_iff nth_list_update)
qed

lemma merged_to_self: "merged_to s ps rq rq' \<Longrightarrow> s < length (fst rq) \<Longrightarrow> fst rq' ! s = fst rq ! s"
  by (auto simp: merged_to_def intro!: bit_word_eqI)

lemma merged_to_trans:
  assumes one: "merged_to s ps rq rq'" and two: "merged_to s qs rq' rq''" and s: "s < length (fst rq)"
  shows "merged_to s (ps \<union> qs) rq rq''"
proof -
  have same: "fst rq' ! s = fst rq ! s" by (rule merged_to_self[OF one s])
  have len: "length (fst rq') = length (fst rq)" using one by (simp add: merged_to_def)
  have "bit (fst rq'' ! j) b \<longleftrightarrow> bit (fst rq ! j) b \<or> j \<in> ps \<union> qs \<and> bit (fst rq ! s) b"
    if "j < length (fst rq)" for j b
    using that one two same len by (auto simp: merged_to_def)
  moreover have "j \<in> set (snd rq'')" if "j < length (fst rq)" "fst rq'' ! j \<noteq> fst rq ! j" for j
  proof (cases "fst rq' ! j = fst rq ! j")
    case True
    then show ?thesis using that two len by (simp add: merged_to_def)
  next
    case False
    then have "j \<in> set (snd rq')" using that one by (simp add: merged_to_def)
    then show ?thesis using two by (auto simp: merged_to_def)
  qed
  moreover have "set (snd rq) \<subseteq> set (snd rq'')" "set (snd rq'') \<subseteq> set (snd rq) \<union> {..<length (fst rq)}"
    using one two len by (auto simp: merged_to_def)
  moreover have "length (fst rq'') = length (fst rq)" using two len by (simp add: merged_to_def)
  ultimately show ?thesis by (simp add: merged_to_def)
qed

lemma merge_preds_result:
  "\<forall>p \<in> set ps. p < length (fst rq) \<Longrightarrow> s < length (fst rq) \<Longrightarrow> merged_to s (set ps) rq (fold (merge_pred s) ps rq)"
proof (induction ps arbitrary: rq)
  case Nil
  then show ?case by (simp add: merged_to_def)
next
  case (Cons p ps)
  have one: "merged_to s {p} rq (merge_pred s p rq)" using Cons.prems by (intro merge_pred_result) simp
  then have "length (fst (merge_pred s p rq)) = length (fst rq)" by (simp add: merged_to_def)
  then have "merged_to s (set ps) (merge_pred s p rq) (fold (merge_pred s) ps (merge_pred s p rq))"
    using Cons.prems by (intro Cons.IH) simp_all
  from merged_to_trans[OF one this Cons.prems(2)] show ?case by simp
qed

definition reasons_inv :: "nat list list \<Rightarrow> u64 list \<Rightarrow> u64 list \<Rightarrow> nat list \<Rightarrow> bool" where
  "reasons_inv succ init r q \<longleftrightarrow> length r = length succ \<and> set q \<subseteq> {..<length succ} \<and>
     (\<forall>j < length succ. \<forall>b. bit (r ! j) b \<longrightarrow> (\<exists>t. (j, t) \<in> (step_edges succ)\<^sup>* \<and> t < length succ \<and> bit (init ! t) b)) \<and>
     (\<forall>j < length succ. \<forall>b. bit (init ! j) b \<longrightarrow> bit (r ! j) b) \<and>
     (\<forall>p s. (p, s) \<in> step_edges succ \<longrightarrow> s \<in> set q \<or> (\<forall>b. bit (r ! s) b \<longrightarrow> bit (r ! p) b))"

lemma reasons_inv_step:
  assumes range: "succ_in_range succ" and inv: "reasons_inv succ init r (s # q)"
    and res: "fold (merge_pred s) (predecessors succ ! s) (r, q) = (r', q')"
  shows "reasons_inv succ init r' q'"
proof -
  have s: "s < length succ" and len: "length r = length succ" using inv by (auto simp: reasons_inv_def)
  have preds: "p \<in> set (predecessors succ ! s) \<longleftrightarrow> (p, s) \<in> step_edges succ" for p
    using s by (rule predecessors_iff)
  then have "\<forall>p \<in> set (predecessors succ ! s). p < length (fst (r, q))" by (auto simp: step_edges_def len)
  from merge_preds_result[OF this, of s] s len res
  have m: "length r' = length succ"
    "\<And>j b. j < length succ \<Longrightarrow> bit (r' ! j) b \<longleftrightarrow> bit (r ! j) b \<or> (j, s) \<in> step_edges succ \<and> bit (r ! s) b"
    "set q \<subseteq> set q'" "set q' \<subseteq> set q \<union> {..<length succ}" "\<And>j. j < length succ \<Longrightarrow> r' ! j \<noteq> r ! j \<Longrightarrow> j \<in> set q'"
    by (simp_all add: merged_to_def preds)
  have "\<exists>t. (j, t) \<in> (step_edges succ)\<^sup>* \<and> t < length succ \<and> bit (init ! t) b" if "j < length succ" "bit (r' ! j) b" for j b
  proof (cases "bit (r ! j) b")
    case True
    then show ?thesis using inv that(1) by (simp add: reasons_inv_def)
  next
    case False
    then have js: "(j, s) \<in> step_edges succ" "bit (r ! s) b" using that m(2) by auto
    then have "\<exists>t. (s, t) \<in> (step_edges succ)\<^sup>* \<and> t < length succ \<and> bit (init ! t) b"
      using inv s by (simp add: reasons_inv_def)
    then show ?thesis using js(1) by (blast intro: converse_rtrancl_into_rtrancl)
  qed
  moreover have "u \<in> set q' \<or> (\<forall>b. bit (r' ! u) b \<longrightarrow> bit (r' ! p) b)" if pu: "(p, u) \<in> step_edges succ" for p u
  proof -
    have pu_in: "p < length succ" "u < length succ" using pu range by (auto simp: step_edges_def succ_in_range_def)
    show ?thesis
    proof (cases "r' ! u = r ! u")
      case False
      then show ?thesis using m(5) pu_in by blast
    next
      case same: True
      have "u \<in> set (s # q) \<or> (\<forall>b. bit (r ! u) b \<longrightarrow> bit (r ! p) b)" using inv pu by (simp add: reasons_inv_def)
      then show ?thesis using m(2)[OF pu_in(1)] m(3) pu same by auto
    qed
  qed
  ultimately show ?thesis using inv m(1-4) by (auto simp: reasons_inv_def)
qed

lemma reasons_loop_inv:
  assumes "succ_in_range succ"
  shows "reasons_inv succ init r q \<Longrightarrow> reasons_inv succ init (reasons_loop (predecessors succ) r q) []"
proof (induction "predecessors succ" r q rule: reasons_loop.induct)
  case (2 reasons s queue)
  then show ?case
    using reasons_inv_step[OF assms, of init reasons s queue] by (simp add: prod_eq_iff[symmetric])
qed simp

lemma reasons_inv_final:
  assumes "succ_in_range succ" "reasons_inv succ init r []" "j < length succ"
  shows "bit (r ! j) b \<longleftrightarrow> (\<exists>t. (j, t) \<in> (step_edges succ)\<^sup>* \<and> t < length succ \<and> bit (init ! t) b)"
proof
  assume "\<exists>t. (j, t) \<in> (step_edges succ)\<^sup>* \<and> t < length succ \<and> bit (init ! t) b"
  then obtain t where t: "(j, t) \<in> (step_edges succ)\<^sup>*" "t < length succ" "bit (init ! t) b" by blast
  have "bit (r ! t) b" using assms(2) t by (simp add: reasons_inv_def)
  with t(1) show "bit (r ! j) b"
    by (induction rule: converse_rtrancl_induct) (use assms(2) in \<open>auto simp: reasons_inv_def\<close>)
qed (use assms(2,3) in \<open>simp add: reasons_inv_def\<close>)

lemma propagate_reasons_bits:
  assumes "succ_in_range succ" "length init = length succ" "j < length succ"
  shows "bit (propagate_reasons (predecessors succ) init ! j) b \<longleftrightarrow>
     (\<exists>t. (j, t) \<in> (step_edges succ)\<^sup>* \<and> t < length succ \<and> bit (init ! t) b)"
proof -
  let ?q = "rev (filter (\<lambda>s. init ! s \<noteq> 0) [0..<length init])"
  have "reasons_inv succ init init ?q"
    using assms(1,2) by (auto simp: reasons_inv_def step_edges_def succ_in_range_def)
  from reasons_inv_final[OF assms(1) reasons_loop_inv[OF assms(1) this] assms(3)]
  show ?thesis by (simp add: propagate_reasons_def)
qed

section \<open>The closure holds the states that reach a seed\<close>

lemma reach_preds_result:
  assumes "fold reach_pred ps (r, q) = (r', q')"
  shows "length r' = length r" "\<And>j. j < length r \<Longrightarrow> r' ! j \<longleftrightarrow> r ! j \<or> j \<in> set ps"
    "set q' = set q \<union> {j. j < length r \<and> r' ! j \<and> \<not> r ! j}"
proof -
  have "length r' = length r \<and> (\<forall>j < length r. r' ! j \<longleftrightarrow> r ! j \<or> j \<in> set ps) \<and>
    set q' = set q \<union> {j. j < length r \<and> r' ! j \<and> \<not> r ! j}"
    using assms
  proof (induction ps arbitrary: r q)
    case (Cons p ps)
    show ?case
    proof (cases "p \<ge> length r \<or> r ! p")
      case True
      then show ?thesis using Cons.IH[of r q] Cons.prems by (auto simp: reach_pred_def)
    next
      case False
      then have "fold reach_pred ps (r[p := True], p # q) = (r', q')" using Cons.prems by (simp add: reach_pred_def[of p])
      from Cons.IH[OF this] False show ?thesis by (auto simp: nth_list_update)
    qed
  qed simp
  then show "length r' = length r" "\<And>j. j < length r \<Longrightarrow> r' ! j \<longleftrightarrow> r ! j \<or> j \<in> set ps"
    "set q' = set q \<union> {j. j < length r \<and> r' ! j \<and> \<not> r ! j}" by simp_all
qed

definition closure_inv :: "nat list list \<Rightarrow> bool list \<Rightarrow> bool list \<Rightarrow> nat list \<Rightarrow> bool" where
  "closure_inv succ seeds r q \<longleftrightarrow> length r = length succ \<and> (\<forall>j \<in> set q. j < length succ \<and> r ! j) \<and>
     (\<forall>j < length succ. r ! j \<longrightarrow> (\<exists>t. (j, t) \<in> (step_edges succ)\<^sup>* \<and> t < length succ \<and> seeds ! t)) \<and>
     (\<forall>j < length succ. seeds ! j \<longrightarrow> r ! j) \<and>
     (\<forall>p s. (p, s) \<in> step_edges succ \<longrightarrow> r ! s \<longrightarrow> s \<in> set q \<or> r ! p)"

lemma closure_inv_step:
  assumes range: "succ_in_range succ" and inv: "closure_inv succ seeds r (s # q)"
    and res: "fold reach_pred (predecessors succ ! s) (r, q) = (r', q')"
  shows "closure_inv succ seeds r' q'"
proof -
  have s: "s < length succ" "r ! s" and len: "length r = length succ" using inv by (auto simp: closure_inv_def)
  note m = reach_preds_result[OF res, unfolded len]
  have preds: "p \<in> set (predecessors succ ! s) \<longleftrightarrow> (p, s) \<in> step_edges succ" for p
    using s(1) by (rule predecessors_iff)
  have "\<exists>t. (j, t) \<in> (step_edges succ)\<^sup>* \<and> t < length succ \<and> seeds ! t" if "j < length succ" "r' ! j" for j
  proof (cases "r ! j")
    case True
    then show ?thesis using inv that(1) by (simp add: closure_inv_def)
  next
    case False
    then have js: "(j, s) \<in> step_edges succ" using that m(2) preds by auto
    obtain t where "(s, t) \<in> (step_edges succ)\<^sup>*" "t < length succ" "seeds ! t"
      using inv s by (auto simp: closure_inv_def)
    with js show ?thesis by (blast intro: converse_rtrancl_into_rtrancl)
  qed
  moreover have "u \<in> set q' \<or> r' ! p" if pu: "(p, u) \<in> step_edges succ" "r' ! u" for p u
  proof -
    have pu_in: "p < length succ" "u < length succ" using pu range by (auto simp: step_edges_def succ_in_range_def)
    show ?thesis
    proof (cases "r ! u")
      case True
      then have "u = s \<or> u \<in> set q \<or> r ! p" using inv pu by (auto simp: closure_inv_def)
      then show ?thesis using m(2)[OF pu_in(1)] m(3) pu preds by auto
    next
      case False
      then show ?thesis using m(3) pu(2) pu_in by auto
    qed
  qed
  ultimately show ?thesis using inv m len by (auto simp: closure_inv_def)
qed

lemma closure_loop_inv:
  assumes "succ_in_range succ"
  shows "closure_inv succ seeds r q \<Longrightarrow> closure_inv succ seeds (closure_loop (predecessors succ) r q) []"
proof (induction "predecessors succ" r q rule: closure_loop.induct)
  case (2 reached s queue)
  then show ?case
    using closure_inv_step[OF assms, of seeds reached s queue] by (simp add: prod_eq_iff[symmetric])
qed simp

lemma backward_closure_iff:
  assumes "succ_in_range succ" "length seeds = length succ" "j < length succ"
  shows "backward_closure (predecessors succ) seeds ! j \<longleftrightarrow>
     (\<exists>t. (j, t) \<in> (step_edges succ)\<^sup>* \<and> t < length succ \<and> seeds ! t)"
    "length (backward_closure (predecessors succ) seeds) = length succ"
proof -
  let ?q = "rev (filter (\<lambda>s. seeds ! s) [0..<length seeds])"
  let ?r = "closure_loop (predecessors succ) seeds ?q"
  have "closure_inv succ seeds seeds ?q"
    using assms(1,2) by (auto simp: closure_inv_def step_edges_def succ_in_range_def)
  then have fin: "closure_inv succ seeds ?r []" by (rule closure_loop_inv[OF assms(1)])
  have upstream: "?r ! i" if "(i, t) \<in> (step_edges succ)\<^sup>*" "?r ! t" for i t
    using that by (induction rule: converse_rtrancl_induct) (use fin in \<open>auto simp: closure_inv_def\<close>)
  show "backward_closure (predecessors succ) seeds ! j \<longleftrightarrow>
     (\<exists>t. (j, t) \<in> (step_edges succ)\<^sup>* \<and> t < length succ \<and> seeds ! t)"
    "length (backward_closure (predecessors succ) seeds) = length succ"
    using fin upstream assms(3) by (auto simp: closure_inv_def backward_closure_def)
qed

section \<open>What a run from a state may still do\<close>

inductive may :: "skeleton \<Rightarrow> (sk_state \<Rightarrow> bool) \<Rightarrow> sk_state \<Rightarrow> bool" for sk P where
    may_now: "P s \<Longrightarrow> may sk P s"
  | may_later: "c \<in> tries sk s \<Longrightarrow> tr_terminal (step_of sk s c) = TNone \<Longrightarrow> may sk P (tr_next (step_of sk s c)) \<Longrightarrow>
      may sk P s"

definition completes_here :: "skeleton \<Rightarrow> sk_state \<Rightarrow> bool" where
  "completes_here sk s \<longleftrightarrow> opaque_state sk s \<or> (\<exists>c \<in> tries sk s. completing (tr_terminal (step_of sk s c)))"

definition ends_here :: "skeleton \<Rightarrow> sk_state \<Rightarrow> bool" where
  "ends_here sk s \<longleftrightarrow> opaque_state sk s \<or> (\<exists>c \<in> tries sk s. tr_terminal (step_of sk s c) \<noteq> TNone)"

definition sticks_here :: "skeleton \<Rightarrow> sk_state \<Rightarrow> bool" where
  "sticks_here sk s \<longleftrightarrow>
     (\<exists>c \<in> tries sk s. tr_terminal (step_of sk s c) = TStalled \<or> tr_terminal (step_of sk s c) = TFailed)"

lemma holding_joins_Nil: "holding_joins s = [] \<longleftrightarrow> \<not> list_ex (\<lambda>p. \<not> no_bits p) (st_pending s)"
  by (auto simp: holding_joins_def filter_empty_conv list_ex_length)

lemma stalled_holds:
  assumes "tr_terminal (step_of sk s c) = TStalled"
  shows "holding_joins (tr_next (step_of sk s c)) \<noteq> []"
  using assms unfolding holding_joins_Nil
  by (auto simp: step_of_def apply_step_def terminal_of_def Let_def split: if_splits)

lemma fold_or_bit: "bit (fold (\<lambda>j r. r OR f j) js r) b \<longleftrightarrow> bit r b \<or> (\<exists>j \<in> set js. bit (f j) b)" for r :: u64
  by (induction js arbitrary: r) (auto simp: bit_or_iff)

lemma stall_bit_iff: "bit (stall_bit j) b \<longleftrightarrow> b = min j 61"
  by (auto simp: stall_bit_def bit_simps)

lemma failed_bit_iff: "bit kFailedBit b \<longleftrightarrow> b = 62"
  unfolding kFailedBit_def bit_push_bit_iff by (auto simp: bit_1_iff)

lemma loop_bit_iff: "bit kLoopBit b \<longleftrightarrow> b = 63"
  unfolding kLoopBit_def bit_push_bit_iff by (auto simp: bit_1_iff)

lemma end_reasons_bits:
  "(\<exists>b. b \<noteq> 63 \<and> bit (end_reasons (step_of sk s c)) b) \<longleftrightarrow>
     tr_terminal (step_of sk s c) = TStalled \<or> tr_terminal (step_of sk s c) = TFailed"
proof (cases "tr_terminal (step_of sk s c) = TStalled")
  case True
  then obtain j where "j \<in> set (holding_joins (tr_next (step_of sk s c)))"
    using stalled_holds[OF True] by (meson hd_in_set)
  then have "bit (end_reasons (step_of sk s c)) (min j 61)"
    using True by (auto simp: end_reasons_def stall_reasons_def fold_or_bit stall_bit_iff)
  moreover have "min j 61 \<noteq> 63" by simp
  ultimately show ?thesis using True by blast
qed (auto simp: end_reasons_def failed_bit_iff)

lemma mask_loop_bit: "(r AND NOT kLoopBit = 0) \<longleftrightarrow> (\<forall>b. b \<noteq> 63 \<longrightarrow> \<not> bit r b)" for r :: u64
proof
  assume zero: "r AND NOT kLoopBit = 0"
  show "\<forall>b. b \<noteq> 63 \<longrightarrow> \<not> bit r b"
  proof (intro allI impI notI)
    fix b assume b: "b \<noteq> 63" "bit r b"
    then have "b < 64" using bit_imp_le_length[of r b] by simp
    with b have "bit (r AND NOT kLoopBit) b" by (simp add: bit_and_iff bit_not_iff loop_bit_iff)
    with zero show False by simp
  qed
next
  assume "\<forall>b. b \<noteq> 63 \<longrightarrow> \<not> bit r b"
  then show "r AND NOT kLoopBit = 0" by (intro bit_word_eqI) (auto simp: bit_and_iff bit_not_iff loop_bit_iff)
qed

section \<open>The explored graph and the runs\<close>

text \<open>An exploration that was not cut short: its edges are the super-steps between reachable states.\<close>

definition finished :: "skeleton \<Rightarrow> exploration \<Rightarrow> bool" where
  "finished sk ex \<longleftrightarrow> ex_inv sk ex (all_tries sk ex) \<and> \<not> ex_capped ex \<and> opaque_ok sk ex (length (ex_keys ex))"

lemma explore_finished: "sk_start sk \<noteq> [] \<Longrightarrow> \<not> ex_capped (explore sk cap) \<Longrightarrow> finished sk (explore sk cap)"
  by (rule explore_nonempty[of sk cap]) (simp_all add: finished_def)

lemma finished_lengths:
  assumes "finished sk ex"
  shows "length (ex_records ex) = length (ex_keys ex)" "length (ex_successors ex) = length (ex_keys ex)"
    "succ_in_range (ex_successors ex)"
  using assms by (auto simp: finished_def ex_inv_def keys_ok_def succ_in_range_def succ_sound_def)

lemma all_tries_iff: "j < length (ex_keys ex) \<Longrightarrow> (j, c) \<in> all_tries sk ex \<longleftrightarrow> c \<in> tries sk (state_at sk ex j)"
  by (simp add: all_tries_def)

lemma finished_edge:
  assumes "finished sk ex" "(j, t) \<in> step_edges (ex_successors ex)"
  obtains c where "j < length (ex_keys ex)" "t < length (ex_keys ex)" "c \<in> tries sk (state_at sk ex j)"
    "tr_terminal (step_of sk (state_at sk ex j) c) = TNone" "tr_next (step_of sk (state_at sk ex j) c) = state_at sk ex t"
proof -
  have j: "j < length (ex_keys ex)" and t: "t \<in> set (ex_successors ex ! j)"
    using assms(2) finished_lengths[OF assms(1)] by (simp_all add: step_edges_def)
  have "succ_sound sk ex (all_tries sk ex)" using assms(1) by (simp add: finished_def ex_inv_def)
  then show thesis using that j t unfolding succ_sound_def tr_at_def by (metis all_tries_iff)
qed

lemma finished_step:
  assumes "finished sk ex" "j < length (ex_keys ex)" "c \<in> tries sk (state_at sk ex j)"
    "tr_terminal (step_of sk (state_at sk ex j) c) = TNone"
  obtains t where "(j, t) \<in> step_edges (ex_successors ex)" "t < length (ex_keys ex)"
    "tr_next (step_of sk (state_at sk ex j) c) = state_at sk ex t"
proof -
  have "succ_complete sk ex (all_tries sk ex)" "(j, c) \<in> all_tries sk ex"
    using assms by (simp_all add: finished_def ex_inv_def all_tries_def)
  then obtain t where t: "t \<in> set (ex_successors ex ! j)" "tr_next (tr_at sk ex j c) = state_at sk ex t"
    using assms(4) unfolding succ_complete_def tr_at_def by blast
  have "t < length (ex_keys ex)"
    using finished_lengths[OF assms(1)] t(1) assms(2) unfolding succ_in_range_def by simp
  then show thesis using t assms(2) finished_lengths[OF assms(1)] by (intro that[of t]) (simp_all add: step_edges_def tr_at_def)
qed

lemma may_iff_path:
  assumes fin: "finished sk ex" and j: "j < length (ex_keys ex)"
  shows "may sk P (state_at sk ex j) \<longleftrightarrow>
     (\<exists>t. (j, t) \<in> (step_edges (ex_successors ex))\<^sup>* \<and> t < length (ex_keys ex) \<and> P (state_at sk ex t))"
proof
  assume "may sk P (state_at sk ex j)"
  then show "\<exists>t. (j, t) \<in> (step_edges (ex_successors ex))\<^sup>* \<and> t < length (ex_keys ex) \<and> P (state_at sk ex t)"
    using j
  proof (induction "state_at sk ex j" arbitrary: j rule: may.induct)
    case may_now
    then show ?case by blast
  next
    case (may_later c)
    obtain t where "(j, t) \<in> step_edges (ex_successors ex)" "t < length (ex_keys ex)"
      "tr_next (step_of sk (state_at sk ex j) c) = state_at sk ex t"
      by (rule finished_step[OF fin may_later(5,1,2)])
    with may_later(4) show ?case by (blast intro: converse_rtrancl_into_rtrancl)
  qed
next
  assume "\<exists>t. (j, t) \<in> (step_edges (ex_successors ex))\<^sup>* \<and> t < length (ex_keys ex) \<and> P (state_at sk ex t)"
  then obtain t where "(j, t) \<in> (step_edges (ex_successors ex))\<^sup>*" "P (state_at sk ex t)" by blast
  then show "may sk P (state_at sk ex j)"
  proof (induction rule: converse_rtrancl_induct)
    case base
    then show ?case by (rule may_now)
  next
    case (step i u)
    from finished_edge[OF fin step(1)] obtain c where "c \<in> tries sk (state_at sk ex i)"
      "tr_terminal (step_of sk (state_at sk ex i) c) = TNone" "tr_next (step_of sk (state_at sk ex i) c) = state_at sk ex u"
      by metis
    with step(3)[OF step(4)] show ?case by (metis may_later)
  qed
qed

section \<open>Points of no return\<close>

lemma finished_records:
  assumes "finished sk ex" "j < length (ex_keys ex)"
  shows "sr_complete_exit (ex_records ex ! j) \<or> sr_opaque (ex_records ex ! j) \<longleftrightarrow> completes_here sk (state_at sk ex j)"
    "sr_any_exit (ex_records ex ! j) \<or> sr_opaque (ex_records ex ! j) \<longleftrightarrow> ends_here sk (state_at sk ex j)"
    "bit (sr_reasons (ex_records ex ! j)) b \<longleftrightarrow>
       (\<exists>c \<in> tries sk (state_at sk ex j). bit (end_reasons (step_of sk (state_at sk ex j) c)) b)"
proof -
  have "records_ok sk ex (all_tries sk ex)" "opaque_ok sk ex (length (ex_keys ex))"
    using assms(1) by (simp_all add: finished_def ex_inv_def)
  then show "sr_complete_exit (ex_records ex ! j) \<or> sr_opaque (ex_records ex ! j) \<longleftrightarrow> completes_here sk (state_at sk ex j)"
    "sr_any_exit (ex_records ex ! j) \<or> sr_opaque (ex_records ex ! j) \<longleftrightarrow> ends_here sk (state_at sk ex j)"
    "bit (sr_reasons (ex_records ex ! j)) b \<longleftrightarrow>
       (\<exists>c \<in> tries sk (state_at sk ex j). bit (end_reasons (step_of sk (state_at sk ex j) c)) b)"
    using assms(2)
    by (auto simp: records_ok_def opaque_ok_def completes_here_def ends_here_def all_tries_iff tr_at_def)
qed

lemma finished_seeds:
  assumes fin: "finished sk ex" and j: "j < length (ex_keys ex)"
    and seeds: "\<And>i. i < length (ex_keys ex) \<Longrightarrow> f (ex_records ex ! i) \<longleftrightarrow> P (state_at sk ex i)"
  shows "backward_closure (predecessors (ex_successors ex)) (map f (ex_records ex)) ! j \<longleftrightarrow> may sk P (state_at sk ex j)"
proof -
  have "backward_closure (predecessors (ex_successors ex)) (map f (ex_records ex)) ! j \<longleftrightarrow>
      (\<exists>t. (j, t) \<in> (step_edges (ex_successors ex))\<^sup>* \<and> t < length (ex_successors ex) \<and> map f (ex_records ex) ! t)"
    using finished_lengths[OF fin] j by (intro backward_closure_iff(1)) simp_all
  then show ?thesis unfolding may_iff_path[OF fin j] using finished_lengths[OF fin] seeds by auto
qed

lemma can_complete_iff:
  assumes "finished sk ex" "j < length (ex_keys ex)"
  shows "an_can_complete (analyze ex) ! j \<longleftrightarrow> may sk (completes_here sk) (state_at sk ex j)"
  unfolding analyze_def Let_def using finished_records(1)[OF assms(1)]
  by (simp add: finished_seeds[OF assms, where P = "completes_here sk"])

lemma can_end_iff:
  assumes "finished sk ex" "j < length (ex_keys ex)"
  shows "an_can_end (analyze ex) ! j \<longleftrightarrow> may sk (ends_here sk) (state_at sk ex j)"
  unfolding analyze_def Let_def using finished_records(2)[OF assms(1)]
  by (simp add: finished_seeds[OF assms, where P = "ends_here sk"])

definition reason_here :: "skeleton \<Rightarrow> nat \<Rightarrow> sk_state \<Rightarrow> bool" where
  "reason_here sk b s \<longleftrightarrow> (\<exists>c \<in> tries sk s. bit (end_reasons (step_of sk s c)) b) \<or>
     b = 63 \<and> \<not> may sk (ends_here sk) s"

lemma reasons_iff:
  assumes fin: "finished sk ex" and j: "j < length (ex_keys ex)"
  shows "bit (an_reasons (analyze ex) ! j) b \<longleftrightarrow> may sk (reason_here sk b) (state_at sk ex j)"
proof -
  let ?init = "map2 (\<lambda>r e. sr_reasons r OR (if e then 0 else kLoopBit)) (ex_records ex) (an_can_end (analyze ex))"
  have len: "length (an_can_end (analyze ex)) = length (ex_keys ex)"
    using backward_closure_iff(2)[OF finished_lengths(3)[OF fin]] finished_lengths[OF fin] j
    by (simp add: analyze_def Let_def)
  have here: "bit (?init ! t) b \<longleftrightarrow> reason_here sk b (state_at sk ex t)" if "t < length (ex_keys ex)" for t
    using that len finished_lengths[OF fin] can_end_iff[OF fin that] finished_records(3)[OF fin that, of b]
    by (auto simp: reason_here_def bit_or_iff loop_bit_iff)
  have "bit (propagate_reasons (predecessors (ex_successors ex)) ?init ! j) b \<longleftrightarrow>
      (\<exists>t. (j, t) \<in> (step_edges (ex_successors ex))\<^sup>* \<and> t < length (ex_successors ex) \<and> bit (?init ! t) b)"
    using finished_lengths[OF fin] j len by (intro propagate_reasons_bits) simp_all
  moreover have "an_reasons (analyze ex) = propagate_reasons (predecessors (ex_successors ex)) ?init"
    by (simp add: analyze_def Let_def)
  ultimately show ?thesis unfolding may_iff_path[OF fin j] using finished_lengths(2)[OF fin] here by auto
qed

lemma may_mono: "may sk P s \<Longrightarrow> (\<And>u. P u \<Longrightarrow> Q u) \<Longrightarrow> may sk Q s"
  by (induction rule: may.induct) (auto intro: may.intros)

lemma may_never: "\<not> may sk (\<lambda>_. False) s"
proof
  assume "may sk (\<lambda>_. False) s"
  then show False by (induction rule: may.induct)
qed

lemma may_ex: "may sk (\<lambda>s. \<exists>b. Q b s) s \<longleftrightarrow> (\<exists>b. may sk (Q b) s)"
proof
  assume "may sk (\<lambda>s. \<exists>b. Q b s) s"
  then show "\<exists>b. may sk (Q b) s" by (induction rule: may.induct) (blast intro: may.intros)+
qed (blast intro: may_mono)

lemma sticks_iff:
  assumes fin: "finished sk ex" and j: "j < length (ex_keys ex)"
  shows "an_reasons (analyze ex) ! j AND NOT kLoopBit \<noteq> 0 \<longleftrightarrow> may sk (sticks_here sk) (state_at sk ex j)"
proof -
  let ?Q = "\<lambda>b s. b \<noteq> 63 \<and> reason_here sk b s"
  have "sticks_here sk = (\<lambda>s. \<exists>b. ?Q b s)"
    unfolding sticks_here_def reason_here_def end_reasons_bits[symmetric] by blast
  then have "may sk (sticks_here sk) (state_at sk ex j) \<longleftrightarrow> (\<exists>b. may sk (?Q b) (state_at sk ex j))"
    by (simp only: may_ex)
  also have "\<dots> \<longleftrightarrow> (\<exists>b. b \<noteq> 63 \<and> may sk (reason_here sk b) (state_at sk ex j))"
    by (rule ex_cong1) (auto simp: may_never intro: may_mono)
  finally show ?thesis unfolding mask_loop_bit reasons_iff[OF fin j] by blast
qed

lemma emplace_not_Nil: "emplace k v m \<noteq> []"
  by (cases m) (simp_all add: emplace_def)

lemma fold_emplace_Nil: "fold (\<lambda>s. emplace (f s) s) js m = [] \<longleftrightarrow> js = [] \<and> m = []"
  by (induction js arbitrary: m) (simp_all add: emplace_not_Nil)

lemma fold_emplace_values: "snd ` set (fold (\<lambda>s. emplace (f s) s) js m) \<subseteq> snd ` set m \<union> set js"
proof (induction js arbitrary: m)
  case (Cons a js)
  show ?case using Cons[of "emplace (f a) a m"] by (auto simp: emplace_def split: if_splits)
qed simp

lemma dead_ends_traps:
  fixes ex
  defines "traps \<equiv> filter (is_trap ex (an_can_complete (analyze ex)) (an_reasons (analyze ex))) [0..<length (ex_keys ex)]"
  shows "set (an_dead_ends (analyze ex)) \<subseteq> set traps" "an_dead_ends (analyze ex) = [] \<longleftrightarrow> traps = []"
proof -
  have "an_dead_ends (analyze ex) = sort (map snd (fold (\<lambda>s. emplace (an_reasons (analyze ex) ! s) s) traps []))"
    by (simp add: traps_def analyze_def traps_of_def Let_def)
  then show "set (an_dead_ends (analyze ex)) \<subseteq> set traps" "an_dead_ends (analyze ex) = [] \<longleftrightarrow> traps = []"
    using fold_emplace_values[of "\<lambda>s. an_reasons (analyze ex) ! s" traps "[]"]
      set_empty[of "sort (map snd (fold (\<lambda>s. emplace (an_reasons (analyze ex) ! s) s) traps []))"]
    by (simp_all add: fold_emplace_Nil)
qed

lemma trap_iff:
  assumes "finished sk ex" "j < length (ex_keys ex)"
  shows "is_trap ex (an_can_complete (analyze ex)) (an_reasons (analyze ex)) j \<longleftrightarrow>
     \<not> may sk (completes_here sk) (state_at sk ex j) \<and> may sk (sticks_here sk) (state_at sk ex j) \<and>
     (j = 0 \<or> an_can_complete (analyze ex) ! sr_parent (ex_records ex ! j))"
  unfolding is_trap_def can_complete_iff[OF assms] sticks_iff[OF assms, symmetric] by blast

text \<open>From a state with no way to complete, its parents lead to a trap.\<close>

lemma stuck_has_trap:
  assumes fin: "finished sk ex"
  shows "j < length (ex_keys ex) \<Longrightarrow> \<not> may sk (completes_here sk) (state_at sk ex j) \<Longrightarrow>
     may sk (sticks_here sk) (state_at sk ex j) \<Longrightarrow>
     \<exists>i < length (ex_keys ex). is_trap ex (an_can_complete (analyze ex)) (an_reasons (analyze ex)) i"
proof (induction j rule: less_induct)
  case (less j)
  let ?p = "sr_parent (ex_records ex ! j)" and ?c = "sr_combo (ex_records ex ! j)"
  show ?case
  proof (cases "j = 0 \<or> an_can_complete (analyze ex) ! ?p")
    case True
    then show ?thesis using less.prems trap_iff[OF fin less.prems(1)] by blast
  next
    case False
    have "parents_ok sk ex (all_tries sk ex)" using fin by (simp add: finished_def ex_inv_def)
    then have p: "?p < j" "(?p, ?c) \<in> all_tries sk ex" "tr_terminal (tr_at sk ex ?p ?c) = TNone"
      "tr_next (tr_at sk ex ?p ?c) = state_at sk ex j"
      using False less.prems(1) unfolding parents_ok_def Let_def by blast+
    then have inside: "?p < length (ex_keys ex)" "?c \<in> tries sk (state_at sk ex ?p)"
      using less.prems(1) by (simp_all add: all_tries_def)
    have "\<not> may sk (completes_here sk) (state_at sk ex ?p)" using False can_complete_iff[OF fin inside(1)] by blast
    moreover have "may sk (sticks_here sk) (state_at sk ex ?p)"
      using less.prems(3) p(3,4) inside(2) unfolding tr_at_def by (metis may_later)
    ultimately show ?thesis by (rule less.IH[OF p(1) inside(1)])
  qed
qed

text \<open>C16: The points of no return (S1) are exact. When the exploration was not cut short, every reported
  dead end is a reachable state from which no run can complete and some run stalls or fails, and the list
  is empty exactly when every reachable state from which a run can stall or fail can still complete.\<close>

theorem dead_ends_exact:
  assumes "sk_start sk \<noteq> []" "\<not> ex_capped (explore sk cap)"
  shows "(\<forall>j \<in> set (an_dead_ends (analyze (explore sk cap))). sk_reach sk (state_at sk (explore sk cap) j) \<and>
       \<not> may sk (completes_here sk) (state_at sk (explore sk cap) j) \<and>
       may sk (sticks_here sk) (state_at sk (explore sk cap) j)) \<and>
     (an_dead_ends (analyze (explore sk cap)) = [] \<longleftrightarrow>
       (\<forall>s. sk_reach sk s \<longrightarrow> may sk (sticks_here sk) s \<longrightarrow> may sk (completes_here sk) s))"
proof -
  define ex where "ex = explore sk cap"
  have fin: "finished sk ex" unfolding ex_def by (rule explore_finished[OF assms(1,2)])
  have inv: "keys_ok sk ex" "ex_inv sk ex (all_tries sk ex)" "\<not> ex_capped ex"
    using fin by (simp_all add: finished_def ex_inv_def)
  let ?trap = "is_trap ex (an_can_complete (analyze ex)) (an_reasons (analyze ex))"
  have dead: "set (an_dead_ends (analyze ex)) \<subseteq> {j. j < length (ex_keys ex) \<and> ?trap j}"
    "an_dead_ends (analyze ex) = [] \<longleftrightarrow> \<not> (\<exists>i < length (ex_keys ex). ?trap i)"
    using dead_ends_traps[of ex] by (auto simp: filter_empty_conv)
  show ?thesis
    unfolding ex_def[symmetric]
  proof (intro conjI ballI)
    fix j assume "j \<in> set (an_dead_ends (analyze ex))"
    then have "j < length (ex_keys ex)" "?trap j" using dead(1) by auto
    then show "sk_reach sk (state_at sk ex j)" "\<not> may sk (completes_here sk) (state_at sk ex j)"
      "may sk (sticks_here sk) (state_at sk ex j)"
      using state_at_reach(1)[OF inv(1)] trap_iff[OF fin] by simp_all
  next
    show "an_dead_ends (analyze ex) = [] \<longleftrightarrow>
       (\<forall>s. sk_reach sk s \<longrightarrow> may sk (sticks_here sk) s \<longrightarrow> may sk (completes_here sk) s)"
      unfolding dead(2)
      using explore_complete[OF inv(2,3)] stuck_has_trap[OF fin] state_at_reach(1)[OF inv(1)] trap_iff[OF fin] by metis
  qed
qed

section \<open>Traces\<close>

fun follow :: "skeleton \<Rightarrow> nat list \<Rightarrow> sk_state \<Rightarrow> sk_state option" where
  "follow sk [] s = Some s"
| "follow sk (c # cs) s =
     (if c \<in> tries sk s \<and> tr_terminal (step_of sk s c) = TNone then follow sk cs (tr_next (step_of sk s c)) else None)"

lemma follow_snoc:
  "follow sk cs s = Some t \<Longrightarrow> c \<in> tries sk t \<Longrightarrow> tr_terminal (step_of sk t c) = TNone \<Longrightarrow>
     follow sk (cs @ [c]) s = Some (tr_next (step_of sk t c))"
  by (induction cs arbitrary: s) (auto split: if_splits)

lemma path_back_follow:
  assumes inv: "ex_inv sk ex L"
  shows "j < length (ex_keys ex) \<Longrightarrow> j \<le> fuel \<Longrightarrow>
     follow sk (map snd (rev (path_back ex fuel j))) (initial_state sk) = Some (state_at sk ex j)"
proof (induction fuel arbitrary: j)
  case 0
  then show ?case using inv by (simp add: ex_inv_def keys_ok_def state_at_def decode_encode shaped_initial)
next
  case (Suc fuel)
  let ?p = "sr_parent (ex_records ex ! j)" and ?c = "sr_combo (ex_records ex ! j)"
  show ?case
  proof (cases "j = 0")
    case True
    then show ?thesis using inv by (simp add: ex_inv_def keys_ok_def state_at_def decode_encode shaped_initial)
  next
    case False
    have "parents_ok sk ex L" "log_ok sk ex L" using inv by (simp_all add: ex_inv_def)
    then have p: "?p < j" "(?p, ?c) \<in> L" "tr_terminal (tr_at sk ex ?p ?c) = TNone"
      "tr_next (tr_at sk ex ?p ?c) = state_at sk ex j" and "?c \<in> tries sk (state_at sk ex ?p)"
      using False Suc.prems(1) unfolding parents_ok_def log_ok_def Let_def by blast+
    moreover have "follow sk (map snd (rev (path_back ex fuel ?p))) (initial_state sk) = Some (state_at sk ex ?p)"
      using p(1) Suc.prems by (intro Suc.IH) simp_all
    ultimately show ?thesis using False follow_snoc[of sk _ "initial_state sk" "state_at sk ex ?p" ?c]
      by (simp add: tr_at_def)
  qed
qed

text \<open>C29: A witness trace replays. For every state the exploration found, capped or not, the route
  combinations of \<open>path_to\<close> lead the skeleton from its initial state to exactly that state, each of them
  one the state before offers and none of them ending the run.\<close>

theorem path_to_replays:
  assumes "sk_start sk \<noteq> []" "j < length (ex_keys (explore sk cap))"
  shows "follow sk (map snd (path_to (explore sk cap) j)) (initial_state sk) = Some (state_at sk (explore sk cap) j)"
proof (rule explore_nonempty[OF assms(1), of cap])
  fix n L assume "ex_inv sk (explore sk cap) L"
  from path_back_follow[OF this assms(2)] assms(2) show ?thesis by (simp add: path_to_def)
qed

section \<open>What the exploration reports\<close>

text \<open>C7: The exploration is exact. When it was not cut short, the states it found are the states the
  control skeleton can reach, each found once.\<close>

theorem exploration_is_exact:
  assumes "sk_start sk \<noteq> []" "\<not> ex_capped (explore sk cap)"
  shows "set (map (decode_state sk) (ex_keys (explore sk cap))) = {s. sk_reach sk s} \<and>
     distinct (map (decode_state sk) (ex_keys (explore sk cap)))"
proof -
  let ?ex = "explore sk cap"
  have fin: "finished sk ?ex" by (rule explore_finished[OF assms])
  then have inv: "keys_ok sk ?ex" "ex_inv sk ?ex (all_tries sk ?ex)" "\<not> ex_capped ?ex"
    by (simp_all add: finished_def ex_inv_def)
  have at: "map (decode_state sk) (ex_keys ?ex) = map (state_at sk ?ex) [0..<length (ex_keys ?ex)]"
    by (rule nth_equalityI) (simp_all add: state_at_def)
  have "s \<in> set (map (decode_state sk) (ex_keys ?ex)) \<longleftrightarrow> sk_reach sk s" for s
    unfolding at using explore_complete[OF inv(2,3), of s] state_at_reach(1)[OF inv(1)] by auto
  moreover have "inj_on (decode_state sk) (set (ex_keys ?ex))"
    using state_at_reach(2)[OF inv(1)] unfolding state_at_def
    by (intro inj_on_inverseI[of _ encode_state]) (metis in_set_conv_nth)
  ultimately show ?thesis using inv(1) by (auto simp: keys_ok_def distinct_map)
qed

definition some_step :: "skeleton \<Rightarrow> (transition \<Rightarrow> bool) \<Rightarrow> bool" where
  "some_step sk P \<longleftrightarrow> (\<exists>s c. sk_reach sk s \<and> c \<in> tries sk s \<and> P (step_of sk s c))"

text \<open>C17: What the exploration reports of runs is exact. When it was not cut short, each outcome flag is set
  exactly when a reachable super-step ends that way, a barrier counts as fired exactly when a reachable
  super-step fires it, and a pending end is recorded for a barrier exactly when a run can end in that way with
  signals still held by it (S2, S3).\<close>

theorem reported_runs_exact:
  assumes "sk_start sk \<noteq> []" "\<not> ex_capped (explore sk cap)"
  shows "oc_completed (ex_outcomes (explore sk cap)) = some_step sk (\<lambda>t. tr_terminal t = TCompleted) \<and>
     oc_completed_over_pending (ex_outcomes (explore sk cap)) = some_step sk (\<lambda>t. tr_terminal t = TCompletedOverPending) \<and>
     oc_stalled (ex_outcomes (explore sk cap)) = some_step sk (\<lambda>t. tr_terminal t = TStalled) \<and>
     oc_failure_exit (ex_outcomes (explore sk cap)) = some_step sk (\<lambda>t. tr_terminal t = TFailureExit) \<and>
     oc_failed (ex_outcomes (explore sk cap)) = some_step sk (\<lambda>t. tr_terminal t = TFailed) \<and>
     ex_fired (explore sk cap) = map (\<lambda>k. some_step sk (\<lambda>t. k \<in> set (tr_fired t))) [0..<length (sk_joins sk)] \<and>
     (\<lambda>e. map_of (ex_pending_ends (explore sk cap)) e \<noteq> None) = (\<lambda>e. some_step sk (ends_holding e))"
proof -
  define ex where "ex = explore sk cap"
  have "finished sk ex" unfolding ex_def by (rule explore_finished[OF assms(1,2)])
  then have inv: "keys_ok sk ex" "ex_inv sk ex (all_tries sk ex)" "\<not> ex_capped ex"
    by (simp_all add: finished_def ex_inv_def)
  have seen: "seen sk ex (all_tries sk ex) P = some_step sk P" for P
    unfolding some_step_def seen_def all_tries_def tr_at_def
    using explore_complete[OF inv(2,3)] state_at_reach(1)[OF inv(1)] by fastforce
  have "outcomes_ok sk ex (all_tries sk ex)" "fired_ok sk ex (all_tries sk ex)" "ends_ok sk ex (all_tries sk ex)"
    using inv(2) by (simp_all add: ex_inv_def)
  note ok = this[unfolded outcomes_ok_def fired_ok_def ends_ok_def seen]
  have "ex_fired ex = map (\<lambda>k. some_step sk (\<lambda>t. k \<in> set (tr_fired t))) [0..<length (sk_joins sk)]"
    by (rule nth_equalityI) (use ok(2) in simp_all)
  moreover have "(\<lambda>e. map_of (ex_pending_ends ex) e \<noteq> None) = (\<lambda>e. some_step sk (ends_holding e))"
    by (rule ext) (use ok(3) in blast)
  ultimately show ?thesis unfolding ex_def[symmetric] using ok(1) by blast
qed

section \<open>Bounds\<close>

lemma take_combo_transitions: "ex_transitions (take_combo cap i c step ex) = ex_transitions ex + 1"
  by (rule take_combo_signals(2))

lemma scan_combos_transitions:
  "ex_transitions (scan_combos sk cap i s rdy options n combo ex) \<le> ex_transitions ex + n"
proof (induction n arbitrary: combo ex)
  case (Suc n)
  let ?ex = "take_combo cap i combo (apply_step sk s rdy options combo) ex"
  have "ex_transitions (scan_combos sk cap i s rdy options n (combo + 1) ?ex) \<le> ex_transitions ?ex + n" by (rule Suc.IH)
  then show ?case by (simp add: Let_def take_combo_transitions)
qed simp

lemma visit_state_transitions:
  assumes "ex_transitions ex \<le> combo_budget cap"
  shows "ex_transitions (visit_state sk cap i ex) \<le> combo_budget cap"
proof (cases rule: visit_state_cases[where sk = sk and i = i and ex = ex and cap = cap])
  case (scan combos)
  then show ?thesis using assms scan_combos_transitions[of sk cap i _ _ _ combos 0 "before_scan sk i ex"]
    by (fastforce intro: order_trans)
qed (use assms in simp_all)

lemma explore_loop_bounds:
  "ex_transitions ex \<le> combo_budget cap \<Longrightarrow> length (ex_keys ex) \<le> max 1 cap \<Longrightarrow>
     ex_transitions (explore_loop sk cap i ex) \<le> combo_budget cap \<and> length (ex_keys (explore_loop sk cap i ex)) \<le> max 1 cap"
proof (induction sk cap i ex rule: explore_loop.induct)
  case (1 sk cap i ex)
  show ?case
  proof (cases "i < length (ex_keys ex) \<and> \<not> ex_capped ex")
    case True
    have "length (ex_keys (visit_state sk cap i ex)) \<le> max 1 cap"
      using visit_state_keys_bound[of sk cap i ex] 1(3) by simp
    with 1(1)[OF True visit_state_transitions[OF 1(2)]] True show ?thesis
      by (subst (1 2) explore_loop.simps) (simp only: if_True simp_thms)
  next
    case False
    then show ?thesis using 1(2,3) by (subst (1 2) explore_loop.simps) (simp only: if_False simp_thms)
  qed
qed

text \<open>C30: The work is bounded: whatever the topology, the exploration keeps at most the configured number of
  states (and always the initial one) and applies at most \<open>state_cap * kCombosPerState\<close> route combinations, in
  64-bit arithmetic.\<close>

theorem exploration_bounded:
  "length (ex_keys (explore sk cap)) \<le> max 1 cap \<and> ex_transitions (explore sk cap) \<le> combo_budget cap"
proof (cases "sk_start sk = []")
  case True
  then show ?thesis by (simp add: explore_def intern_def empty_exploration_def Let_def)
next
  case False
  then have "explore sk cap = explore_loop sk cap 0 (first_exploration sk)"
    by (simp add: explore_def first_exploration_def Let_def)
  then show ?thesis using explore_loop_bounds[of "first_exploration sk" cap sk 0]
    by (simp add: first_exploration_def intern_def empty_exploration_def)
qed

section \<open>A graph that can get stuck\<close>

text \<open>
  Node \<open>a\<close> picks \<open>b\<close> or the end; the barrier \<open>j\<close> behind \<open>b\<close> also waits for \<open>a\<close>, which never signals it. A run
  that picks \<open>b\<close> stalls.
\<close>

definition fork_topology :: topology where
  "fork_topology =
     \<lparr>tp_channel_defs = [],
      tp_edges = [\<lparr>edge_from = START_NODE, edge_to = ''a''\<rparr>, \<lparr>edge_from = ''b'', edge_to = ''j''\<rparr>,
        \<lparr>edge_from = ''j'', edge_to = END_NODE\<rparr>],
      tp_conditional_edges = [\<lparr>ce_from = ''a'', ce_condition = ''pick'', ce_routes = [(''l'', ''b''), (''r'', END_NODE)]\<rparr>],
      tp_barrier_specs = [(''j'', [''a'', ''b''])], tp_join_specs = [],
      tp_node_defs = [(''a'', JObject []), (''b'', JObject []), (''j'', JObject [])],
      tp_retry_policies = [], tp_failure_edges = [], tp_failure_exits = []\<rparr>"

definition fork_skeleton :: skeleton where
  "fork_skeleton = build_model (\<lambda>_. JNull) (\<lambda>_. None) fork_topology"

definition at_b :: sk_state where
  "at_b = \<lparr>st_ready = [2], st_pending = [[0]], st_visits = []\<rparr>"

lemma fork_start: "sk_start fork_skeleton \<noteq> []"
  by code_simp

lemma fork_uncapped: "\<not> ex_capped (explore fork_skeleton 9)"
  by code_simp

lemma fork_at_b: "state_at fork_skeleton (explore fork_skeleton 9) 1 = at_b"
  by code_simp

lemma fork_dead_ends: "an_dead_ends (analyze (explore fork_skeleton 9)) = [1]"
  by code_simp

lemma fork_states: "map (decode_state fork_skeleton) (ex_keys (explore fork_skeleton 9)) = [initial_state fork_skeleton, at_b]"
  by code_simp

lemma fork_path: "length (ex_keys (explore fork_skeleton 9)) = 2" "map snd (path_to (explore fork_skeleton 9) 1) = [0]"
  by code_simp+

lemma fork_reports: "oc_stalled (ex_outcomes (explore fork_skeleton 9))" "\<not> oc_failed (ex_outcomes (explore fork_skeleton 9))"
    "ex_fired (explore fork_skeleton 9) = [False]" "map_of (ex_pending_ends (explore fork_skeleton 9)) (0, EndStalled) \<noteq> None"
  by code_simp+

theorem dead_ends_exact_witness:
  "sk_reach fork_skeleton at_b \<and> \<not> may fork_skeleton (completes_here fork_skeleton) at_b \<and>
     may fork_skeleton (sticks_here fork_skeleton) at_b"
  using dead_ends_exact[OF fork_start fork_uncapped] by (simp add: fork_dead_ends fork_at_b[unfolded One_nat_def])

theorem path_to_replays_witness: "follow fork_skeleton [0] (initial_state fork_skeleton) = Some at_b"
  using path_to_replays[OF fork_start, of 1 9] fork_path by (simp add: fork_at_b[unfolded One_nat_def])

theorem exploration_is_exact_witness: "{s. sk_reach fork_skeleton s} = {initial_state fork_skeleton, at_b}"
  using exploration_is_exact[OF fork_start fork_uncapped] unfolding fork_states by simp

theorem reported_runs_exact_witness:
  "some_step fork_skeleton (\<lambda>t. tr_terminal t = TStalled) \<and> \<not> some_step fork_skeleton (\<lambda>t. tr_terminal t = TFailed) \<and>
     some_step fork_skeleton (ends_holding (0, EndStalled))"
  using reported_runs_exact[OF fork_start fork_uncapped] fork_reports by (metis (lifting))

end
