(* ===== verification/NG_Text.thy ===== *)
theory NG_Text
  imports NG_Framing
begin

text \<open>
  Text safety (\<open>src/src/core/text_safety.cpp\<close>): the UTF-8 decoder, the table of unsafe code points, and
  the operations that replace ill-formed sequences, strip unsafe code points and truncate at a code
  point boundary. A \<open>string_view\<close> with an offset is the rest of the text from that offset on; where an
  offset is reported, it is counted along. Bytes are characters, and code points natural numbers: the
  decoder only builds values below \<open>2^21\<close>, so the shifts and masks of \<open>char32_t\<close> values are exact
  multiplications, remainders and sums.

  The reference is the encoding itself: \<open>utf8\<close> writes a list of Unicode scalar values, and a text is
  well-formed when it is such an encoding.
\<close>

section \<open>Unsafe code points\<close>

datatype unsafe_text_class = C0Control | BidiControl | ZeroWidth | Tag

definition kC0Controls :: "(nat \<times> nat) list" where
  "kC0Controls = [(0x0000, 0x0008), (0x000B, 0x000C), (0x000E, 0x001F)]"

definition kBidiControls :: "(nat \<times> nat) list" where
  "kBidiControls = [(0x061C, 0x061C), (0x200E, 0x200F), (0x202A, 0x202E), (0x2066, 0x2069)]"

definition kZeroWidth :: "(nat \<times> nat) list" where
  "kZeroWidth = [(0x200B, 0x200D), (0x2060, 0x2060), (0xFEFF, 0xFEFF)]"

definition kTags :: "(nat \<times> nat) list" where
  "kTags = [(0xE0000, 0xE007F)]"

definition kClasses :: "unsafe_text_class list" where
  "kClasses = [C0Control, BidiControl, ZeroWidth, Tag]"

fun unsafe_text_ranges :: "unsafe_text_class \<Rightarrow> (nat \<times> nat) list" where
  "unsafe_text_ranges C0Control = kC0Controls"
| "unsafe_text_ranges BidiControl = kBidiControls"
| "unsafe_text_ranges ZeroWidth = kZeroWidth"
| "unsafe_text_ranges Tag = kTags"

fun unsafe_class_name :: "unsafe_text_class \<Rightarrow> string" where
  "unsafe_class_name C0Control = ''c0_control''"
| "unsafe_class_name BidiControl = ''bidi_control''"
| "unsafe_class_name ZeroWidth = ''zero_width''"
| "unsafe_class_name Tag = ''tag''"

definition classify_unsafe_code_point :: "nat \<Rightarrow> unsafe_text_class option" where
  "classify_unsafe_code_point cp =
     (if 0x20 \<le> cp \<and> cp < 0x061C then None
      else find (\<lambda>c. list_ex (\<lambda>(first, last). first \<le> cp \<and> cp \<le> last) (unsafe_text_ranges c)) kClasses)"

section \<open>The decoder\<close>

record decoded =
  de_code_point :: nat
  de_length :: nat
  de_valid :: bool

definition byte_of :: "char \<Rightarrow> nat" where
  "byte_of c = of_char c"

definition in_range :: "nat \<Rightarrow> nat \<Rightarrow> nat \<Rightarrow> bool" where
  "in_range byte low high \<longleftrightarrow> low \<le> byte \<and> byte \<le> high"

text \<open>
  The loop over the continuation bytes: \<open>needed\<close> bytes are still wanted, \<open>low\<close> and \<open>high\<close> bound the
  next one (only the byte after the lead has bounds of its own).
\<close>

fun decode_rest :: "nat \<Rightarrow> nat \<Rightarrow> nat \<Rightarrow> nat \<Rightarrow> nat \<Rightarrow> string \<Rightarrow> decoded" where
  "decode_rest 0 low high v len text = \<lparr>de_code_point = v, de_length = len, de_valid = True\<rparr>"
| "decode_rest (Suc needed) low high v len [] = \<lparr>de_code_point = 0, de_length = len, de_valid = False\<rparr>"
| "decode_rest (Suc needed) low high v len (c # text) =
     (if \<not> in_range (byte_of c) low high then \<lparr>de_code_point = 0, de_length = len, de_valid = False\<rparr>
      else decode_rest needed 0x80 0xBF (v * 64 + byte_of c mod 64) (Suc len) text)"

definition decode :: "string \<Rightarrow> decoded" where
  "decode text =
     (case text of
        [] \<Rightarrow> \<lparr>de_code_point = 0, de_length = 1, de_valid = False\<rparr>
      | c # rest \<Rightarrow>
          let lead = byte_of c
          in if lead < 0x80 then \<lparr>de_code_point = lead, de_length = 1, de_valid = True\<rparr>
             else if in_range lead 0xC2 0xDF then decode_rest 1 0x80 0xBF (lead mod 0x20) 1 rest
             else if in_range lead 0xE0 0xEF
             then decode_rest 2 (if lead = 0xE0 then 0xA0 else 0x80) (if lead = 0xED then 0x9F else 0xBF)
                    (lead mod 0x10) 1 rest
             else if in_range lead 0xF0 0xF4
             then decode_rest 3 (if lead = 0xF0 then 0x90 else 0x80) (if lead = 0xF4 then 0x8F else 0xBF)
                    (lead mod 0x08) 1 rest
             else \<lparr>de_code_point = 0, de_length = 1, de_valid = False\<rparr>)"

lemma decode_rest_length: "de_length (decode_rest n low high v len s) \<ge> len"
  by (induction n low high v len s rule: decode_rest.induct) auto

lemma decode_rest_pos: "0 < len \<Longrightarrow> 0 < de_length (decode_rest n low high v len s)"
  using decode_rest_length[of len n low high v s] by linarith

lemma decode_length_pos [simp]: "0 < de_length (decode s)"
  by (cases s) (simp_all add: decode_def Let_def decode_rest_pos)

section \<open>Loops over a text\<close>

function is_valid_utf8 :: "string \<Rightarrow> bool" where
  "is_valid_utf8 text =
     (if text = [] then True
      else if \<not> de_valid (decode text) then False
      else is_valid_utf8 (drop (de_length (decode text)) text))"
  by auto

termination
  by (relation "measure length") (simp_all add: diff_less)

text \<open>The byte offset of the first ill-formed sequence, which \<open>InvalidUtf8Error\<close> names.\<close>

function first_invalid :: "nat \<Rightarrow> string \<Rightarrow> nat option" where
  "first_invalid offset text =
     (if text = [] then None
      else if \<not> de_valid (decode text) then Some offset
      else first_invalid (offset + de_length (decode text)) (drop (de_length (decode text)) text))"
  by auto

termination
  by (relation "measure (length \<circ> snd)") (simp_all add: diff_less)

function find_unsafe_loop :: "nat \<Rightarrow> string \<Rightarrow> nat + (nat \<times> nat \<times> unsafe_text_class) list" where
  "find_unsafe_loop offset text =
     (if text = [] then Inr []
      else if \<not> de_valid (decode text) then Inl offset
      else bind_result (find_unsafe_loop (offset + de_length (decode text)) (drop (de_length (decode text)) text))
             (\<lambda>found. Inr (case classify_unsafe_code_point (de_code_point (decode text)) of
                             None \<Rightarrow> found
                           | Some c \<Rightarrow> (offset, de_code_point (decode text), c) # found)))"
  by auto

termination
  by (relation "measure (length \<circ> snd)") (simp_all add: diff_less)

definition find_unsafe_code_points :: "string \<Rightarrow> nat + (nat \<times> nat \<times> unsafe_text_class) list" where
  "find_unsafe_code_points text = find_unsafe_loop 0 text"

function contains_unsafe_loop :: "nat \<Rightarrow> string \<Rightarrow> nat + bool" where
  "contains_unsafe_loop offset text =
     (if text = [] then Inr False
      else if \<not> de_valid (decode text) then Inl offset
      else if classify_unsafe_code_point (de_code_point (decode text)) \<noteq> None then Inr True
      else contains_unsafe_loop (offset + de_length (decode text)) (drop (de_length (decode text)) text))"
  by auto

termination
  by (relation "measure (length \<circ> snd)") (simp_all add: diff_less)

definition contains_unsafe_code_points :: "string \<Rightarrow> nat + bool" where
  "contains_unsafe_code_points text = contains_unsafe_loop 0 text"

definition kUtf8ReplacementCharacter :: string where
  "kUtf8ReplacementCharacter = [char_of (0xEF :: nat), char_of (0xBF :: nat), char_of (0xBD :: nat)]"

function replace_invalid_utf8 :: "string \<Rightarrow> string" where
  "replace_invalid_utf8 text =
     (if text = [] then []
      else (if de_valid (decode text) then take (de_length (decode text)) text else kUtf8ReplacementCharacter) @
           replace_invalid_utf8 (drop (de_length (decode text)) text))"
  by auto

termination
  by (relation "measure length") (simp_all add: diff_less)

definition valid_utf8 :: "string \<Rightarrow> string" where
  "valid_utf8 text = (if is_valid_utf8 text then text else replace_invalid_utf8 text)"

datatype invalid_utf8_policy = Reject | Replace

text \<open>\<open>Inl\<close> is \<open>InvalidUtf8Error\<close> with its byte offset.\<close>

definition well_formed :: "string \<Rightarrow> invalid_utf8_policy \<Rightarrow> nat + string" where
  "well_formed text policy =
     (if policy = Replace then Inr (replace_invalid_utf8 text)
      else case first_invalid 0 text of Some offset \<Rightarrow> Inl offset | None \<Rightarrow> Inr text)"

function strip_loop :: "string \<Rightarrow> string" where
  "strip_loop text =
     (if text = [] then []
      else (if classify_unsafe_code_point (de_code_point (decode text)) = None
            then take (de_length (decode text)) text else []) @
           strip_loop (drop (de_length (decode text)) text))"
  by auto

termination
  by (relation "measure length") (simp_all add: diff_less)

definition strip_unsafe_code_points :: "string \<Rightarrow> invalid_utf8_policy \<Rightarrow> nat + string" where
  "strip_unsafe_code_points text policy = bind_result (well_formed text policy) (\<lambda>input. Inr (strip_loop input))"

definition is_continuation :: "char \<Rightarrow> bool" where
  "is_continuation c \<longleftrightarrow> byte_of c div 64 = 2"

fun back_off :: "string \<Rightarrow> nat \<Rightarrow> nat" where
  "back_off text 0 = 0"
| "back_off text (Suc n) = (if is_continuation (text ! Suc n) then back_off text n else Suc n)"

definition truncate_utf8 :: "string \<Rightarrow> nat \<Rightarrow> invalid_utf8_policy \<Rightarrow> nat + string" where
  "truncate_utf8 text max_bytes policy =
     bind_result (well_formed text policy) (\<lambda>input.
       Inr (if length input \<le> max_bytes then input else take (back_off input max_bytes) input))"

definition sanitize_untrusted_text :: "string \<Rightarrow> nat \<Rightarrow> invalid_utf8_policy \<Rightarrow> nat + string" where
  "sanitize_untrusted_text text max_bytes policy =
     bind_result (strip_unsafe_code_points text policy) (\<lambda>stripped. truncate_utf8 stripped max_bytes Reject)"

declare is_valid_utf8.simps [simp del] first_invalid.simps [simp del] find_unsafe_loop.simps [simp del]
  contains_unsafe_loop.simps [simp del] replace_invalid_utf8.simps [simp del] strip_loop.simps [simp del]

section \<open>The encoding\<close>

definition scalar :: "nat \<Rightarrow> bool" where
  "scalar cp \<longleftrightarrow> cp < 0xD800 \<or> (0xE000 \<le> cp \<and> cp \<le> 0x10FFFF)"

definition encode_bytes :: "nat \<Rightarrow> nat list" where
  "encode_bytes cp =
     (if cp < 0x80 then [cp]
      else if cp < 0x800 then [0xC0 + cp div 64, 0x80 + cp mod 64]
      else if cp < 0x10000 then [0xE0 + cp div 4096, 0x80 + cp div 64 mod 64, 0x80 + cp mod 64]
      else [0xF0 + cp div 262144, 0x80 + cp div 4096 mod 64, 0x80 + cp div 64 mod 64, 0x80 + cp mod 64])"

definition encode :: "nat \<Rightarrow> string" where
  "encode cp = map char_of (encode_bytes cp)"

definition utf8 :: "nat list \<Rightarrow> string" where
  "utf8 cps = concat (map encode cps)"

lemma byte_of_char_of [simp]: "byte_of (char_of n) = n mod 256"
  by (simp add: byte_of_def)

lemma char_of_byte_of [simp]: "char_of (byte_of c) = c"
  by (simp add: byte_of_def)

lemma byte_of_less [simp]: "byte_of c < 256"
  by (simp add: byte_of_def)

lemma encode_nonempty [simp]: "encode cp \<noteq> []"
  by (simp add: encode_def encode_bytes_def)

lemma scalar_bound: "scalar cp \<Longrightarrow> cp \<le> 0x10FFFF"
  by (auto simp: scalar_def)

lemma split64: "(n::nat) div 64 * 64 + n mod 64 = n" "(n::nat) div 4096 = n div 64 div 64"
  "(n::nat) div 262144 = n div 64 div 64 div 64"
  by (simp_all add: div_mult2_eq[symmetric])

lemma cont_byte:
  fixes m :: nat
  assumes "m < 64"
  shows "(128 + m) mod 256 = 128 + m" "(128 + m) mod 64 = m" "m \<le> 63"
  using assms mod_mult_self3[of 2 64 m] by simp_all

lemma lead_byte:
  fixes q :: nat
  shows "q < 32 \<Longrightarrow> (192 + q) mod 256 = 192 + q" "q < 32 \<Longrightarrow> (192 + q) mod 32 = q"
    "q < 16 \<Longrightarrow> (224 + q) mod 256 = 224 + q" "q < 16 \<Longrightarrow> (224 + q) mod 16 = q"
    "q < 8 \<Longrightarrow> (240 + q) mod 256 = 240 + q" "q < 8 \<Longrightarrow> (240 + q) mod 8 = q"
  using mod_mult_self3[of 6 32 q] mod_mult_self3[of 14 16 q] mod_mult_self3[of 30 8 q] by simp_all

lemma decode_encoded:
  assumes "scalar cp"
  shows "decode (encode cp @ rest) = \<lparr>de_code_point = cp, de_length = length (encode cp), de_valid = True\<rparr>"
proof -
  have cp: "cp \<le> 0x10FFFF" "\<not> (0xD800 \<le> cp \<and> cp < 0xE000)"
    using assms by (auto simp: scalar_def)
  define q where "q = cp div 64"
  define m where "m = cp mod 64"
  define r where "r = q div 64"
  define k where "k = q mod 64"
  define t where "t = r div 64"
  define j where "j = r mod 64"
  have ranges: "m < 64" "k < 64" "j < 64" by (simp_all add: m_def k_def j_def)
  have eqs: "cp = q * 64 + m" "q = r * 64 + k" "r = t * 64 + j"
    by (simp_all add: q_def m_def r_def k_def t_def j_def)
  have parts: "cp div 64 = q" "cp mod 64 = m" "cp div 4096 = r" "q mod 64 = k" "cp div 262144 = t" "r mod 64 = j"
    by (simp_all add: split64 q_def m_def r_def k_def t_def j_def)
  note conts = cont_byte[OF ranges(1)] cont_byte[OF ranges(2)] cont_byte[OF ranges(3)]
  consider "cp < 0x80" | "0x80 \<le> cp" "cp < 0x800" | "0x800 \<le> cp" "cp < 0x10000" | "0x10000 \<le> cp"
    by linarith
  then show ?thesis
  proof cases
    case 1
    then show ?thesis by (simp add: encode_def encode_bytes_def decode_def)
  next
    case 2
    have q: "2 \<le> q" "q < 32" using 2 eqs(1) ranges(1) by linarith+
    have bytes: "encode cp = [char_of (192 + q), char_of (128 + m)]"
      using 2 by (simp add: encode_def encode_bytes_def parts)
    show ?thesis unfolding bytes using q conts eqs(1)
      by (simp add: decode_def in_range_def lead_byte numeral_2_eq_2)
  next
    case 3
    have r: "r < 16" "r = 0 \<Longrightarrow> 32 \<le> k" "r = 13 \<Longrightarrow> k \<le> 31"
      using 3 cp(2) eqs(1,2) ranges(1,2) by linarith+
    have bytes: "encode cp = [char_of (224 + r), char_of (128 + k), char_of (128 + m)]"
      using 3 by (simp add: encode_def encode_bytes_def parts)
    show ?thesis unfolding bytes using r conts eqs(1,2)
      by (simp add: decode_def in_range_def lead_byte numeral_2_eq_2)
  next
    case 4
    have t: "t < 5" "t = 0 \<Longrightarrow> 16 \<le> j" "t = 4 \<Longrightarrow> j \<le> 15"
      using 4 cp(1) eqs ranges by linarith+
    have bytes: "encode cp = [char_of (240 + t), char_of (128 + j), char_of (128 + k), char_of (128 + m)]"
      using 4 by (simp add: encode_def encode_bytes_def parts)
    show ?thesis unfolding bytes using t conts eqs
      by (simp add: decode_def in_range_def lead_byte numeral_3_eq_3)
  qed
qed

lemma divmod64: "(m::nat) < 64 \<Longrightarrow> (q * 64 + m) div 64 = q" "(m::nat) < 64 \<Longrightarrow> (q * 64 + m) mod 64 = m"
  by (simp_all add: div_mult_self3)

lemma encode2: "2 \<le> q \<Longrightarrow> q < 32 \<Longrightarrow> m < 64 \<Longrightarrow> encode (q * 64 + m) = [char_of (192 + q), char_of (128 + m)]"
  by (simp add: encode_def encode_bytes_def divmod64)

lemma encode3:
  assumes "r < 16" "k < 64" "m < 64" "r = 0 \<Longrightarrow> 32 \<le> k"
  shows "encode ((r * 64 + k) * 64 + m) = [char_of (224 + r), char_of (128 + k), char_of (128 + m)]"
proof -
  let ?cp = "(r * 64 + k) * 64 + m"
  have "?cp div 4096 = r" using assms by (simp only: split64 divmod64)
  moreover have "?cp div 64 mod 64 = k" "?cp mod 64 = m" using assms by (simp_all only: divmod64)
  moreover have low: "0x800 \<le> ?cp" using assms(4) by (cases "r = 0") simp_all
  then have "\<not> ?cp < 0x80" "\<not> ?cp < 0x800" by linarith+
  moreover have "r \<le> 15" "k \<le> 63" using assms(1,2) by simp_all
  then have "r * 64 + k \<le> 1023" by linarith
  then have "?cp < 0x10000" using assms(3) mult_le_mono1[of "r * 64 + k" 1023 64] by linarith
  ultimately show ?thesis by (simp only: encode_def encode_bytes_def if_False if_True list.map)
qed

lemma encode4:
  assumes "t < 5" "j < 64" "k < 64" "m < 64" "t = 0 \<Longrightarrow> 16 \<le> j"
  shows "encode (((t * 64 + j) * 64 + k) * 64 + m) =
     [char_of (240 + t), char_of (128 + j), char_of (128 + k), char_of (128 + m)]"
proof -
  let ?cp = "((t * 64 + j) * 64 + k) * 64 + m"
  have "?cp div 262144 = t" "?cp div 4096 mod 64 = j" using assms by (simp_all only: split64 divmod64)
  moreover have "?cp div 64 mod 64 = k" "?cp mod 64 = m" using assms by (simp_all only: divmod64)
  moreover have low: "0x10000 \<le> ?cp" using assms(5) by (cases "t = 0") simp_all
  then have "\<not> ?cp < 0x80" "\<not> ?cp < 0x800" "\<not> ?cp < 0x10000" by linarith+
  ultimately show ?thesis by (simp only: encode_def encode_bytes_def if_False list.map)
qed

lemma decode_rest_valid:
  "de_valid (decode_rest (Suc n) low high v len s) \<longleftrightarrow>
     (\<exists>m t. s = char_of (128 + m) # t \<and> m < 64 \<and> in_range (128 + m) low high \<and>
        de_valid (decode_rest n 128 191 (v * 64 + m) (Suc len) t))"
  if "128 \<le> low" "high \<le> 191"
proof (cases s)
  case (Cons c t)
  show ?thesis
  proof
    assume *: "de_valid (decode_rest (Suc n) low high v len s)"
    then have c: "in_range (byte_of c) low high" using Cons by (auto split: if_splits)
    define m where "m = byte_of c - 128"
    have m: "byte_of c = 128 + m" "m < 64" using c that by (auto simp: m_def in_range_def)
    then have "c = char_of (128 + m)" by (metis char_of_byte_of)
    with * Cons c m show "\<exists>m t. s = char_of (128 + m) # t \<and> m < 64 \<and> in_range (128 + m) low high \<and>
        de_valid (decode_rest n 128 191 (v * 64 + m) (Suc len) t)"
      using cont_byte[OF m(2)] by (intro exI[of _ m] exI[of _ t]) simp
  next
    assume "\<exists>m t. s = char_of (128 + m) # t \<and> m < 64 \<and> in_range (128 + m) low high \<and>
        de_valid (decode_rest n 128 191 (v * 64 + m) (Suc len) t)"
    then show "de_valid (decode_rest (Suc n) low high v len s)" by (auto simp: cont_byte)
  qed
qed simp

text \<open>A valid decoding step reads the encoding of a scalar value.\<close>

lemma decode_valid:
  assumes "s \<noteq> []" "de_valid (decode s)"
  shows "scalar (de_code_point (decode s)) \<and> de_length (decode s) = length (encode (de_code_point (decode s))) \<and>
    (\<exists>rest. s = encode (de_code_point (decode s)) @ rest)"
proof -
  obtain c t where s: "s = c # t" using assms(1) by (cases s) auto
  have "\<exists>cp rest. scalar cp \<and> s = encode cp @ rest"
  proof (cases "byte_of c < 0x80")
    case True
    then have "s = encode (byte_of c) @ t" by (simp add: s encode_def encode_bytes_def)
    with True show ?thesis by (intro exI[of _ "byte_of c"] exI[of _ t]) (simp add: scalar_def)
  next
    case False
    note v = assms(2)[unfolded decode_def s list.case Let_def]
    consider "in_range (byte_of c) 0xC2 0xDF" | "in_range (byte_of c) 0xE0 0xEF" | "in_range (byte_of c) 0xF0 0xF4"
      using v False by (auto split: if_splits)
    then show ?thesis
    proof cases
      case 1
      define q where "q = byte_of c - 192"
      have q: "byte_of c = 192 + q" "2 \<le> q" "q < 32" using 1 by (auto simp: q_def in_range_def)
      have c: "c = char_of (192 + q)" by (metis q(1) char_of_byte_of)
      from v False 1 obtain m :: nat and rest where m: "t = char_of (128 + m) # rest" "m < 64"
        by (auto simp: decode_rest_valid)
      have "s = encode (q * 64 + m) @ rest" using q m c s by (simp add: encode2)
      moreover have "scalar (q * 64 + m)" using q m by (simp add: scalar_def)
      ultimately show ?thesis by blast
    next
      case 2
      define r where "r = byte_of c - 224"
      have r: "byte_of c = 224 + r" "r < 16" using 2 by (auto simp: r_def in_range_def)
      have c: "c = char_of (224 + r)" by (metis r(1) char_of_byte_of)
      have n2: "\<not> in_range (byte_of c) 0xC2 0xDF" using 2 by (simp add: in_range_def)
      obtain k :: nat and t' where k: "t = char_of (128 + k) # t'" "k < 64" "r = 0 \<Longrightarrow> 32 \<le> k" "r = 13 \<Longrightarrow> k \<le> 31"
        and t': "de_valid (decode_rest 1 128 191 (byte_of c mod 16 * 64 + k) 2 t')"
        using v False 2 n2 r by (auto simp: decode_rest_valid numeral_2_eq_2 in_range_def split: if_splits)
      from t' obtain m :: nat and rest where m: "t' = char_of (128 + m) # rest" "m < 64" by (auto simp: decode_rest_valid)
      have "encode ((r * 64 + k) * 64 + m) = [char_of (224 + r), char_of (128 + k), char_of (128 + m)]"
        by (rule encode3) (use r(2) k(2,3) m(2) in simp_all)
      then have "s = encode ((r * 64 + k) * 64 + m) @ rest" by (simp only: s c k(1) m(1) append.simps)
      moreover have "scalar ((r * 64 + k) * 64 + m)"
        using r k m unfolding scalar_def by (cases "r < 13"; cases "r = 13"; auto)
      ultimately show ?thesis by blast
    next
      case 3
      define w where "w = byte_of c - 240"
      have w: "byte_of c = 240 + w" "w < 5" using 3 by (auto simp: w_def in_range_def)
      have c: "c = char_of (240 + w)" by (metis w(1) char_of_byte_of)
      have n3: "\<not> in_range (byte_of c) 0xC2 0xDF" "\<not> in_range (byte_of c) 0xE0 0xEF" using 3 by (simp_all add: in_range_def)
      obtain j k m :: nat and rest where j: "t = char_of (128 + j) # char_of (128 + k) # char_of (128 + m) # rest"
        "j < 64" "w = 0 \<Longrightarrow> 16 \<le> j" "w = 4 \<Longrightarrow> j \<le> 15" and k: "k < 64" "m < 64"
        using v False 3 n3 w
        by (auto simp: decode_rest_valid numeral_2_eq_2 numeral_3_eq_3 in_range_def split: if_splits)
      have "encode (((w * 64 + j) * 64 + k) * 64 + m) =
          [char_of (240 + w), char_of (128 + j), char_of (128 + k), char_of (128 + m)]"
        by (rule encode4) (use w(2) j(2,3) k in simp_all)
      then have "s = encode (((w * 64 + j) * 64 + k) * 64 + m) @ rest" by (simp only: s c j(1) append.simps)
      moreover have "scalar (((w * 64 + j) * 64 + k) * 64 + m)"
        using w j k unfolding scalar_def by (cases "w = 0"; cases "w = 4"; auto)
      ultimately show ?thesis by blast
    qed
  qed
  then obtain cp rest where "scalar cp" "s = encode cp @ rest" by blast
  then show ?thesis by (simp add: decode_encoded)
qed

section \<open>Well-formed text\<close>

lemma utf8_simps [simp]: "utf8 [] = []" "utf8 (cp # cps) = encode cp @ utf8 cps" "utf8 (xs @ ys) = utf8 xs @ utf8 ys"
  by (simp_all add: utf8_def)

lemma utf8_Nil_iff [simp]: "utf8 cps = [] \<longleftrightarrow> cps = []"
  by (cases cps) simp_all

lemma valid_decodeE:
  assumes "s \<noteq> []" "de_valid (decode s)"
  obtains cp rest where "scalar cp" "s = encode cp @ rest"
    "decode s = \<lparr>de_code_point = cp, de_length = length (encode cp), de_valid = True\<rparr>"
  using decode_valid[OF assms] decode_encoded by metis

lemma is_valid_utf8_Nil [simp]: "is_valid_utf8 []"
  by (simp add: is_valid_utf8.simps)

lemma is_valid_utf8_encode [simp]: "scalar cp \<Longrightarrow> is_valid_utf8 (encode cp @ s) \<longleftrightarrow> is_valid_utf8 s"
  by (subst is_valid_utf8.simps) (simp add: decode_encoded)

lemma is_valid_utf8_utf8: "list_all scalar cps \<Longrightarrow> is_valid_utf8 (utf8 cps)"
  by (induction cps) simp_all

lemma valid_utf8_encoded: "is_valid_utf8 s \<Longrightarrow> \<exists>cps. list_all scalar cps \<and> s = utf8 cps"
proof (induction s rule: is_valid_utf8.induct)
  case (1 s)
  show ?case
  proof (cases "s = []")
    case True
    then show ?thesis by (intro exI[of _ "[]"]) simp
  next
    case False
    have v: "de_valid (decode s)" "is_valid_utf8 (drop (de_length (decode s)) s)"
      using "1.prems" False by (simp_all add: is_valid_utf8.simps[of s] split: if_splits)
    obtain cp rest where cp: "scalar cp" "s = encode cp @ rest"
      "decode s = \<lparr>de_code_point = cp, de_length = length (encode cp), de_valid = True\<rparr>"
      by (rule valid_decodeE[OF False v(1)])
    from "1.IH"[OF False _ v(2)] v(1) obtain cps where "list_all scalar cps" "rest = utf8 cps"
      using cp by auto
    with cp show ?thesis by (intro exI[of _ "cp # cps"]) simp
  qed
qed

lemma utf8_inj:
  "list_all scalar as \<Longrightarrow> list_all scalar bs \<Longrightarrow> utf8 as = utf8 bs \<Longrightarrow> as = bs"
proof (induction as arbitrary: bs)
  case Nil
  then show ?case by (metis utf8_Nil_iff)
next
  case (Cons a as)
  then obtain b bs' where bs: "bs = b # bs'" by (metis utf8_Nil_iff list.exhaust list.distinct(1))
  have "a = b" using Cons.prems decode_encoded[of a "utf8 as"] decode_encoded[of b "utf8 bs'"] bs by simp
  with Cons bs show ?case by simp
qed

lemma replacement_encoded: "kUtf8ReplacementCharacter = encode 0xFFFD" "scalar 0xFFFD"
  by (simp_all add: kUtf8ReplacementCharacter_def encode_def encode_bytes_def scalar_def)

lemma replace_invalid_Nil [simp]: "replace_invalid_utf8 [] = []"
  by (simp add: replace_invalid_utf8.simps)

lemma replace_invalid_encode [simp]:
  "scalar cp \<Longrightarrow> replace_invalid_utf8 (encode cp @ s) = encode cp @ replace_invalid_utf8 s"
  by (subst replace_invalid_utf8.simps) (simp add: decode_encoded)

lemma replace_invalid_utf8_id: "list_all scalar cps \<Longrightarrow> replace_invalid_utf8 (utf8 cps) = utf8 cps"
  by (induction cps) simp_all

lemma replace_invalid_is_valid: "is_valid_utf8 (replace_invalid_utf8 s)"
proof (induction s rule: replace_invalid_utf8.induct)
  case (1 s)
  show ?case
  proof (cases "s = [] \<or> \<not> de_valid (decode s)")
    case True
    then show ?thesis using 1
      by (cases "s = []") (simp_all add: replace_invalid_utf8.simps[of s] replacement_encoded)
  next
    case False
    then obtain cp rest where cp: "scalar cp" "s = encode cp @ rest" "decode s = \<lparr>de_code_point = cp, de_length = length (encode cp), de_valid = True\<rparr>"
      by (meson valid_decodeE)
    then show ?thesis using 1 False by simp
  qed
qed

lemma first_invalid_Nil [simp]: "first_invalid off [] = None"
  by (simp add: first_invalid.simps)

lemma first_invalid_encode [simp]:
  "scalar cp \<Longrightarrow> first_invalid off (encode cp @ s) = first_invalid (off + length (encode cp)) s"
  by (subst first_invalid.simps) (simp add: decode_encoded)

lemma first_invalid_utf8: "list_all scalar cps \<Longrightarrow> first_invalid off (utf8 cps) = None"
  by (induction cps arbitrary: off) simp_all

lemma first_invalid_iff: "first_invalid off s = None \<longleftrightarrow> is_valid_utf8 s"
  by (induction off s rule: first_invalid.induct) (subst first_invalid.simps, subst is_valid_utf8.simps, simp)

section \<open>Stripping and truncating\<close>

abbreviation safe_code_point :: "nat \<Rightarrow> bool" where
  "safe_code_point cp \<equiv> classify_unsafe_code_point cp = None"

lemma strip_loop_Nil [simp]: "strip_loop [] = []"
  by (simp add: strip_loop.simps)

lemma strip_loop_encode [simp]:
  "scalar cp \<Longrightarrow> strip_loop (encode cp @ s) = (if safe_code_point cp then encode cp else []) @ strip_loop s"
  by (subst strip_loop.simps) (simp add: decode_encoded)

lemma strip_loop_utf8: "list_all scalar cps \<Longrightarrow> strip_loop (utf8 cps) = utf8 (filter safe_code_point cps)"
  by (induction cps) simp_all

lemma contains_unsafe_Nil [simp]: "contains_unsafe_loop off [] = Inr False"
  by (simp add: contains_unsafe_loop.simps)

lemma contains_unsafe_encode [simp]:
  "scalar cp \<Longrightarrow> contains_unsafe_loop off (encode cp @ s) =
     (if safe_code_point cp then contains_unsafe_loop (off + length (encode cp)) s else Inr True)"
  by (subst contains_unsafe_loop.simps) (simp add: decode_encoded)

lemma contains_unsafe_utf8:
  "list_all scalar cps \<Longrightarrow> contains_unsafe_code_points (utf8 cps) = Inr (\<not> list_all safe_code_point cps)"
proof -
  have "list_all scalar cps \<Longrightarrow> contains_unsafe_loop off (utf8 cps) = Inr (\<not> list_all safe_code_point cps)" for off
    by (induction cps arbitrary: off) simp_all
  then show "list_all scalar cps \<Longrightarrow> ?thesis" by (simp add: contains_unsafe_code_points_def)
qed

lemma cont_is_continuation: "m < 64 \<Longrightarrow> is_continuation (char_of (128 + m :: nat))"
  by (simp add: is_continuation_def cont_byte)

lemma lead_not_continuation: "192 \<le> byte_of c \<or> byte_of c < 128 \<Longrightarrow> \<not> is_continuation c"
  using div_le_mono[of 192 "byte_of c" 64] div_le_mono[of "byte_of c" 127 64] by (auto simp: is_continuation_def)

lemma encode_shape:
  assumes "scalar cp"
  shows "\<exists>c cs. encode cp = c # cs \<and> \<not> is_continuation c \<and> list_all is_continuation cs"
proof -
  have "cp \<le> 0x10FFFF" using assms by (rule scalar_bound)
  then have cp: "cp < 0x800 \<Longrightarrow> cp div 64 < 32" "cp < 0x10000 \<Longrightarrow> cp div 4096 < 16" "cp div 262144 < 8" by auto
  have cont: "is_continuation (char_of (128 + n mod 64))" for n :: nat by (rule cont_is_continuation) simp
  have lead: "byte_of (char_of (192 + q)) = 192 + q" if "q < 32" for q :: nat using that by (simp add: lead_byte)
  have lead': "byte_of (char_of (224 + q)) = 224 + q" if "q < 16" for q :: nat using that by (simp add: lead_byte)
  have lead'': "byte_of (char_of (240 + q)) = 240 + q" if "q < 8" for q :: nat using that by (simp add: lead_byte)
  consider "cp < 0x80" | "\<not> cp < 0x80" "cp < 0x800" | "\<not> cp < 0x80" "\<not> cp < 0x800" "cp < 0x10000"
    | "\<not> cp < 0x80" "\<not> cp < 0x800" "\<not> cp < 0x10000" by blast
  then show ?thesis
  proof cases
    case 1
    then show ?thesis by (simp add: encode_def encode_bytes_def lead_not_continuation)
  next
    case 2
    then have "encode cp = [char_of (192 + cp div 64), char_of (128 + cp mod 64)]"
      by (simp only: encode_def encode_bytes_def if_False if_True list.map)
    then show ?thesis using lead[OF cp(1)[OF 2(2)]] by (simp add: cont lead_not_continuation del: byte_of_char_of)
  next
    case 3
    then have "encode cp = [char_of (224 + cp div 4096), char_of (128 + cp div 64 mod 64), char_of (128 + cp mod 64)]"
      by (simp only: encode_def encode_bytes_def if_False if_True list.map)
    then show ?thesis using lead'[OF cp(2)[OF 3(3)]] by (simp add: cont lead_not_continuation del: byte_of_char_of)
  next
    case 4
    then have "encode cp = [char_of (240 + cp div 262144), char_of (128 + cp div 4096 mod 64),
        char_of (128 + cp div 64 mod 64), char_of (128 + cp mod 64)]"
      by (simp only: encode_def encode_bytes_def if_False list.map)
    then show ?thesis using lead''[OF cp(3)] by (simp add: cont lead_not_continuation del: byte_of_char_of)
  qed
qed

lemma encode_continuations:
  assumes "scalar cp" "i < length (encode cp)"
  shows "is_continuation (encode cp ! i) \<longleftrightarrow> 0 < i"
proof -
  obtain c cs where "encode cp = c # cs" "\<not> is_continuation c" "list_all is_continuation cs"
    using encode_shape[OF assms(1)] by blast
  with assms(2) show ?thesis by (cases i) (simp_all add: list_all_length)
qed

lemma boundary_iff:
  assumes "list_all scalar cps" "i < length (utf8 cps)"
  shows "\<not> is_continuation (utf8 cps ! i) \<longleftrightarrow> (\<exists>k \<le> length cps. i = length (utf8 (take k cps)))"
  using assms
proof (induction cps arbitrary: i)
  case (Cons cp cps)
  show ?case
  proof (cases "i < length (encode cp)")
    case True
    have "(\<exists>k \<le> length (cp # cps). i = length (utf8 (take k (cp # cps)))) \<longleftrightarrow> i = 0"
    proof
      assume "\<exists>k \<le> length (cp # cps). i = length (utf8 (take k (cp # cps)))"
      then obtain k where "i = length (utf8 (take k (cp # cps)))" by blast
      with True show "i = 0" by (cases k) simp_all
    qed (intro exI[of _ 0], simp)
    with True Cons.prems show ?thesis by (simp add: nth_append encode_continuations)
  next
    case False
    let ?j = "i - length (encode cp)"
    have "(\<exists>k \<le> length (cp # cps). i = length (utf8 (take k (cp # cps)))) \<longleftrightarrow>
        (\<exists>k \<le> length cps. ?j = length (utf8 (take k cps)))"
    proof
      assume "\<exists>k \<le> length (cp # cps). i = length (utf8 (take k (cp # cps)))"
      then obtain k where k: "k \<le> length (cp # cps)" "i = length (utf8 (take k (cp # cps)))" by blast
      with False obtain k' where "k = Suc k'" by (cases k) auto
      with k show "\<exists>k \<le> length cps. ?j = length (utf8 (take k cps))" by (intro exI[of _ k']) simp
    next
      assume "\<exists>k \<le> length cps. ?j = length (utf8 (take k cps))"
      then obtain k where "k \<le> length cps" "?j = length (utf8 (take k cps))" by blast
      with False show "\<exists>k \<le> length (cp # cps). i = length (utf8 (take k (cp # cps)))"
        by (intro exI[of _ "Suc k"]) simp
    qed
    with False Cons show ?thesis by (simp add: nth_append)
  qed
qed simp

lemma back_off_bounds:
  "back_off s n \<le> n" "back_off s n = 0 \<or> \<not> is_continuation (s ! back_off s n)"
  "back_off s n < i \<Longrightarrow> i \<le> n \<Longrightarrow> is_continuation (s ! i)"
  by (induction n) (auto simp: le_Suc_eq split: if_splits)

text \<open>Truncation keeps the longest run of whole code points that fits.\<close>

lemma truncated_prefix:
  assumes "list_all scalar cps" "max_bytes < length (utf8 cps)"
  obtains k where "k < length cps" "take (back_off (utf8 cps) max_bytes) (utf8 cps) = utf8 (take k cps)"
    "length (utf8 (take k cps)) \<le> max_bytes" "max_bytes < length (utf8 (take (Suc k) cps))"
proof -
  let ?s = "utf8 cps" and ?b = "back_off (utf8 cps) max_bytes"
  have b: "?b \<le> max_bytes" "?b < length ?s" using back_off_bounds(1)[of ?s max_bytes] assms(2) by linarith+
  have "\<exists>k \<le> length cps. ?b = length (utf8 (take k cps))"
  proof (cases "?b = 0")
    case True
    then show ?thesis by (intro exI[of _ 0]) simp
  next
    case False
    then have "\<not> is_continuation (?s ! ?b)" using back_off_bounds(2)[of ?s max_bytes] by simp
    then show ?thesis by (rule boundary_iff[OF assms(1) b(2), THEN iffD1])
  qed
  then obtain k where k: "k \<le> length cps" "?b = length (utf8 (take k cps))" by blast
  have split: "?s = utf8 (take k cps) @ utf8 (drop k cps)"
    using utf8_simps(3)[of "take k cps" "drop k cps"] by (simp only: append_take_drop_id)
  have kl: "k < length cps" using k b(2) by (cases "k = length cps") auto
  have "max_bytes < length (utf8 (take (Suc k) cps))"
  proof (rule ccontr)
    let ?i = "length (utf8 (take (Suc k) cps))"
    assume "\<not> max_bytes < ?i"
    then have i: "?i \<le> max_bytes" "?i < length ?s" using assms(2) by linarith+
    have "?b < ?i" using k kl by (simp add: take_Suc_conv_app_nth)
    then have "is_continuation (?s ! ?i)" using i back_off_bounds(3) by blast
    moreover have "\<not> is_continuation (?s ! ?i)"
      using boundary_iff[OF assms(1) i(2)] kl by (metis Suc_leI)
    ultimately show False by blast
  qed
  moreover have "take ?b ?s = utf8 (take k cps)" using k(2) split by (metis append_eq_conv_conj)
  ultimately show thesis using that k b kl by simp
qed

section \<open>Correctness\<close>

text \<open>C19: A text is accepted as UTF-8 exactly when it is the encoding of a list of Unicode scalar values
(no surrogates, nothing above \<open>U+10FFFF\<close>, no overlong forms), and repairing a text gives accepted text
and changes nothing of a text that is already accepted.\<close>

theorem utf8_acceptance:
  "(is_valid_utf8 s \<longleftrightarrow> (\<exists>cps. list_all scalar cps \<and> s = utf8 cps)) \<and>
   is_valid_utf8 (valid_utf8 s) \<and> (replace_invalid_utf8 s = s \<longleftrightarrow> is_valid_utf8 s)"
proof (intro conjI)
  show iff: "is_valid_utf8 s \<longleftrightarrow> (\<exists>cps. list_all scalar cps \<and> s = utf8 cps)"
    using valid_utf8_encoded is_valid_utf8_utf8 by blast
  show "is_valid_utf8 (valid_utf8 s)"
    by (simp add: valid_utf8_def replace_invalid_is_valid)
  show "replace_invalid_utf8 s = s \<longleftrightarrow> is_valid_utf8 s"
    using iff replace_invalid_utf8_id replace_invalid_is_valid[of s] by metis
qed

lemma truncate_encoded:
  assumes "list_all scalar cps"
  shows "\<exists>k \<le> length cps. truncate_utf8 (utf8 cps) max_bytes Reject = Inr (utf8 (take k cps)) \<and>
     length (utf8 (take k cps)) \<le> max_bytes \<and> (k = length cps \<or> max_bytes < length (utf8 (take (Suc k) cps)))"
proof (cases "max_bytes < length (utf8 cps)")
  case True
  from truncated_prefix[OF assms True] obtain k where "k < length cps"
    "take (back_off (utf8 cps) max_bytes) (utf8 cps) = utf8 (take k cps)"
    "length (utf8 (take k cps)) \<le> max_bytes" "max_bytes < length (utf8 (take (Suc k) cps))" by blast
  with True assms show ?thesis
    by (intro exI[of _ k]) (simp add: truncate_utf8_def well_formed_def first_invalid_utf8)
next
  case False
  with assms show ?thesis
    by (intro exI[of _ "length cps"]) (simp add: truncate_utf8_def well_formed_def first_invalid_utf8)
qed

text \<open>C18: Sanitizing untrusted text never fails under the replacing policy. The result is the encoding of
the longest run of the repaired text's safe code points that fits the byte limit: it is well-formed, no
code point is split, it holds no unsafe code point and it is not longer than the limit.\<close>

theorem sanitized_text_is_safe:
  "\<exists>cps k. list_all scalar cps \<and> utf8 cps = replace_invalid_utf8 s \<and>
     sanitize_untrusted_text s max_bytes Replace = Inr (utf8 (take k (filter safe_code_point cps))) \<and>
     length (utf8 (take k (filter safe_code_point cps))) \<le> max_bytes \<and>
     (length (filter safe_code_point cps) \<le> k \<or>
      max_bytes < length (utf8 (take (Suc k) (filter safe_code_point cps)))) \<and>
     is_valid_utf8 (utf8 (take k (filter safe_code_point cps))) \<and>
     contains_unsafe_code_points (utf8 (take k (filter safe_code_point cps))) = Inr False"
proof -
  obtain cps where cps: "list_all scalar cps" "replace_invalid_utf8 s = utf8 cps"
    using valid_utf8_encoded[OF replace_invalid_is_valid] by blast
  let ?safe = "filter safe_code_point cps"
  have safe: "list_all scalar ?safe" using cps(1) by (auto simp: list_all_iff)
  from truncate_encoded[OF this, of max_bytes] obtain k where k: "k \<le> length ?safe"
    "truncate_utf8 (utf8 ?safe) max_bytes Reject = Inr (utf8 (take k ?safe))"
    "length (utf8 (take k ?safe)) \<le> max_bytes"
    "k = length ?safe \<or> max_bytes < length (utf8 (take (Suc k) ?safe))" by blast
  have pre: "list_all scalar (take k ?safe)" "list_all safe_code_point (take k ?safe)"
    using cps(1) by (auto simp: list_all_iff dest!: in_set_takeD)
  have "sanitize_untrusted_text s max_bytes Replace = Inr (utf8 (take k ?safe))"
    using cps k(2) by (simp add: sanitize_untrusted_text_def strip_unsafe_code_points_def well_formed_def strip_loop_utf8)
  moreover have "is_valid_utf8 (utf8 (take k ?safe))" by (rule is_valid_utf8_utf8[OF pre(1)])
  moreover have "contains_unsafe_code_points (utf8 (take k ?safe)) = Inr False"
    using contains_unsafe_utf8[OF pre(1)] pre(2) by simp
  moreover have "length ?safe \<le> k \<or> max_bytes < length (utf8 (take (Suc k) ?safe))" using k(4) by linarith
  ultimately show ?thesis using cps k(3) by (intro exI[of _ cps] exI[of _ k]) (simp only: simp_thms)
qed

end
