(* ===== verification/NG_Attempts.thy ===== *)
theory NG_Attempts
  imports NG_Engine NG_Failure NG_Cache NG_Text Complex_Main
begin

text \<open>
  One node invocation (\<open>AttemptsAccess::run\<close> in \<open>src/src/core/graph_executor.cpp\<close>): the result a resumed
  step replays, the visit limit, the node cache, the attempts with their retry decisions, and the
  pending write that records the result.

  An invocation is a state machine (\<open>branch\<close>) whose steps each touch the state that invocations of one
  super-step share at most once: the checkpoint store, the node cache and the retry ceiling. A single
  node runs its machine to the end (\<open>run_branch\<close>); the branches of a fan-out interleave theirs.

  Node code is a parameter: \<open>node_body\<close> gives, for the state, the effect namespace of the attempt and
  the resume value bound to it, what the executor observes of the attempt (\<open>attempt_report\<close>). The clock,
  the jitter and the state of the run's cancel token are part of the observation. Runs have no event
  callback here.
\<close>

section \<open>Effects of an attempt\<close>

datatype tool_terminal_status =
    Succeeded | Failed | CancelledBeforeStart | CancellationRequested | Expired | ToolTimedOut | Killed
  | InputRequired | ReconciliationRequired | Rejected

fun tool_status_to_string :: "tool_terminal_status \<Rightarrow> string" where
  "tool_status_to_string Succeeded = ''succeeded''"
| "tool_status_to_string Failed = ''failed''"
| "tool_status_to_string CancelledBeforeStart = ''cancelled_before_start''"
| "tool_status_to_string CancellationRequested = ''cancellation_requested''"
| "tool_status_to_string Expired = ''expired''"
| "tool_status_to_string ToolTimedOut = ''timed_out''"
| "tool_status_to_string Killed = ''killed''"
| "tool_status_to_string InputRequired = ''input_required''"
| "tool_status_to_string ReconciliationRequired = ''reconciliation_required''"
| "tool_status_to_string Rejected = ''rejected''"

record effect_entry =
  ee_thread_id :: string
  ee_task_id :: string
  ee_ordinal :: u64
  ee_tool :: string
  ee_status :: tool_terminal_status

record effect_log =
  el_entries :: "effect_entry list"
  el_committed :: bool
  el_uncertain :: bool

definition empty_effect_log :: effect_log where
  "empty_effect_log = \<lparr>el_entries = [], el_committed = False, el_uncertain = False\<rparr>"

definition record_effect :: "effect_entry \<Rightarrow> bool \<Rightarrow> bool \<Rightarrow> effect_log \<Rightarrow> effect_log" where
  "record_effect entry committed uncertain effects =
     \<lparr>el_entries = el_entries effects @ [entry],
      el_committed = (el_committed effects \<or> committed), el_uncertain = (el_uncertain effects \<or> uncertain)\<rparr>"

text \<open>\<open>std::stable_sort\<close> by thread, task and ordinal.\<close>

definition effect_entries :: "effect_log \<Rightarrow> effect_entry list" where
  "effect_entries effects = sort_key (\<lambda>e. (ee_thread_id e, ee_task_id e, ee_ordinal e)) (el_entries effects)"

definition failure_effects :: "effect_log option \<Rightarrow> failure_effect list" where
  "failure_effects effects =
     (case effects of
        None \<Rightarrow> []
      | Some l \<Rightarrow>
          map (\<lambda>e. \<lparr>fe_tool = ee_tool e, fe_ordinal = ee_ordinal e, fe_status = tool_status_to_string (ee_status e)\<rparr>)
            (effect_entries l))"

section \<open>Retry policies and backoff\<close>

text \<open>A \<open>double\<close>: not a number, an infinity or a rational.\<close>

datatype double = NaN | PosInf | NegInf | Finite rat

text \<open>\<open>ry_product\<close> is the floating-point product of a delay and the backoff multiplier.\<close>

record retry_policy =
  ry_max_retries :: int
  ry_initial_delay_ms :: int
  ry_product :: "int \<Rightarrow> double"
  ry_max_delay_ms :: int
  ry_jitter :: bool

definition next_delay_ms :: "int \<Rightarrow> retry_policy \<Rightarrow> int" where
  "next_delay_ms delay policy =
     (let next = (case ry_product policy delay of
                    NaN \<Rightarrow> rat_of_int (ry_max_delay_ms policy)
                  | PosInf \<Rightarrow> rat_of_int (ry_max_delay_ms policy)
                  | NegInf \<Rightarrow> 0
                  | Finite p \<Rightarrow> if p > rat_of_int (ry_max_delay_ms policy) then rat_of_int (ry_max_delay_ms policy) else p)
      in if next < 0 then 0 else \<lfloor>next\<rfloor>)"

text \<open>\<open>scaled\<close> is the delay times one plus the drawn jitter, clamped to the range of \<open>int\<close>.\<close>

definition jittered_delay :: "retry_policy \<Rightarrow> int \<Rightarrow> rat \<Rightarrow> int" where
  "jittered_delay policy delay scaled =
     (if ry_jitter policy \<and> delay > 0 then \<lfloor>min (max scaled 0) (rat_of_int int_max)\<rfloor> else delay)"

text \<open>The run-level retry ceiling (\<open>NodeRetryCeiling\<close>).\<close>

record retry_ceiling =
  ceil_limit :: u64
  ceil_used :: u64

definition try_take :: "retry_ceiling \<Rightarrow> bool \<times> retry_ceiling" where
  "try_take c = (if ceil_used c < ceil_limit c then (True, c\<lparr>ceil_used := ceil_used c + 1\<rparr>) else (False, c))"

section \<open>Invocations\<close>

text \<open>
  What the executor observes of one attempt: its outcome (none when a dispatched body ended without
  one), whether it ran into its timeout and stopped, its effects, whether the run's token was
  cancelled when the attempt ended and after the backoff, the clock at that time and the jitter draw.
\<close>

record 'm attempt_report =
  at_outcome :: "(exn + 'm node_result) option"
  at_timed_out :: bool
  at_stopped :: bool
  at_effects :: "effect_log option"
  at_cancelled :: bool
  at_cancelled_later :: bool
  at_clock :: int
  at_scaled_delay :: rat

text \<open>The resume value and the interrupt it answers, as the attempt's context carries them.\<close>

type_synonym bound_answer = "json option \<times> string"

type_synonym 'm node_body = "'m graph_state \<Rightarrow> string \<Rightarrow> bound_answer \<Rightarrow> 'm attempt_report"

text \<open>
  The executor and the parts of the run context an invocation reads. \<open>ex_redactor\<close> is the host's
  redactor (\<open>None\<close> as its result: it threw); \<open>ex_state_hash\<close> stands for \<open>hash_state_for_cache\<close> of the
  cached view of a state; \<open>ex_runtime_part\<close> and \<open>ex_runtime_histories\<close> write and read the provider part of a
  runtime snapshot.
\<close>

record ('n, 'm) executor =
  ex_engine :: "('n, 'm) engine"
  ex_nodes :: "(string \<times> 'm node_body) list"
  ex_routing :: "failure_routing option"
  ex_redactor :: "(node_failure \<Rightarrow> string option) option"
  ex_retry_policy :: "string \<Rightarrow> retry_policy"
  ex_attempt_timeout :: "string \<Rightarrow> int option"
  ex_shared_scheduler :: bool
  ex_has_cache :: bool
  ex_state_hash :: "'m graph_state \<Rightarrow> string"
  ex_cache_context :: "string \<Rightarrow> string option"
  ex_cache_execution_id :: nat
  ex_deadline :: "int option"
  ex_thread_id :: string
  ex_coordinator :: coordinator
  ex_outcome_codec :: "'m outcome_codec"
  ex_clock :: "nat \<Rightarrow> int"
  ex_new_id :: "nat \<Rightarrow> string"
  ex_dump :: "json \<Rightarrow> string"
  ex_answers :: "(string \<times> json option) list"
  ex_answered_step :: int
  ex_answered_interrupt :: string
  ex_runtime_part :: "'m graph_state \<Rightarrow> (string \<times> json) list"
  ex_runtime_histories :: "'m history_restore"

text \<open>\<open>InvocationSlot\<close> with the node and the state the invocation reads.\<close>

record 'm invocation =
  iv_node :: string
  iv_task_id :: string
  iv_step :: int
  iv_replay :: "(string \<times> 'm node_result) list"
  iv_parent_cp_id :: string
  iv_visit_limited :: bool
  iv_state :: "'m graph_state"

text \<open>What the invocations of a step share. \<open>sh_tick\<close> numbers the readings of the clock and id source.\<close>

record ('n, 'm) shared =
  sh_store :: "('n, 'm) memory_checkpoints"
  sh_cache :: "'m node_cache"
  sh_ceiling :: "retry_ceiling option"
  sh_tick :: nat

definition attempt_effect_namespace :: "string \<Rightarrow> int \<Rightarrow> string" where
  "attempt_effect_namespace task_id attempt =
     (if attempt > 0 then task_id @ ''#a'' @ int_to_string attempt else task_id)"

text \<open>An exception of the modelled library code, as the executor's \<open>catch\<close> clauses see it.\<close>

fun exn_of_error :: "error \<Rightarrow> exn" where
  "exn_of_error (Error c msg) =
     Exn (case c of
            InvalidArgument \<Rightarrow> XLogicError
          | LogicError \<Rightarrow> XLogicError
          | Cancelled \<Rightarrow> XCancelled
          | _ \<Rightarrow> XRuntimeError None) None None"

definition plan_of :: "('n, 'm) executor \<Rightarrow> string \<Rightarrow> node_failure_plan option" where
  "plan_of ex node = (case ex_routing ex of None \<Rightarrow> None | Some r \<Rightarrow> failure_plan r node)"

definition bind_resume_value :: "('n, 'm) executor \<Rightarrow> 'm invocation \<Rightarrow> bound_answer" where
  "bind_resume_value ex iv =
     (if iv_step iv \<noteq> ex_answered_step ex then (None, [])
      else let resume_value = (case map_of (ex_answers ex) (iv_task_id iv) of None \<Rightarrow> None | Some a \<Rightarrow> a)
           in (resume_value,
               if resume_value \<noteq> None \<and> iv_task_id iv = ex_answered_interrupt ex then iv_task_id iv else []))"

section \<open>Giving up on a node\<close>

definition kFailureTextMaxBytes :: nat where
  "kFailureTextMaxBytes = 512"

definition failure_of :: "string \<Rightarrow> int \<Rightarrow> verdict \<Rightarrow> node_failure_kind \<Rightarrow> effect_log option \<Rightarrow> node_failure" where
  "failure_of node attempts v kind effects =
     \<lparr>nf_node = node, nf_code = v_code v, nf_public_message = v_message v, nf_class = v_class v, nf_kind = kind,
      nf_retryable = v_retryable v, nf_routable = v_routable v, nf_attempts = attempts,
      nf_effects = failure_effects effects\<rparr>"

text \<open>Free text of a failure record: opted in, redacted by the host, and sanitized.\<close>

definition failure_text :: "('n, 'm) executor \<Rightarrow> node_failure_plan \<Rightarrow> node_failure \<Rightarrow> string" where
  "failure_text ex plan failure =
     (case ex_redactor ex of
        Some redactor \<Rightarrow>
          if fp_error_text plan \<and> nf_public_message failure \<noteq> []
          then (case redactor failure of
                  None \<Rightarrow> []
                | Some text \<Rightarrow>
                    (case sanitize_untrusted_text text kFailureTextMaxBytes Replace of
                       Inl _ \<Rightarrow> [] | Inr clean \<Rightarrow> clean))
          else []
      | None \<Rightarrow> [])"

definition handled_result :: "('n, 'm) executor \<Rightarrow> node_failure_plan \<Rightarrow> node_failure \<Rightarrow> int \<Rightarrow> 'm node_result" where
  "handled_result ex plan failure step =
     (let rec = failure_record_json failure step (fp_target plan) (failure_text ex plan failure)
      in \<lparr>nr_writes =
            (case fp_error_channel plan of
               None \<Rightarrow> []
             | Some ch \<Rightarrow> [\<lparr>cw_channel = ch, cw_value = JArray [rec], cw_mode = Reduce, cw_native = None\<rparr>]) @
            [\<lparr>cw_channel = kFailureRouteChannel, cw_value = rec, cw_mode = Reduce, cw_native = None\<rparr>],
          nr_command = None, nr_sends = []\<rparr>)"

text \<open>The exception an unhandled failure leaves with: a failure inside a subgraph keeps its own cause.\<close>

definition unhandled_failure :: "exn \<Rightarrow> node_failure \<Rightarrow> exn" where
  "unhandled_failure cause failure =
     (case exn_kind cause of
        XNodeExecution _ \<Rightarrow>
          (if exn_nested cause \<noteq> None then cause
           else case exn_cause cause of
                  None \<Rightarrow> cause
                | Some inner \<Rightarrow> Exn (XNodeExecution (Some failure)) (Some inner) None)
      | _ \<Rightarrow> Exn (XNodeExecution (Some failure)) (Some cause) None)"

definition give_up_node ::
    "('n, 'm) executor \<Rightarrow> 'm invocation \<Rightarrow> exn \<Rightarrow> int \<Rightarrow> verdict \<Rightarrow> node_failure_kind \<Rightarrow> effect_log option \<Rightarrow>
     exn + 'm node_result" where
  "give_up_node ex iv cause attempts v kind effects =
     (let failure = failure_of (iv_node iv) attempts v kind effects
      in case plan_of ex (iv_node iv) of
           Some plan \<Rightarrow>
             if nf_routable failure \<and> fp_target plan \<noteq> []
             then Inr (handled_result ex plan failure (iv_step iv))
             else Inl (unhandled_failure cause failure)
         | None \<Rightarrow> Inl (unhandled_failure cause failure))"

definition kVisitLimitCode :: string where
  "kVisitLimitCode = ''NG.VisitLimit''"

definition give_up_visit_limit :: "('n, 'm) executor \<Rightarrow> 'm invocation \<Rightarrow> exn + 'm node_result" where
  "give_up_visit_limit ex iv =
     give_up_node ex iv (Exn (XRuntimeError None) None None) 0
       \<lparr>v_class = Ordinary, v_code = kVisitLimitCode, v_message = [], v_retryable = False, v_routable = True\<rparr>
       VisitLimit None"

text \<open>The name of another node that would share the effect namespace of a retry attempt.\<close>

definition colliding_name :: "string \<Rightarrow> string option" where
  "colliding_name namespace =
     (case dropWhile (\<lambda>c. c \<noteq> CHR '':'') namespace of [] \<Rightarrow> None | _ # name \<Rightarrow> Some name)"

definition namespace_collides :: "('n, 'm) executor \<Rightarrow> string \<Rightarrow> bool" where
  "namespace_collides ex namespace =
     (case colliding_name namespace of None \<Rightarrow> False | Some name \<Rightarrow> map_of (ex_nodes ex) name \<noteq> None)"

definition give_up_namespace_collision :: "('n, 'm) executor \<Rightarrow> 'm invocation \<Rightarrow> int \<Rightarrow> exn + 'm node_result" where
  "give_up_namespace_collision ex iv attempt =
     (let collision = Exn XLogicError None None
      in give_up_node ex iv collision attempt (classify_node_failure False (Some collision)) NonRetryable None)"

section \<open>Settling a failed attempt\<close>

text \<open>\<open>find_signal\<close>: the first exception of a signal's own class in the cause chain, outermost first.\<close>

definition signal_causes :: "exn \<Rightarrow> exn list" where
  "signal_causes e =
     (let cause = (case exn_cause e of None \<Rightarrow> [] | Some c \<Rightarrow> [c]);
          nested = (case exn_nested e of None \<Rightarrow> [] | Some n \<Rightarrow> [n])
      in case exn_kind e of
           XForeign \<Rightarrow> []
         | XNodeExecution _ \<Rightarrow> cause @ nested
         | _ \<Rightarrow> nested)"

lemma signal_causes_size: "sum_list (map size (signal_causes e)) < size e"
  by (cases e) (auto simp: signal_causes_def Let_def split: exn_kind.splits option.splits)

lemma exn_size_pos: "0 < size (e :: exn)"
  using signal_causes_size[of e] by (rule order.strict_trans1[OF le0])

function find_signal :: "(exn_kind \<Rightarrow> bool) \<Rightarrow> (exn \<times> nat) list \<Rightarrow> exn option" where
  "find_signal P [] = None"
| "find_signal P ((e, depth) # todo) =
     (if depth > 64 then find_signal P todo
      else if P (exn_kind e) then Some e
      else find_signal P (map (\<lambda>c. (c, depth + 1)) (signal_causes e) @ todo))"
  by pat_completeness auto

termination
  by (relation "measure (\<lambda>(_, todo). sum_list (map (size \<circ> fst) todo))")
     (use signal_causes_size exn_size_pos in \<open>auto simp: comp_def\<close>)

definition run_stop :: "exn \<Rightarrow> tool_failure_class \<Rightarrow> exn" where
  "run_stop e kind =
     (case kind of
        TCancelled \<Rightarrow>
          (case find_signal (\<lambda>k. k = XCancelled) [(e, 0)] of Some x \<Rightarrow> x | None \<Rightarrow> Exn XCancelled None None)
      | THookBlocked \<Rightarrow>
          (case find_signal (\<lambda>k. k = XHookBlocked) [(e, 0)] of Some x \<Rightarrow> x | None \<Rightarrow> e)
      | TInterrupted \<Rightarrow>
          (case find_signal (\<lambda>k. case k of XInterrupt _ _ \<Rightarrow> True | _ \<Rightarrow> False) [(e, 0)] of Some x \<Rightarrow> x | None \<Rightarrow> e)
      | TToolError \<Rightarrow> e)"

definition reconciliation_interrupt :: "('n, 'm) executor \<Rightarrow> string \<Rightarrow> exn" where
  "reconciliation_interrupt ex namespace =
     Exn (XInterrupt ''Mediated Tool effect requires reconciliation''
            (JObject [(''kind'', JString ''tool_effect_reconciliation''),
                      (''thread_id'', JString (ex_thread_id ex)), (''task_id'', JString namespace)])) None None"

definition committed_effect :: "effect_log option \<Rightarrow> bool" where
  "committed_effect effects \<longleftrightarrow> (case effects of None \<Rightarrow> False | Some l \<Rightarrow> el_committed l)"

definition uncertain_effect :: "effect_log option \<Rightarrow> bool" where
  "uncertain_effect effects \<longleftrightarrow> (case effects of None \<Rightarrow> False | Some l \<Rightarrow> el_uncertain l)"

text \<open>The shared verdict, sharpened by the attempt's effects and the node's policy.\<close>

definition attempt_verdict :: "('n, 'm) executor \<Rightarrow> string \<Rightarrow> bool \<Rightarrow> exn \<Rightarrow> effect_log option \<Rightarrow> verdict" where
  "attempt_verdict ex node cancelled failure effects =
     (let v = classify_node_failure cancelled (Some failure);
          v = (if committed_effect effects \<and> v_class v < EffectCommitted
               then \<lparr>v_class = EffectCommitted, v_code = node_failure_code EffectCommitted, v_message = [],
                     v_retryable = False, v_routable = node_failure_routable EffectCommitted\<rparr>
               else v)
      in case plan_of ex node of
           Some plan \<Rightarrow> if v_retryable v \<and> v_code v \<in> set (fp_non_retryable plan) then v\<lparr>v_retryable := False\<rparr> else v
         | None \<Rightarrow> v)"

text \<open>
  \<open>settle_failed_attempt\<close>: the attempt is retried after a delay, or the invocation has a result, or it
  ends with an exception. The flag of \<open>SThrow\<close> says that the exception pauses this attempt.
\<close>

datatype 'm settled = SRetry int | SHandled "'m node_result" | SThrow exn bool

fun settled_of :: "exn + 'm node_result \<Rightarrow> 'm settled" where
  "settled_of (Inl e) = SThrow e False"
| "settled_of (Inr nr) = SHandled nr"

definition take_retry :: "retry_ceiling option \<Rightarrow> bool \<times> retry_ceiling option" where
  "take_retry cl =
     (case cl of None \<Rightarrow> (True, None) | Some c \<Rightarrow> (case try_take c of (ok, c') \<Rightarrow> (ok, Some c')))"

definition past_deadline :: "('n, 'm) executor \<Rightarrow> int \<Rightarrow> int \<Rightarrow> bool" where
  "past_deadline ex clock delay \<longleftrightarrow> (case ex_deadline ex of None \<Rightarrow> False | Some d \<Rightarrow> clock + delay \<ge> d)"

definition retry_or_give_up ::
    "('n, 'm) executor \<Rightarrow> 'm invocation \<Rightarrow> int \<Rightarrow> int \<Rightarrow> int \<Rightarrow> exn \<Rightarrow> 'm attempt_report \<Rightarrow> retry_ceiling option \<Rightarrow>
     'm settled \<times> retry_ceiling option" where
  "retry_or_give_up ex iv delay attempt last_attempt failure report cl =
     (let effects = at_effects report;
          v = attempt_verdict ex (iv_node iv) (at_cancelled report) failure effects;
          give_up = (\<lambda>kind. settled_of (give_up_node ex iv failure (attempt + 1) v kind effects))
      in if \<not> v_retryable v \<or> attempt \<ge> last_attempt
         then (give_up (if v_class v = EffectCommitted then KEffectCommitted
                        else if v_retryable v then Exhausted else NonRetryable), cl)
         else
           let actual_delay = jittered_delay (ex_retry_policy ex (iv_node iv)) delay (at_scaled_delay report)
           in if past_deadline ex (at_clock report) actual_delay then (give_up Deadline, cl)
              else case take_retry cl of
                     (False, cl') \<Rightarrow> (give_up Ceiling, cl')
                   | (True, cl') \<Rightarrow> (SRetry actual_delay, cl'))"

definition settle_failed_attempt ::
    "('n, 'm) executor \<Rightarrow> 'm invocation \<Rightarrow> int \<Rightarrow> int \<Rightarrow> int \<Rightarrow> exn \<Rightarrow> bool \<Rightarrow> 'm attempt_report \<Rightarrow>
     retry_ceiling option \<Rightarrow> 'm settled \<times> retry_ceiling option" where
  "settle_failed_attempt ex iv delay attempt last_attempt failure stopped report cl =
     (let control = classify_tool_failure (at_cancelled report) (Some failure)
      in case exn_kind failure of
           XInterrupt _ _ \<Rightarrow> (SThrow failure True, cl)
         | XCancelled \<Rightarrow> (SThrow failure False, cl)
         | XBadAlloc \<Rightarrow> (SThrow failure False, cl)
         | _ \<Rightarrow>
             if exn_kind failure = XAsio OperationAborted \<and> at_cancelled report
             then (SThrow (Exn XCancelled None None) False, cl)
             else if control = THookBlocked \<or> control = TCancelled then (SThrow (run_stop failure control) False, cl)
             else if stopped \<and> uncertain_effect (at_effects report)
             then (SThrow (reconciliation_interrupt ex (attempt_effect_namespace (iv_task_id iv) attempt)) True, cl)
             else retry_or_give_up ex iv delay attempt last_attempt failure report cl)"

section \<open>The machine of an invocation\<close>

datatype 'm phase =
    Entering
  | Starting int int "(string \<times> string) option"
  | Running int int "(string \<times> string) option"
  | Recording "'m node_result"
  | Finished "exn + 'm node_result"

text \<open>
  \<open>Starting k d key\<close> and \<open>Running k d key\<close>: attempt \<open>k\<close> with the current backoff delay and the cache key to
  store a result under. \<open>br_interrupted\<close> is the attempt that was running when the node paused.
\<close>

record 'm branch =
  br_phase :: "'m phase"
  br_interrupted :: int

definition new_branch :: "'m branch" where
  "new_branch = \<lparr>br_phase = Entering, br_interrupted = 0\<rparr>"

text \<open>
  \<open>resumed_first_attempt\<close>: the attempts whose start is recorded, counted from the first. The replayed
  rows have distinct task ids, so that \<open>length replay\<close> iterations are enough (\<open>resumed_first_attempt_exact\<close>).
\<close>

fun count_started :: "(string \<times> 'm node_result) list \<Rightarrow> string \<Rightarrow> nat \<Rightarrow> int \<Rightarrow> int" where
  "count_started replay task_id 0 k = k"
| "count_started replay task_id (Suc n) k =
     (if k < int_max \<and> map_of replay (attempt_effect_namespace task_id (k + 1)) \<noteq> None
      then count_started replay task_id n (k + 1) else k)"

definition resumed_first_attempt :: "'m invocation \<Rightarrow> int" where
  "resumed_first_attempt iv = count_started (iv_replay iv) (iv_task_id iv) (length (iv_replay iv)) 0"

definition last_attempt_of :: "('n, 'm) executor \<Rightarrow> 'm invocation \<Rightarrow> int" where
  "last_attempt_of ex iv = max (ry_max_retries (ex_retry_policy ex (iv_node iv))) (resumed_first_attempt iv)"

definition first_delay :: "('n, 'm) executor \<Rightarrow> 'm invocation \<Rightarrow> int" where
  "first_delay ex iv =
     (let policy = ex_retry_policy ex (iv_node iv)
      in ((\<lambda>d. next_delay_ms d policy) ^^ nat (resumed_first_attempt iv)) (ry_initial_delay_ms policy))"

definition cache_scope_key :: "('n, 'm) executor \<Rightarrow> string \<Rightarrow> 'm node_cache \<Rightarrow> string" where
  "cache_scope_key ex node c =
     (if policy_for c node = ScopeExecution then ''execution:'' @ to_decimal (ex_cache_execution_id ex)
      else case ex_cache_context ex node of Some k \<Rightarrow> ''reusable:'' @ k | None \<Rightarrow> ''reusable'')"

text \<open>The key of the lookup, the hit and the cache after it.\<close>

definition lookup_node_cache ::
    "('n, 'm) executor \<Rightarrow> 'm invocation \<Rightarrow> 'm node_cache \<Rightarrow>
     (string \<times> string) \<times> 'm node_result option \<times> 'm node_cache" where
  "lookup_node_cache ex iv c =
     (let key = (ex_state_hash ex (iv_state iv), cache_scope_key ex (iv_node iv) c)
      in (key, cache_lookup (iv_node iv) (fst key) (snd key) c))"

definition uses_cache :: "('n, 'm) executor \<Rightarrow> 'm invocation \<Rightarrow> 'm node_cache \<Rightarrow> bool" where
  "uses_cache ex iv c \<longleftrightarrow> ex_has_cache ex \<and> is_enabled c (iv_node iv)"

fun recording :: "exn + 'm node_result \<Rightarrow> 'm phase" where
  "recording (Inl e) = Finished (Inl e)"
| "recording (Inr nr) = Recording nr"

definition enter_branch ::
    "('n, 'm) executor \<Rightarrow> 'm invocation \<Rightarrow> ('n, 'm) shared \<Rightarrow> 'm phase \<times> ('n, 'm) shared" where
  "enter_branch ex iv sh =
     (case map_of (iv_replay iv) (iv_task_id iv) of
        Some nr \<Rightarrow> (Finished (Inr nr), sh)
      | None \<Rightarrow>
          if map_of (ex_nodes ex) (iv_node iv) = None then (Finished (Inl (Exn (XRuntimeError None) None None)), sh)
          else if iv_visit_limited iv then (recording (give_up_visit_limit ex iv), sh)
          else if uses_cache ex iv (sh_cache sh)
          then (case lookup_node_cache ex iv (sh_cache sh) of
                  (key, hit, c) \<Rightarrow>
                    ((case hit of
                        Some nr \<Rightarrow> Recording nr
                      | None \<Rightarrow> Starting (resumed_first_attempt iv) (first_delay ex iv) (Some key)),
                     sh\<lparr>sh_cache := c\<rparr>))
          else (Starting (resumed_first_attempt iv) (first_delay ex iv) None, sh))"

definition record_attempt_start ::
    "('n, 'm) executor \<Rightarrow> string \<Rightarrow> string \<Rightarrow> string \<Rightarrow> int \<Rightarrow> int \<Rightarrow> ('n, 'm) shared \<Rightarrow>
     error option \<times> ('n, 'm) shared" where
  "record_attempt_start ex checkpoint_id task_id node attempt step sh =
     (if attempt \<le> 0 \<or> \<not> records_pending_writes (ex_coordinator ex) checkpoint_id then (None, sh)
      else
        let namespace = attempt_effect_namespace task_id attempt
        in case record_pending_write (ex_coordinator ex) (ex_outcome_codec ex) (ex_clock ex (sh_tick sh)) checkpoint_id
                  namespace namespace node \<lparr>nr_writes = [], nr_command = None, nr_sends = []\<rparr> step (sh_store sh) of
             (e, s) \<Rightarrow> (e, sh\<lparr>sh_store := s, sh_tick := sh_tick sh + 1\<rparr>))"

definition start_attempt ::
    "('n, 'm) executor \<Rightarrow> 'm invocation \<Rightarrow> int \<Rightarrow> int \<Rightarrow> (string \<times> string) option \<Rightarrow> ('n, 'm) shared \<Rightarrow>
     'm phase \<times> ('n, 'm) shared" where
  "start_attempt ex iv attempt delay key sh =
     (if attempt > 0 \<and> namespace_collides ex (attempt_effect_namespace (iv_task_id iv) attempt)
      then (recording (give_up_namespace_collision ex iv attempt), sh)
      else if attempt > resumed_first_attempt iv
      then (case record_attempt_start ex (iv_parent_cp_id iv) (iv_task_id iv) (iv_node iv) attempt (iv_step iv) sh of
              (Some e, sh') \<Rightarrow> (Finished (Inl (exn_of_error e)), sh')
            | (None, sh') \<Rightarrow> (Running attempt delay key, sh'))
      else (Running attempt delay key, sh))"

text \<open>
  What an attempt leaves behind: a result, a failure to settle (with whether the attempt stopped), or an
  exception that leaves the invocation at once. Only a dispatched attempt can time out.
\<close>

datatype 'm attempt_end = AResult "'m node_result" | AFailure exn bool | AThrow exn

definition run_node :: "('n, 'm) executor \<Rightarrow> 'm invocation \<Rightarrow> 'm attempt_report \<Rightarrow> 'm attempt_end" where
  "run_node ex iv report =
     (let dispatched = ex_attempt_timeout ex (iv_node iv) \<noteq> None \<or> ex_shared_scheduler ex
      in if ex_attempt_timeout ex (iv_node iv) \<noteq> None \<and> at_timed_out report
         then (if at_cancelled report then AThrow (Exn XCancelled None None)
               else AFailure (Exn (XAttemptTimeout (at_stopped report)) None None) (at_stopped report))
         else case at_outcome report of
                Some (Inr nr) \<Rightarrow> AResult nr
              | Some (Inl e) \<Rightarrow> AFailure e (\<not> dispatched \<or> at_stopped report)
              | None \<Rightarrow> AFailure (Exn XLogicError None None) (\<not> dispatched \<or> at_stopped report))"

definition finish_attempt ::
    "('n, 'm) executor \<Rightarrow> 'm invocation \<Rightarrow> int \<Rightarrow> int \<Rightarrow> (string \<times> string) option \<Rightarrow> 'm attempt_report \<Rightarrow>
     ('n, 'm) shared \<Rightarrow> 'm branch \<Rightarrow> 'm branch \<times> ('n, 'm) shared" where
  "finish_attempt ex iv attempt delay key report sh b =
     (case run_node ex iv report of
        AThrow e \<Rightarrow> (b\<lparr>br_phase := Finished (Inl e)\<rparr>, sh)
      | AResult nr \<Rightarrow>
          (b\<lparr>br_phase := Recording nr\<rparr>,
           case key of
             None \<Rightarrow> sh
           | Some (hash, scope) \<Rightarrow> sh\<lparr>sh_cache := cache_store (iv_node iv) hash scope nr (sh_cache sh)\<rparr>)
      | AFailure e stopped \<Rightarrow>
          (case settle_failed_attempt ex iv delay attempt (last_attempt_of ex iv) e stopped report (sh_ceiling sh) of
             (settled, cl) \<Rightarrow>
               (case settled of
                  SRetry _ \<Rightarrow>
                    b\<lparr>br_phase :=
                        if at_cancelled_later report then Finished (Inl (Exn XCancelled None None))
                        else Starting (attempt + 1) (next_delay_ms delay (ex_retry_policy ex (iv_node iv))) key\<rparr>
                | SHandled nr \<Rightarrow> b\<lparr>br_phase := Recording nr\<rparr>
                | SThrow x paused \<Rightarrow>
                    b\<lparr>br_phase := Finished (Inl x), br_interrupted := (if paused then attempt else br_interrupted b)\<rparr>,
                sh\<lparr>sh_ceiling := cl\<rparr>)))"

definition run_attempt ::
    "('n, 'm) executor \<Rightarrow> 'm invocation \<Rightarrow> int \<Rightarrow> int \<Rightarrow> (string \<times> string) option \<Rightarrow> ('n, 'm) shared \<Rightarrow>
     'm branch \<Rightarrow> 'm branch \<times> ('n, 'm) shared" where
  "run_attempt ex iv attempt delay key sh b =
     (case map_of (ex_nodes ex) (iv_node iv) of
        None \<Rightarrow> (b\<lparr>br_phase := Finished (Inl (Exn (XRuntimeError None) None None))\<rparr>, sh)
      | Some body \<Rightarrow>
          finish_attempt ex iv attempt delay key
            (body (iv_state iv) (attempt_effect_namespace (iv_task_id iv) attempt) (bind_resume_value ex iv)) sh b)"

definition record_result ::
    "('n, 'm) executor \<Rightarrow> 'm invocation \<Rightarrow> 'm node_result \<Rightarrow> ('n, 'm) shared \<Rightarrow> 'm phase \<times> ('n, 'm) shared" where
  "record_result ex iv nr sh =
     (if records_pending_writes (ex_coordinator ex) (iv_parent_cp_id iv)
      then (case record_pending_write (ex_coordinator ex) (ex_outcome_codec ex) (ex_clock ex (sh_tick sh))
                   (iv_parent_cp_id iv) (iv_task_id iv) (iv_task_id iv) (iv_node iv) nr (iv_step iv) (sh_store sh) of
              (e, s) \<Rightarrow>
                (Finished (case e of Some x \<Rightarrow> Inl (exn_of_error x) | None \<Rightarrow> Inr nr),
                 sh\<lparr>sh_store := s, sh_tick := sh_tick sh + 1\<rparr>))
      else (Finished (Inr nr), sh))"

definition branch_step ::
    "('n, 'm) executor \<Rightarrow> 'm invocation \<Rightarrow> 'm branch \<times> ('n, 'm) shared \<Rightarrow> 'm branch \<times> ('n, 'm) shared" where
  "branch_step ex iv bs =
     (case bs of (b, sh) \<Rightarrow>
        (case br_phase b of
           Entering \<Rightarrow> (case enter_branch ex iv sh of (p, sh') \<Rightarrow> (b\<lparr>br_phase := p\<rparr>, sh'))
         | Starting k d key \<Rightarrow> (case start_attempt ex iv k d key sh of (p, sh') \<Rightarrow> (b\<lparr>br_phase := p\<rparr>, sh'))
         | Running k d key \<Rightarrow> run_attempt ex iv k d key sh b
         | Recording nr \<Rightarrow> (case record_result ex iv nr sh of (p, sh') \<Rightarrow> (b\<lparr>br_phase := p\<rparr>, sh'))
         | Finished _ \<Rightarrow> (b, sh)))"

fun finished_branch :: "'m branch \<Rightarrow> bool" where
  "finished_branch b = (case br_phase b of Finished _ \<Rightarrow> True | _ \<Rightarrow> False)"

text \<open>The steps an invocation may still take.\<close>

definition branch_work :: "('n, 'm) executor \<Rightarrow> 'm invocation \<Rightarrow> 'm branch \<Rightarrow> nat" where
  "branch_work ex iv b =
     (case br_phase b of
        Entering \<Rightarrow> 2 * nat (last_attempt_of ex iv - resumed_first_attempt iv + 1) + 4
      | Starting k _ _ \<Rightarrow> 2 * nat (last_attempt_of ex iv - k + 1) + 3
      | Running k _ _ \<Rightarrow> 2 * nat (last_attempt_of ex iv - k + 1) + 2
      | Recording _ \<Rightarrow> 1
      | Finished _ \<Rightarrow> 0)"

lemma settled_of_not_retry [simp]: "settled_of r \<noteq> SRetry d"
  by (cases r) simp_all

lemma settle_retryD:
  assumes "settle_failed_attempt ex iv delay k la e stopped report cl = (SRetry d, cl')"
  shows "k < la" "v_retryable (attempt_verdict ex (iv_node iv) (at_cancelled report) e (at_effects report))"
    "\<not> (stopped \<and> uncertain_effect (at_effects report))"
    "\<not> past_deadline ex (at_clock report) d" "take_retry cl = (True, cl')"
    "classify_tool_failure (at_cancelled report) (Some e) \<notin> {THookBlocked, TCancelled}"
proof -
  have ctl: "classify_tool_failure (at_cancelled report) (Some e) \<notin> {THookBlocked, TCancelled}"
    and unc: "\<not> (stopped \<and> uncertain_effect (at_effects report))"
    and eq: "retry_or_give_up ex iv delay k la e report cl = (SRetry d, cl')"
    using assms by (auto simp: settle_failed_attempt_def Let_def split: exn_kind.splits if_splits)
  from eq have "k < la \<and> v_retryable (attempt_verdict ex (iv_node iv) (at_cancelled report) e (at_effects report)) \<and>
      \<not> past_deadline ex (at_clock report) d \<and> take_retry cl = (True, cl')"
    by (auto simp: retry_or_give_up_def Let_def split: if_splits prod.splits bool.splits)
  with ctl unc show "k < la" "v_retryable (attempt_verdict ex (iv_node iv) (at_cancelled report) e (at_effects report))"
    "\<not> (stopped \<and> uncertain_effect (at_effects report))"
    "\<not> past_deadline ex (at_clock report) d" "take_retry cl = (True, cl')"
    "classify_tool_failure (at_cancelled report) (Some e) \<notin> {THookBlocked, TCancelled}" by blast+
qed

text \<open>The phases one step can lead to.\<close>

lemma recording_cases: "(\<exists>r. recording x = Finished r) \<or> (\<exists>nr. recording x = Recording nr)"
  by (cases x) simp_all

lemma enter_branch_phase:
  assumes "enter_branch ex iv sh = (p, sh')"
  shows "(\<exists>r. p = Finished r) \<or> (\<exists>nr. p = Recording nr) \<or> (\<exists>d key. p = Starting (resumed_first_attempt iv) d key)"
  using assms recording_cases[of "give_up_visit_limit ex iv"]
  by (auto simp: enter_branch_def split: option.splits if_splits prod.splits)

lemma start_attempt_phase:
  assumes "start_attempt ex iv k d key sh = (p, sh')"
  shows "(\<exists>r. p = Finished r) \<or> (\<exists>nr. p = Recording nr) \<or> p = Running k d key"
  using assms recording_cases[of "give_up_namespace_collision ex iv k"]
  by (auto simp: start_attempt_def split: option.splits if_splits prod.splits)

lemma finish_attempt_phase:
  assumes "finish_attempt ex iv k d key report sh b = (b', sh')"
  shows "(\<exists>r. br_phase b' = Finished r) \<or> (\<exists>nr. br_phase b' = Recording nr) \<or>
    (k < last_attempt_of ex iv \<and> (\<exists>d'. br_phase b' = Starting (k + 1) d' key))"
proof (cases "run_node ex iv report")
  case (AFailure e stopped)
  obtain r cl where s: "settle_failed_attempt ex iv d k (last_attempt_of ex iv) e stopped report (sh_ceiling sh) = (r, cl)"
    by fastforce
  then show ?thesis using assms AFailure settle_retryD(1)[of ex iv d k "last_attempt_of ex iv" e stopped report "sh_ceiling sh"]
    by (cases r) (auto simp: finish_attempt_def split: if_splits)
qed (use assms in \<open>auto simp: finish_attempt_def\<close>)

lemma run_attempt_phase:
  assumes "run_attempt ex iv k d key sh b = (b', sh')"
  shows "(\<exists>r. br_phase b' = Finished r) \<or> (\<exists>nr. br_phase b' = Recording nr) \<or>
    (k < last_attempt_of ex iv \<and> (\<exists>d'. br_phase b' = Starting (k + 1) d' key))"
proof (cases "map_of (ex_nodes ex) (iv_node iv)")
  case None
  then show ?thesis using assms by (auto simp: run_attempt_def)
next
  case (Some body)
  then show ?thesis using assms by (simp add: run_attempt_def finish_attempt_phase)
qed

lemma record_result_phase: "record_result ex iv nr sh = (p, sh') \<Longrightarrow> \<exists>r. p = Finished r"
  by (auto simp: record_result_def split: if_splits prod.splits)

lemma branch_work_less:
  assumes "\<not> finished_branch b"
  shows "branch_work ex iv (fst (branch_step ex iv (b, sh))) < branch_work ex iv b"
proof (cases "br_phase b")
  case Entering
  obtain p sh' where "enter_branch ex iv sh = (p, sh')" by fastforce
  with enter_branch_phase[OF this] Entering show ?thesis by (auto simp: branch_step_def branch_work_def)
next
  case (Starting k d key)
  obtain p sh' where "start_attempt ex iv k d key sh = (p, sh')" by fastforce
  with start_attempt_phase[OF this] Starting show ?thesis by (auto simp: branch_step_def branch_work_def)
next
  case (Running k d key)
  obtain b' sh' where "run_attempt ex iv k d key sh b = (b', sh')" by fastforce
  with run_attempt_phase[OF this] Running show ?thesis by (auto simp: branch_step_def branch_work_def)
next
  case (Recording nr)
  obtain p sh' where "record_result ex iv nr sh = (p, sh')" by fastforce
  with record_result_phase[OF this] Recording show ?thesis by (auto simp: branch_step_def branch_work_def)
qed (use assms in simp)

function run_branch ::
    "('n, 'm) executor \<Rightarrow> 'm invocation \<Rightarrow> 'm branch \<times> ('n, 'm) shared \<Rightarrow> 'm branch \<times> ('n, 'm) shared" where
  "run_branch ex iv bs = (if finished_branch (fst bs) then bs else run_branch ex iv (branch_step ex iv bs))"
  by auto

termination
proof (relation "measure (\<lambda>(ex, iv, bs). branch_work ex iv (fst bs))")
  fix ex :: "('n, 'm) executor" and iv and bs :: "'m branch \<times> ('n, 'm) shared"
  assume "\<not> finished_branch (fst bs)"
  then show "((ex, iv, branch_step ex iv bs), ex, iv, bs) \<in> measure (\<lambda>(ex, iv, bs). branch_work ex iv (fst bs))"
    using branch_work_less[of "fst bs" ex iv "snd bs"] by simp
qed simp

declare run_branch.simps [simp del]

lemma run_branch_invariant:
  assumes "P bs" "\<And>b sh. P (b, sh) \<Longrightarrow> P (branch_step ex iv (b, sh))"
  shows "P (run_branch ex iv bs)"
  using assms
proof (induction ex iv bs rule: run_branch.induct)
  case (1 ex iv bs)
  then show ?case by (cases bs) (subst run_branch.simps, auto)
qed

lemma run_branch_finished: "finished_branch (fst (run_branch ex iv bs))"
proof (induction ex iv bs rule: run_branch.induct)
  case (1 ex iv bs)
  then show ?case by (subst run_branch.simps) simp
qed

section \<open>Attempts are bounded and retried only when that is safe\<close>

text \<open>
  The runs of one invocation while other invocations change the shared state between its steps:
  \<open>branch_reaches ex iv ks b\<close> says that the machine can be in \<open>b\<close> after the attempts \<open>ks\<close> ran, in this order.
\<close>

definition ran_attempt :: "'m branch \<Rightarrow> int list" where
  "ran_attempt b = (case br_phase b of Running k _ _ \<Rightarrow> [k] | _ \<Rightarrow> [])"

inductive branch_reaches :: "('n, 'm) executor \<Rightarrow> 'm invocation \<Rightarrow> int list \<Rightarrow> 'm branch \<Rightarrow> bool" for ex iv where
  start: "branch_reaches ex iv [] new_branch"
| step: "branch_reaches ex iv ks b \<Longrightarrow> branch_reaches ex iv (ks @ ran_attempt b) (fst (branch_step ex iv (b, sh)))"

definition attempts_inv :: "('n, 'm) executor \<Rightarrow> 'm invocation \<Rightarrow> int list \<Rightarrow> 'm branch \<Rightarrow> bool" where
  "attempts_inv ex iv ks b \<longleftrightarrow>
     (case br_phase b of
        Entering \<Rightarrow> ks = []
      | Starting k _ _ \<Rightarrow> ks = [resumed_first_attempt iv..k - 1] \<and> resumed_first_attempt iv \<le> k \<and> k \<le> last_attempt_of ex iv
      | Running k _ _ \<Rightarrow> ks = [resumed_first_attempt iv..k - 1] \<and> resumed_first_attempt iv \<le> k \<and> k \<le> last_attempt_of ex iv
      | _ \<Rightarrow> \<exists>k \<le> last_attempt_of ex iv. ks = [resumed_first_attempt iv..k])"

lemma first_le_last: "resumed_first_attempt iv \<le> last_attempt_of ex iv"
  by (simp add: last_attempt_of_def)

lemma ended_inv: "k \<le> last_attempt_of ex iv \<Longrightarrow> br_phase b' = Finished r \<or> br_phase b' = Recording nr \<Longrightarrow>
    attempts_inv ex iv [resumed_first_attempt iv..k] b'"
  by (auto simp: attempts_inv_def)

lemma no_attempt_inv: "br_phase b' = Finished r \<or> br_phase b' = Recording nr \<Longrightarrow> attempts_inv ex iv [] b'"
  using ended_inv[of "resumed_first_attempt iv - 1" ex iv b' r nr] first_le_last[of iv ex] by simp

lemma attempts_inv_step:
  assumes "attempts_inv ex iv ks b"
  shows "attempts_inv ex iv (ks @ ran_attempt b) (fst (branch_step ex iv (b, sh)))"
proof (cases "br_phase b")
  case Entering
  obtain p sh' where p: "enter_branch ex iv sh = (p, sh')" by fastforce
  have "ks = []" using assms Entering by (simp add: attempts_inv_def)
  with enter_branch_phase[OF p] p Entering first_le_last[of iv ex] show ?thesis
    by (auto simp: branch_step_def ran_attempt_def attempts_inv_def intro!: exI[of _ "resumed_first_attempt iv - 1"])
next
  case (Starting k d key)
  obtain p sh' where p: "start_attempt ex iv k d key sh = (p, sh')" by fastforce
  with start_attempt_phase[OF p] Starting assms show ?thesis
    by (auto simp: branch_step_def ran_attempt_def attempts_inv_def intro!: exI[of _ "k - 1"])
next
  case (Running k d key)
  obtain b' sh' where b': "run_attempt ex iv k d key sh b = (b', sh')" by fastforce
  have ks: "ks @ [k] = [resumed_first_attempt iv..k]" "k \<le> last_attempt_of ex iv" "resumed_first_attempt iv \<le> k"
    using assms Running upto_rec2[of "resumed_first_attempt iv" k] by (auto simp: attempts_inv_def)
  with run_attempt_phase[OF b'] b' Running show ?thesis
    by (auto simp: branch_step_def ran_attempt_def attempts_inv_def)
next
  case (Recording nr)
  obtain p sh' where p: "record_result ex iv nr sh = (p, sh')" by fastforce
  with record_result_phase[OF p] Recording assms show ?thesis
    by (auto simp: branch_step_def ran_attempt_def attempts_inv_def)
next
  case (Finished r)
  with assms show ?thesis by (simp add: branch_step_def ran_attempt_def attempts_inv_def)
qed

lemma reaches_inv: "branch_reaches ex iv ks b \<Longrightarrow> attempts_inv ex iv ks b"
  by (induction rule: branch_reaches.induct)
     (simp_all add: attempts_inv_step, simp add: attempts_inv_def new_branch_def)


lemma retryable_verdict:
  assumes "v_retryable (attempt_verdict ex node cancelled e effects)"
  shows "\<not> committed_effect effects" "v_retryable (classify_node_failure cancelled (Some e))"
    "plan_of ex node = Some plan \<Longrightarrow> v_code (classify_node_failure cancelled (Some e)) \<notin> set (fp_non_retryable plan)"
proof -
  let ?v = "classify_node_failure cancelled (Some e)"
  have low: "v_retryable ?v \<Longrightarrow> v_class ?v < EffectCommitted"
    by (auto simp: classify_node_failure_def verdict_of_def Let_def node_failure_retryable_def less_node_failure_class_def)
  have "\<not> (committed_effect effects \<and> v_class ?v < EffectCommitted)"
    using assms by (auto simp: attempt_verdict_def Let_def split: option.splits if_splits)
  moreover from this have same: "v_retryable ?v"
    "plan_of ex node = Some plan \<Longrightarrow> v_code ?v \<notin> set (fp_non_retryable plan)"
    using assms by (auto simp: attempt_verdict_def Let_def split: option.splits if_splits)
  ultimately show "\<not> committed_effect effects" using low by blast
  show "v_retryable ?v" "plan_of ex node = Some plan \<Longrightarrow> v_code ?v \<notin> set (fp_non_retryable plan)"
    using same by blast+
qed

lemma finish_attempt_retries:
  assumes "br_phase (fst (finish_attempt ex iv k d key report sh b)) = Starting k' d' key'"
  shows "\<exists>e stopped w cl. run_node ex iv report = AFailure e stopped \<and>
    settle_failed_attempt ex iv d k (last_attempt_of ex iv) e stopped report (sh_ceiling sh) = (SRetry w, cl) \<and>
    \<not> at_cancelled_later report"
proof (cases "run_node ex iv report")
  case (AFailure e stopped)
  obtain r cl where s: "settle_failed_attempt ex iv d k (last_attempt_of ex iv) e stopped report (sh_ceiling sh) = (r, cl)"
    by fastforce
  with assms AFailure have "\<exists>w. r = SRetry w" "\<not> at_cancelled_later report"
    by (cases r; auto simp: finish_attempt_def split: if_splits)+
  with s AFailure show ?thesis by blast
qed (use assms in \<open>auto simp: finish_attempt_def\<close>)

text \<open>C8: A further attempt is started only after an attempt that failed with an ordinary failure or a
timeout whose code the node's policy does not exclude, that committed no effect, that left no effect of
unknown outcome (when it stopped), while the run was neither cancelled nor past its deadline, below the
policy's last attempt and with a retry taken from the run's ceiling.\<close>

theorem retried_only_when_safe:
  assumes "br_phase b = Running k d key" and "map_of (ex_nodes ex) (iv_node iv) = Some body"
    and "br_phase (fst (branch_step ex iv (b, sh))) = Starting k' d' key'"
  defines "report \<equiv> body (iv_state iv) (attempt_effect_namespace (iv_task_id iv) k) (bind_resume_value ex iv)"
  shows "\<exists>e stopped w. run_node ex iv report = AFailure e stopped \<and> k < last_attempt_of ex iv \<and>
    v_class (classify_node_failure (at_cancelled report) (Some e)) \<in> {Ordinary, Timeout} \<and>
    \<not> committed_effect (at_effects report) \<and> \<not> (stopped \<and> uncertain_effect (at_effects report)) \<and>
    (case plan_of ex (iv_node iv) of None \<Rightarrow> True | Some plan \<Rightarrow>
       v_code (classify_node_failure (at_cancelled report) (Some e)) \<notin> set (fp_non_retryable plan)) \<and>
    \<not> past_deadline ex (at_clock report) w \<and> \<not> at_cancelled_later report \<and>
    (case sh_ceiling sh of None \<Rightarrow> True | Some c \<Rightarrow> ceil_used c < ceil_limit c)"
proof -
  have "br_phase (fst (finish_attempt ex iv k d key report sh b)) = Starting k' d' key'"
    using assms(3) by (simp add: branch_step_def assms(1,2) run_attempt_def report_def)
  then obtain e stopped w cl where r: "run_node ex iv report = AFailure e stopped" "\<not> at_cancelled_later report"
    and s: "settle_failed_attempt ex iv d k (last_attempt_of ex iv) e stopped report (sh_ceiling sh) = (SRetry w, cl)"
    using finish_attempt_retries by blast
  note d = settle_retryD[OF s]
  note v = retryable_verdict[OF d(2)]
  have cls: "v_class (classify_node_failure (at_cancelled report) (Some e)) \<in> {Ordinary, Timeout}"
    using v(2) by (auto simp: classify_node_failure_def verdict_of_def Let_def node_failure_retryable_def)
  have plan: "case plan_of ex (iv_node iv) of None \<Rightarrow> True | Some plan \<Rightarrow>
       v_code (classify_node_failure (at_cancelled report) (Some e)) \<notin> set (fp_non_retryable plan)"
    using v(3) by (simp split: option.split)
  have c: "case sh_ceiling sh of None \<Rightarrow> True | Some c \<Rightarrow> ceil_used c < ceil_limit c"
    using d(5) by (auto simp: take_retry_def try_take_def split: option.splits if_splits)
  show ?thesis using r d(1,3,4) v(1) cls plan c by blast
qed

section \<open>A finished task survives a crash\<close>

definition resumable ::
    "('n, 'm) executor \<Rightarrow> ('n, 'm) resume_context \<Rightarrow> ('n, 'm) shared \<Rightarrow> (string \<times> 'm node_result) list \<Rightarrow> bool" where
  "resumable ex ctx sh replay \<longleftrightarrow>
     load_for_resume (ex_coordinator ex) (ex_outcome_codec ex) (sh_store sh) = Some (Inr (ctx\<lparr>rc_replay_results := replay\<rparr>))"

text \<open>The invocation belongs to the step that a resume of the loaded context enters.\<close>

definition resumed_by :: "('n, 'm) executor \<Rightarrow> ('n, 'm) resume_context \<Rightarrow> 'm invocation \<Rightarrow> bool" where
  "resumed_by ex ctx iv \<longleftrightarrow>
     have_cp ctx \<and> iv_parent_cp_id iv = rc_checkpoint_id ctx \<and>
     (rc_phase ctx = NodeInterrupt \<longrightarrow> iv_step iv = rc_start_step ctx) \<and> codec_roundtrips (ex_outcome_codec ex)"

lemma empty_result_wf [simp]: "result_wf oc \<lparr>nr_writes = [], nr_command = None, nr_sends = []\<rparr>"
  by (simp add: result_wf_def)

lemma recorded_resumable:
  assumes "resumed_by ex ctx iv" "resumable ex ctx sh replay"
    and "record_pending_write (ex_coordinator ex) (ex_outcome_codec ex) now (iv_parent_cp_id iv) task path node nr (iv_step iv)
      (sh_store sh) = (None, s')"
    and "result_wf (ex_outcome_codec ex) nr"
  shows "\<exists>replay'. resumable ex ctx (sh\<lparr>sh_store := s', sh_tick := t\<rparr>) replay' \<and>
    map_of replay' = (map_of replay)(task \<mapsto> replayed_result (co_native_memory (ex_coordinator ex)) nr)"
proof -
  let ?ctx = "ctx\<lparr>rc_replay_results := replay\<rparr>"
  have "\<exists>replay'. load_for_resume (ex_coordinator ex) (ex_outcome_codec ex) s' = Some (Inr (?ctx\<lparr>rc_replay_results := replay'\<rparr>)) \<and>
    map_of replay' = (map_of (rc_replay_results ?ctx))(task \<mapsto> replayed_result (co_native_memory (ex_coordinator ex)) nr)"
    by (rule recorded_replay[OF assms(2)[unfolded resumable_def]])
       (use assms(1,3,4) in \<open>auto simp: resumed_by_def\<close>)
  then show ?thesis by (simp add: resumable_def)
qed

text \<open>What holds in each phase of an invocation whose step a resume enters.\<close>

definition durable ::
    "('n, 'm) executor \<Rightarrow> ('n, 'm) resume_context \<Rightarrow> 'm invocation \<Rightarrow> 'm branch \<times> ('n, 'm) shared \<Rightarrow> bool" where
  "durable ex ctx iv bs \<longleftrightarrow>
     (case br_phase (fst bs) of
        Finished (Inl _) \<Rightarrow> True
      | Finished (Inr nr) \<Rightarrow> result_wf (ex_outcome_codec ex) nr \<longrightarrow>
          (\<exists>replay. resumable ex ctx (snd bs) replay \<and>
             map_of replay (iv_task_id iv) = Some (replayed_result (co_native_memory (ex_coordinator ex)) nr))
      | _ \<Rightarrow> \<exists>replay. resumable ex ctx (snd bs) replay)"

lemma resumable_cong: "sh_store sh' = sh_store sh \<Longrightarrow> resumable ex ctx sh' replay = resumable ex ctx sh replay"
  by (simp add: resumable_def)

lemma records_parent:
  assumes "resumed_by ex ctx iv" "resumable ex ctx sh replay"
  shows "records_pending_writes (ex_coordinator ex) (iv_parent_cp_id iv)"
  using loaded_checkpoint[OF assms(2)[unfolded resumable_def]] assms(1) by (simp add: resumed_by_def)

lemma durable_ended: "br_phase b = Finished (Inl e) \<Longrightarrow> durable ex ctx iv (b, sh)"
  by (simp add: durable_def)

lemma durable_open:
  assumes "resumable ex ctx sh replay" "br_phase b \<noteq> Finished (Inr nr)" "\<And>nr. br_phase b \<noteq> Finished (Inr nr)"
  shows "durable ex ctx iv (b, sh)"
  using assms by (auto simp: durable_def split: phase.splits sum.splits)

lemma recording_open: "recording x \<noteq> Finished (Inr nr)"
  by (cases x) simp_all

lemma enter_branch_store:
  assumes "enter_branch ex iv sh = (p, sh')" "map_of (iv_replay iv) (iv_task_id iv) = None"
  shows "sh_store sh' = sh_store sh" "p \<noteq> Finished (Inr nr)"
  using assms recording_open by (auto simp: enter_branch_def split: option.splits if_splits prod.splits)

lemma finish_attempt_store:
  assumes "finish_attempt ex iv k d key report sh b = (b', sh')"
  shows "sh_store sh' = sh_store sh" "br_phase b' \<noteq> Finished (Inr nr)"
  using assms by (auto simp: finish_attempt_def split: attempt_end.splits option.splits prod.splits settled.splits if_splits)

lemma run_attempt_store:
  assumes "run_attempt ex iv k d key sh b = (b', sh')"
  shows "sh_store sh' = sh_store sh" "br_phase b' \<noteq> Finished (Inr nr)"
  using assms finish_attempt_store[of ex iv k d key _ sh b b' sh'] by (auto simp: run_attempt_def split: option.splits)

lemma start_attempt_resumable:
  assumes "start_attempt ex iv k d key sh = (p, sh')" "resumed_by ex ctx iv" "resumable ex ctx sh replay"
  shows "(\<exists>e. p = Finished (Inl e)) \<or> (\<exists>replay'. resumable ex ctx sh' replay') \<and> (\<forall>nr. p \<noteq> Finished (Inr nr))"
proof -
  let ?ns = "attempt_effect_namespace (iv_task_id iv) k"
  consider (collision) "k > 0 \<and> namespace_collides ex ?ns"
    | (later) "\<not> (k > 0 \<and> namespace_collides ex ?ns)" "k > resumed_first_attempt iv"
    | (first) "\<not> (k > 0 \<and> namespace_collides ex ?ns)" "\<not> k > resumed_first_attempt iv" by blast
  then show ?thesis
  proof cases
    case collision
    then show ?thesis using assms(1,3) recording_open by (auto simp: start_attempt_def)
  next
    case first
    then show ?thesis using assms(1,3) by (auto simp: start_attempt_def)
  next
    case later
    obtain e sh1 where r: "record_attempt_start ex (iv_parent_cp_id iv) (iv_task_id iv) (iv_node iv) k (iv_step iv) sh = (e, sh1)"
      by fastforce
    show ?thesis
    proof (cases e)
      case (Some x)
      then show ?thesis using assms(1) later r by (auto simp: start_attempt_def)
    next
      case None
      have "\<exists>replay'. resumable ex ctx sh1 replay'"
      proof (cases "k \<le> 0")
        case True
        then show ?thesis using r assms(3) by (auto simp: record_attempt_start_def)
      next
        case False
        obtain o1 s1 where w: "record_pending_write (ex_coordinator ex) (ex_outcome_codec ex) (ex_clock ex (sh_tick sh)) (iv_parent_cp_id iv)
            ?ns ?ns (iv_node iv) \<lparr>nr_writes = [], nr_command = None, nr_sends = []\<rparr> (iv_step iv) (sh_store sh) = (o1, s1)"
          by fastforce
        with r False None records_parent[OF assms(2,3)] have "o1 = None" "sh1 = sh\<lparr>sh_store := s1, sh_tick := sh_tick sh + 1\<rparr>"
          by (auto simp: record_attempt_start_def Let_def)
        with recorded_resumable[OF assms(2,3)] w show ?thesis using empty_result_wf by blast
      qed
      then show ?thesis using assms(1) later r None by (auto simp: start_attempt_def)
    qed
  qed
qed

lemma durable_step:
  assumes "resumed_by ex ctx iv" "map_of (iv_replay iv) (iv_task_id iv) = None" "durable ex ctx iv (b, sh)"
  shows "durable ex ctx iv (branch_step ex iv (b, sh))"
proof (cases "br_phase b")
  case Entering
  then obtain replay where r: "resumable ex ctx sh replay" using assms(3) by (auto simp: durable_def)
  obtain p sh' where p: "enter_branch ex iv sh = (p, sh')" by fastforce
  have "resumable ex ctx sh' replay" using r enter_branch_store(1)[OF p assms(2)] resumable_cong by blast
  then show ?thesis using enter_branch_store(2)[OF p assms(2)] p Entering
    by (simp add: branch_step_def durable_open)
next
  case (Starting k d key)
  then obtain replay where r: "resumable ex ctx sh replay" using assms(3) by (auto simp: durable_def)
  obtain p sh' where p: "start_attempt ex iv k d key sh = (p, sh')" by fastforce
  from start_attempt_resumable[OF p assms(1) r] show ?thesis using p Starting
    by (auto simp: branch_step_def intro: durable_open durable_ended)
next
  case (Running k d key)
  then obtain replay where r: "resumable ex ctx sh replay" using assms(3) by (auto simp: durable_def)
  obtain b' sh' where b': "run_attempt ex iv k d key sh b = (b', sh')" by fastforce
  have "resumable ex ctx sh' replay" using r run_attempt_store(1)[OF b'] resumable_cong by blast
  then show ?thesis using run_attempt_store(2)[OF b'] b' Running
    by (simp add: branch_step_def durable_open)
next
  case (Recording nr)
  then obtain replay where r: "resumable ex ctx sh replay" using assms(3) by (auto simp: durable_def)
  obtain o1 s1 where w: "record_pending_write (ex_coordinator ex) (ex_outcome_codec ex) (ex_clock ex (sh_tick sh))
      (iv_parent_cp_id iv) (iv_task_id iv) (iv_task_id iv) (iv_node iv) nr (iv_step iv) (sh_store sh) = (o1, s1)"
    by fastforce
  have step: "branch_step ex iv (b, sh) =
      (b\<lparr>br_phase := Finished (case o1 of Some x \<Rightarrow> Inl (exn_of_error x) | None \<Rightarrow> Inr nr)\<rparr>,
       sh\<lparr>sh_store := s1, sh_tick := sh_tick sh + 1\<rparr>)"
    using records_parent[OF assms(1) r] Recording w by (simp add: branch_step_def record_result_def)
  show ?thesis
  proof (cases o1)
    case None
    show ?thesis unfolding step
      using recorded_resumable[OF assms(1) r w[unfolded None], of "sh_tick sh + 1"] None
      by (fastforce simp: durable_def)
  qed (simp add: step durable_ended)
next
  case (Finished r)
  then show ?thesis using assms(3) by (simp add: branch_step_def)
qed

lemma durable_run:
  assumes "resumed_by ex ctx iv" "map_of (iv_replay iv) (iv_task_id iv) = None" "durable ex ctx iv bs"
  shows "durable ex ctx iv (run_branch ex iv bs)"
  by (rule run_branch_invariant[where P = "durable ex ctx iv"]) (use assms durable_step in blast)+

lemma replayed_branch:
  assumes "map_of (iv_replay iv) (iv_task_id iv) = Some nr"
  shows "run_branch ex iv (new_branch, sh) = (new_branch\<lparr>br_phase := Finished (Inr nr)\<rparr>, sh)"
proof -
  have "branch_step ex iv (new_branch, sh) = (new_branch\<lparr>br_phase := Finished (Inr nr)\<rparr>, sh)"
    by (simp add: new_branch_def branch_step_def enter_branch_def assms)
  then show ?thesis
    using run_branch.simps[of ex iv "(new_branch, sh)"]
      run_branch.simps[of ex iv "(new_branch\<lparr>br_phase := Finished (Inr nr)\<rparr>, sh)"]
    by (simp add: new_branch_def)
qed

text \<open>C3: Once an invocation returns a result under the checkpoint a thread resumes from, the result is
recorded: loading the thread again gives the same context with the result among the ones to replay,
and an invocation of the task with that replay returns it in any process, whatever its node code,
cache and store, without running an attempt and without touching the shared state.\<close>

theorem finished_task_survives_crash:
  assumes "load_for_resume (ex_coordinator ex) (ex_outcome_codec ex) (sh_store sh) = Some (Inr ctx)"
    and "resumed_by ex ctx iv" and "map_of (iv_replay iv) (iv_task_id iv) = None"
    and "run_branch ex iv (new_branch, sh) = (b, sh')" and "br_phase b = Finished (Inr nr)"
    and "result_wf (ex_outcome_codec ex) nr"
  shows "\<exists>replay. load_for_resume (ex_coordinator ex) (ex_outcome_codec ex) (sh_store sh') =
        Some (Inr (ctx\<lparr>rc_replay_results := replay\<rparr>)) \<and>
      (\<forall>ex' iv' sh''. iv_replay iv' = replay \<and> iv_task_id iv' = iv_task_id iv \<longrightarrow>
         run_branch ex' iv' (new_branch, sh'') =
           (new_branch\<lparr>br_phase := Finished (Inr (replayed_result (co_native_memory (ex_coordinator ex)) nr))\<rparr>, sh''))"
proof -
  have "resumable ex ctx sh (rc_replay_results ctx)" using assms(1) by (simp add: resumable_def)
  then have "durable ex ctx iv (new_branch, sh)" by (auto simp: durable_def new_branch_def)
  then have "durable ex ctx iv (b, sh')" using durable_run[OF assms(2,3)] assms(4) by metis
  then obtain replay where "resumable ex ctx sh' replay"
    "map_of replay (iv_task_id iv) = Some (replayed_result (co_native_memory (ex_coordinator ex)) nr)"
    using assms(5,6) by (auto simp: durable_def)
  then show ?thesis by (intro exI[of _ replay]) (auto simp: resumable_def intro: replayed_branch)
qed

section \<open>The attempt a resume continues\<close>

abbreviation started :: "(string \<times> 'm node_result) list \<Rightarrow> string \<Rightarrow> int \<Rightarrow> bool" where
  "started replay task_id k \<equiv> map_of replay (attempt_effect_namespace task_id k) \<noteq> None"

lemma namespace_inj: "0 < i \<Longrightarrow> 0 < j \<Longrightarrow> attempt_effect_namespace t i = attempt_effect_namespace t j \<longleftrightarrow> i = j"
  by (auto simp: attempt_effect_namespace_def int_to_string_def)

lemma count_started_range:
  assumes "0 \<le> k" "\<forall>j. 0 < j \<and> j \<le> k \<longrightarrow> started replay t j"
  shows "k \<le> count_started replay t n k" "count_started replay t n k \<le> k + int n"
    "\<forall>j. 0 < j \<and> j \<le> count_started replay t n k \<longrightarrow> started replay t j"
    "count_started replay t n k = k + int n \<or> count_started replay t n k \<ge> int_max \<or>
     \<not> started replay t (count_started replay t n k + 1)"
proof -
  have "k \<le> count_started replay t n k \<and> count_started replay t n k \<le> k + int n \<and>
    (\<forall>j. 0 < j \<and> j \<le> count_started replay t n k \<longrightarrow> started replay t j) \<and>
    (count_started replay t n k = k + int n \<or> count_started replay t n k \<ge> int_max \<or>
     \<not> started replay t (count_started replay t n k + 1))"
    using assms
  proof (induction n arbitrary: k)
    case (Suc n)
    show ?case
    proof (cases "k < int_max \<and> started replay t (k + 1)")
      case True
      have "\<forall>j. 0 < j \<and> j \<le> k + 1 \<longrightarrow> started replay t j"
        using True Suc.prems(2) by (metis add1_zle_eq order_le_less zle_add1_eq_le)
      with Suc.IH[of "k + 1"] Suc.prems(1) True show ?thesis by auto
    next
      case False
      with Suc.prems show ?thesis by auto
    qed
  qed auto
  then show "k \<le> count_started replay t n k" "count_started replay t n k \<le> k + int n"
    "\<forall>j. 0 < j \<and> j \<le> count_started replay t n k \<longrightarrow> started replay t j"
    "count_started replay t n k = k + int n \<or> count_started replay t n k \<ge> int_max \<or>
     \<not> started replay t (count_started replay t n k + 1)" by blast+
qed

lemma started_bound:
  assumes "\<forall>j. 0 < j \<and> j \<le> int n \<longrightarrow> started replay t j"
  shows "n \<le> length replay"
proof -
  have "inj_on (attempt_effect_namespace t) {1..int n}" by (auto simp: inj_on_def namespace_inj)
  then have "n = card (attempt_effect_namespace t ` {1..int n})" by (simp add: card_image)
  also have "\<dots> \<le> card (fst ` set replay)"
    by (rule card_mono) (use assms in \<open>auto simp: map_of_eq_None_iff\<close>)
  also have "\<dots> \<le> length replay"
    by (rule order_trans[OF card_image_le card_length]) simp
  finally show ?thesis .
qed

text \<open>The attempt of a resumed invocation is the last of the recorded starts counted from the first one.\<close>

lemma resumed_first_attempt_exact:
  "0 \<le> resumed_first_attempt iv"
  "0 < j \<Longrightarrow> j \<le> resumed_first_attempt iv \<Longrightarrow> started (iv_replay iv) (iv_task_id iv) j"
  "resumed_first_attempt iv < int_max \<Longrightarrow> \<not> started (iv_replay iv) (iv_task_id iv) (resumed_first_attempt iv + 1)"
proof -
  let ?r = "iv_replay iv" and ?t = "iv_task_id iv" and ?k = "resumed_first_attempt iv"
  have none: "\<forall>j. 0 < j \<and> j \<le> 0 \<longrightarrow> started ?r ?t j" by auto
  note range = count_started_range[OF order_refl none, of "length ?r", folded resumed_first_attempt_def]
  have all: "\<forall>j. 0 < j \<and> j \<le> ?k \<longrightarrow> started ?r ?t j" using range(3) by simp
  show "0 \<le> ?k" using range(1) by simp
  show "0 < j \<Longrightarrow> j \<le> ?k \<Longrightarrow> started ?r ?t j" using all by blast
  show "\<not> started ?r ?t (?k + 1)" if "?k < int_max"
  proof
    assume s: "started ?r ?t (?k + 1)"
    then have k: "?k = int (length ?r)" using range(4) that by simp
    have "started ?r ?t j" if "0 < j" "j \<le> int (Suc (length ?r))" for j
    proof (cases "j \<le> ?k")
      case True
      then show ?thesis using all that(1) by blast
    next
      case False
      then have "j = ?k + 1" using that(2) k by simp
      with s show ?thesis by simp
    qed
    then have "Suc (length ?r) \<le> length ?r" by (intro started_bound[of "Suc (length ?r)" ?r ?t]) blast
    then show False by simp
  qed
qed

section \<open>An example\<close>

text \<open>A node that fails at its first attempt and then writes a channel, and a node that always writes it.\<close>

definition failing_report :: "unit attempt_report" where
  "failing_report = \<lparr>at_outcome = Some (Inl (Exn (XRuntimeError None) None None)), at_timed_out = False, at_stopped = True,
     at_effects = Some empty_effect_log, at_cancelled = False, at_cancelled_later = False, at_clock = 0, at_scaled_delay = 0\<rparr>"

definition bump_result :: "unit node_result" where
  "bump_result = \<lparr>nr_writes = [bump], nr_command = None, nr_sends = []\<rparr>"

definition flaky_body :: "unit node_body" where
  "flaky_body st namespace answer =
     (if namespace = ''s0:act'' then failing_report else failing_report\<lparr>at_outcome := Some (Inr bump_result)\<rparr>)"

definition steady_body :: "unit node_body" where
  "steady_body st namespace answer = failing_report\<lparr>at_outcome := Some (Inr bump_result)\<rparr>"

definition doubling_policy :: retry_policy where
  "doubling_policy = \<lparr>ry_max_retries = 2, ry_initial_delay_ms = 100, ry_product = (\<lambda>d. Finite (rat_of_int (2 * d))),
     ry_max_delay_ms = 150, ry_jitter = False\<rparr>"

definition refusing_codec :: "unit outcome_codec" where
  "refusing_codec = \<lparr>oc_observe = (\<lambda>_. JNull), oc_encode = (\<lambda>_ _. raise_error RuntimeError []),
     oc_decode = (\<lambda>_ _. raise_error RuntimeError []), oc_dump = (\<lambda>_. [])\<rparr>"

definition flaky_executor :: "(unit, unit) executor" where
  "flaky_executor = \<lparr>ex_engine = counter_engine, ex_nodes = [(''act'', flaky_body), (''b'', steady_body)],
     ex_routing = None, ex_redactor = None,
     ex_retry_policy = (\<lambda>_. doubling_policy), ex_attempt_timeout = (\<lambda>_. None), ex_shared_scheduler = False,
     ex_has_cache = False, ex_state_hash = (\<lambda>_. []), ex_cache_context = (\<lambda>_. None), ex_cache_execution_id = 0,
     ex_deadline = None, ex_thread_id = ''t'', ex_coordinator = counter_coordinator, ex_outcome_codec = refusing_codec,
     ex_clock = (\<lambda>n. int n), ex_new_id = (\<lambda>n. ''id'' @ to_decimal n), ex_dump = (\<lambda>_. []), ex_answers = [],
     ex_answered_step = 0, ex_answered_interrupt = [], ex_runtime_part = (\<lambda>_. []), ex_runtime_histories = (\<lambda>_ st. Inr st)\<rparr>"

definition act_invocation :: "unit invocation" where
  "act_invocation = \<lparr>iv_node = ''act'', iv_task_id = ''s0:act'', iv_step = 0, iv_replay = [], iv_parent_cp_id = ''c1'',
     iv_visit_limited = False, iv_state = counter_state (JUint 0) 0\<rparr>"

definition act_shared :: "(unit, unit) shared" where
  "act_shared = \<lparr>sh_store = snd (save_checkpoint (paused_checkpoint ''c1'' [] Before) empty_store),
     sh_cache = new_cache, sh_ceiling = None, sh_tick = 0\<rparr>"

lemma act_steps:
  "branch_step flaky_executor act_invocation (new_branch, act_shared) =
     (\<lparr>br_phase = Starting 0 100 None, br_interrupted = 0\<rparr>, act_shared)"
  "branch_step flaky_executor act_invocation (\<lparr>br_phase = Starting 0 100 None, br_interrupted = 0\<rparr>, act_shared) =
     (\<lparr>br_phase = Running 0 100 None, br_interrupted = 0\<rparr>, act_shared)"
  "fst (branch_step flaky_executor act_invocation (\<lparr>br_phase = Running 0 100 None, br_interrupted = 0\<rparr>, act_shared)) =
     \<lparr>br_phase = Starting 1 150 None, br_interrupted = 0\<rparr>"
  "fst (branch_step flaky_executor act_invocation (\<lparr>br_phase = Starting 1 150 None, br_interrupted = 0\<rparr>, act_shared)) =
     \<lparr>br_phase = Running 1 150 None, br_interrupted = 0\<rparr>"
  "fst (branch_step flaky_executor act_invocation (\<lparr>br_phase = Running 1 150 None, br_interrupted = 0\<rparr>, act_shared)) =
     \<lparr>br_phase = Recording bump_result, br_interrupted = 0\<rparr>"
  by code_simp+

lemma act_reaches:
  "branch_reaches flaky_executor act_invocation [0, 1] \<lparr>br_phase = Recording bump_result, br_interrupted = 0\<rparr>"
proof -
  have ran: "ran_attempt new_branch = []" "ran_attempt \<lparr>br_phase = Starting k d key, br_interrupted = 0\<rparr> = []"
    "ran_attempt \<lparr>br_phase = Running k d key, br_interrupted = 0\<rparr> = [k]" for k d key
    by (simp_all add: ran_attempt_def new_branch_def)
  let ?reach = "branch_reaches flaky_executor act_invocation"
  have next_reach: "?reach (ks @ ran_attempt b) b'"
    if "?reach ks b" "fst (branch_step flaky_executor act_invocation (b, act_shared)) = b'" for ks b b'
    using branch_reaches.step[OF that(1), of act_shared] that(2) by simp
  have "?reach [] \<lparr>br_phase = Starting 0 100 None, br_interrupted = 0\<rparr>"
    using next_reach[OF branch_reaches.start] by (simp only: act_steps ran append.simps fst_conv)
  then have "?reach [] \<lparr>br_phase = Running 0 100 None, br_interrupted = 0\<rparr>"
    using next_reach by (fastforce simp only: act_steps ran append.simps fst_conv)
  then have "?reach [0] \<lparr>br_phase = Starting 1 150 None, br_interrupted = 0\<rparr>"
    using next_reach[OF _ act_steps(3)] by (fastforce simp only: ran append.simps)
  then have "?reach [0] \<lparr>br_phase = Running 1 150 None, br_interrupted = 0\<rparr>"
    using next_reach[OF _ act_steps(4)] by (fastforce simp only: ran append_Nil2)
  then show ?thesis using next_reach[OF _ act_steps(5)] by (fastforce simp only: ran append.simps)
qed


theorem retried_only_when_safe_witness:
  "\<exists>e stopped w. run_node flaky_executor act_invocation failing_report = AFailure e stopped \<and>
     0 < last_attempt_of flaky_executor act_invocation \<and> \<not> committed_effect (at_effects failing_report) \<and>
     \<not> past_deadline flaky_executor (at_clock failing_report) w"
proof -
  let ?b = "\<lparr>br_phase = Running 0 100 None, br_interrupted = 0\<rparr>"
  have node: "map_of (ex_nodes flaky_executor) (iv_node act_invocation) = Some flaky_body"
    by (simp add: flaky_executor_def act_invocation_def)
  have report: "flaky_body (iv_state act_invocation) (attempt_effect_namespace (iv_task_id act_invocation) 0)
      (bind_resume_value flaky_executor act_invocation) = failing_report"
    by (simp add: flaky_body_def act_invocation_def attempt_effect_namespace_def)
  have phase: "br_phase ?b = Running 0 100 None" by simp
  have nxt: "br_phase (fst (branch_step flaky_executor act_invocation (?b, act_shared))) = Starting 1 150 None"
    by (simp add: act_steps)
  from retried_only_when_safe[OF phase node nxt, unfolded report] show ?thesis by blast
qed

lemma act_loads:
  "case load_for_resume counter_coordinator refusing_codec (sh_store act_shared) of
     Some (Inr c) \<Rightarrow> have_cp c \<and> rc_checkpoint_id c = ''c1'' \<and> rc_phase c = Before | _ \<Rightarrow> False"
  by code_simp

lemma act_finishes:
  "br_phase (fst (run_branch flaky_executor act_invocation (new_branch, act_shared))) = Finished (Inr bump_result)"
  by code_simp

lemma flaky_fields:
  "ex_coordinator flaky_executor = counter_coordinator" "ex_outcome_codec flaky_executor = refusing_codec"
  "co_native_memory counter_coordinator = False" "iv_replay act_invocation = []" "iv_task_id act_invocation = ''s0:act''"
  by (simp_all add: flaky_executor_def counter_coordinator_def act_invocation_def)

theorem finished_task_survives_crash_witness:
  "\<exists>ctx replay b sh'. run_branch flaky_executor act_invocation (new_branch, act_shared) = (b, sh') \<and>
     load_for_resume counter_coordinator refusing_codec (sh_store sh') = Some (Inr (ctx\<lparr>rc_replay_results := replay\<rparr>)) \<and>
     fst (run_branch flaky_executor (act_invocation\<lparr>iv_replay := replay\<rparr>) (new_branch, sh')) =
       new_branch\<lparr>br_phase := Finished (Inr bump_result)\<rparr>"
proof -
  obtain ctx where ctx: "load_for_resume counter_coordinator refusing_codec (sh_store act_shared) = Some (Inr ctx)"
    "have_cp ctx" "rc_checkpoint_id ctx = ''c1''" "rc_phase ctx = Before"
    using act_loads by (auto split: option.split_asm sum.split_asm)
  obtain b sh' where run: "run_branch flaky_executor act_invocation (new_branch, act_shared) = (b, sh')" by fastforce
  have fin: "br_phase b = Finished (Inr bump_result)" using act_finishes by (simp add: run)
  have res: "resumed_by flaky_executor ctx act_invocation"
    using ctx by (simp add: resumed_by_def flaky_fields codec_roundtrips_def refusing_codec_def act_invocation_def)
  have wf: "result_wf (ex_outcome_codec flaky_executor) bump_result"
    by (simp add: result_wf_def bump_result_def write_wf_def bump_def)
  have plain: "replayed_result False bump_result = bump_result" by (simp add: replayed_result_def bump_result_def)
  from finished_task_survives_crash[OF _ res _ run fin wf] ctx(1) obtain replay where replay:
    "load_for_resume counter_coordinator refusing_codec (sh_store sh') = Some (Inr (ctx\<lparr>rc_replay_results := replay\<rparr>))"
    "\<forall>iv' sh''. iv_replay iv' = replay \<and> iv_task_id iv' = ''s0:act'' \<longrightarrow>
       run_branch flaky_executor iv' (new_branch, sh'') = (new_branch\<lparr>br_phase := Finished (Inr bump_result)\<rparr>, sh'')"
    by (auto simp: flaky_fields plain)
  with run show ?thesis
    by (intro exI[of _ ctx] exI[of _ replay] exI[of _ b] exI[of _ sh']) (simp add: flaky_fields)
qed

end
