(* ===== verification/NG_SuperStep.thy ===== *)
theory NG_SuperStep
  imports NG_Attempts NG_Scheduler
begin

text \<open>
  The execution of one super-step (\<open>NodeExecutor\<close> in \<open>src/src/core/graph_executor.cpp\<close>): a single ready
  node (\<open>run_one_async\<close>), a fan-out of ready nodes (\<open>run_parallel_async\<close>) and the dynamic fan-out of sends
  (\<open>run_sends_impl_async\<close>), with the checkpoints a pause saves and the metadata they carry
  (\<open>src/src/core/run_context_runtime.cpp\<close>).

  The branches of a fan-out run concurrently. A schedule is a list of branch indices: each entry lets that
  branch take its next step, and branches that have not finished when the schedule is used up run to
  their end in order, so that every interleaving is some schedule. Graphs with stateful subgraphs, whose
  checkpoints also carry an invocation id and a write journal, are not modelled.
\<close>

section \<open>The state of a running step\<close>

record pending_interrupt =
  pi_id :: string
  pi_node :: string
  pi_value :: json

record ('n, 'm) step_state =
  st_state :: "'m graph_state"
  st_shared :: "('n, 'm) shared"
  st_failure :: "failure_run_state option"
  st_trace :: "string list"
  st_start :: "json option"
  st_interrupts :: "pending_interrupt list"
  st_interrupt_cp :: string
  st_barrier_stall :: "json option"
  st_failure_exit :: "json option"

definition failure_routes :: "('n, 'm) executor \<Rightarrow> bool" where
  "failure_routes ex \<longleftrightarrow> (case ex_routing ex of None \<Rightarrow> False | Some r \<Rightarrow> routes r)"

definition apply_node_result :: "('n, 'm) executor \<Rightarrow> 'm node_result \<Rightarrow> 'm graph_state \<Rightarrow> error option \<times> 'm graph_state" where
  "apply_node_result ex nr st =
     (case apply_writes (en_codec (ex_engine ex)) (if failure_routes ex then state_writes (nr_writes nr) else nr_writes nr) st of
        (Some e, st') \<Rightarrow> (Some e, st')
      | (None, st') \<Rightarrow>
          (case nr_command nr of
             None \<Rightarrow> (None, st')
           | Some c \<Rightarrow> apply_writes (en_codec (ex_engine ex)) (updates c) st'))"

text \<open>\<open>take_activation\<close>: counts an activation; \<open>False\<close> when the node is past its visit limit.\<close>

definition take_activation ::
    "('n, 'm) executor \<Rightarrow> string \<Rightarrow> failure_run_state option \<Rightarrow> bool \<times> failure_run_state option" where
  "take_activation ex node fs =
     (case ex_routing ex of
        None \<Rightarrow> (True, fs)
      | Some r \<Rightarrow>
          (case visit_limit r node of
             None \<Rightarrow> (True, fs)
           | Some _ \<Rightarrow>
               (case fs of None \<Rightarrow> (True, None) | Some f \<Rightarrow> (case activate r node f of (ok, f') \<Rightarrow> (ok, Some f')))))"

text \<open>The activations of a dispatch, in order: which of them are past their limit.\<close>

fun take_activations ::
    "('n, 'm) executor \<Rightarrow> string list \<Rightarrow> failure_run_state option \<Rightarrow> bool list \<times> failure_run_state option" where
  "take_activations ex [] fs = ([], fs)"
| "take_activations ex (n # ns) fs =
     (case take_activation ex n fs of
        (ok, fs1) \<Rightarrow> (case take_activations ex ns fs1 of (limited, fs2) \<Rightarrow> ((\<not> ok) # limited, fs2)))"

definition runtime_snapshot :: "('n, 'm) executor \<Rightarrow> 'm graph_state \<Rightarrow> json" where
  "runtime_snapshot ex st =
     (case channel_snapshot st False of JObject m \<Rightarrow> JObject (m @ ex_runtime_part ex st) | j \<Rightarrow> j)"

text \<open>A state of its own, restored from a runtime snapshot of \<open>st\<close>.\<close>

definition restored_copy :: "('n, 'm) executor \<Rightarrow> json \<Rightarrow> 'm graph_state \<Rightarrow> error + 'm graph_state" where
  "restored_copy ex snapshot st =
     bind_result (init_state (ex_engine ex)) (\<lambda>st0.
       restore_runtime (en_trunc (ex_engine ex)) (ex_runtime_histories ex) snapshot
         (st0\<lparr>provider_histories := provider_histories st\<rparr>))"

definition capture_step_start :: "('n, 'm) executor \<Rightarrow> bool \<Rightarrow> ('n, 'm) step_state \<Rightarrow> ('n, 'm) step_state" where
  "capture_step_start ex has_sends rs =
     (if \<not> has_sends \<or> \<not> co_enabled (ex_coordinator ex) \<or> st_start rs \<noteq> None then rs
      else rs\<lparr>st_start := Some (runtime_snapshot ex (st_state rs))\<rparr>)"

section \<open>Checkpoint metadata\<close>

datatype checkpoint_timing = DuringStep | BetweenSteps

definition set_owned :: "string \<Rightarrow> json \<Rightarrow> json \<Rightarrow> json" where
  "set_owned key v metadata = json_set ''_neograph'' (json_set key v (json_get metadata ''_neograph'')) metadata"

definition set_owned_option :: "string \<Rightarrow> json option \<Rightarrow> json \<Rightarrow> json" where
  "set_owned_option key v metadata = (case v of None \<Rightarrow> metadata | Some j \<Rightarrow> set_owned key j metadata)"

definition without_node_visits :: "json \<Rightarrow> json" where
  "without_node_visits metadata =
     (let owned = filter (\<lambda>p. fst p \<noteq> ''node_visits'') (json_items (json_get metadata ''_neograph''))
      in JObject (concat (map (\<lambda>(key, v).
           if key \<noteq> ''_neograph'' then [(key, v)] else if owned \<noteq> [] then [(key, JObject owned)] else [])
           (json_items metadata))))"

definition put_visits :: "json \<Rightarrow> json \<Rightarrow> json" where
  "put_visits counts metadata = (if is_null counts then metadata else set_owned ''node_visits'' counts metadata)"

definition checkpoint_metadata_for :: "('n, 'm) executor \<Rightarrow> checkpoint_timing \<Rightarrow> ('n, 'm) step_state \<Rightarrow> json" where
  "checkpoint_metadata_for ex timing rs =
     (if \<not> co_has_store (ex_coordinator ex) then JNull
      else
        let metadata = (case st_failure rs of None \<Rightarrow> JNull | Some f \<Rightarrow> put_visits (step_start_visits f) JNull);
            metadata = set_owned_option ''failure_exit'' (st_failure_exit rs)
                         (set_owned_option ''barrier_stalled'' (st_barrier_stall rs) metadata)
        in case st_failure rs of
             None \<Rightarrow> metadata
           | Some f \<Rightarrow>
               if timing = DuringStep then metadata
               else if \<not> is_null (visits_json f) then put_visits (visits_json f) metadata
               else if is_object metadata \<and> json_contains metadata ''_neograph'' \<and>
                       is_object (json_get metadata ''_neograph'') \<and>
                       json_contains (json_get metadata ''_neograph'') ''node_visits''
               then without_node_visits metadata
               else metadata)"

definition interrupt_value_of :: "exn \<Rightarrow> json" where
  "interrupt_value_of e =
     (case exn_kind e of
        XInterrupt reason v \<Rightarrow>
          (let j = JObject [(''reason'', JString reason), (''type'', JString ''NodeInterrupt'')]
           in if is_null v then j else json_set ''value'' v j)
      | _ \<Rightarrow> JNull)"

definition with_pending_interrupts :: "json \<Rightarrow> pending_interrupt list \<Rightarrow> bool \<Rightarrow> json" where
  "with_pending_interrupts metadata interrupts listed =
     (if interrupts = [] \<or> (length interrupts < 2 \<and> \<not> listed) then metadata
      else set_owned ''interrupts''
             (JArray (map (\<lambda>i. JObject [(''id'', JString (pi_id i)), (''node'', JString (pi_node i)),
                                      (''interrupt_value'', pi_value i)]) interrupts))
             (if is_null metadata then JObject [] else metadata))"

definition record_step_interrupts ::
    "('n, 'm) executor \<Rightarrow> pending_interrupt list \<Rightarrow> bool \<Rightarrow> ('n, 'm) step_state \<Rightarrow> json \<times> ('n, 'm) step_state" where
  "record_step_interrupts ex interrupts listed rs =
     (with_pending_interrupts (checkpoint_metadata_for ex DuringStep rs) interrupts listed,
      rs\<lparr>st_interrupts := interrupts, st_interrupt_cp := []\<rparr>)"

definition is_interrupt :: "exn \<Rightarrow> bool" where
  "is_interrupt e \<longleftrightarrow> (case exn_kind e of XInterrupt _ _ \<Rightarrow> True | _ \<Rightarrow> False)"

text \<open>Saving a boundary of a running step: the id, and the state with the new store.\<close>

definition save_step ::
    "('n, 'm) executor \<Rightarrow> 'm graph_state \<Rightarrow> checkpoint_phase \<Rightarrow> step_boundary \<Rightarrow> ('n, 'm) step_state \<Rightarrow>
     (error + string) \<times> ('n, 'm) step_state" where
  "save_step ex st phase b rs =
     (let sh = st_shared rs
      in case save_super_step (ex_coordinator ex) (en_provider (ex_engine ex)) (ex_new_id ex (sh_tick sh)) (ex_clock ex (sh_tick sh))
                st phase b (sh_store sh) of
           (r, s) \<Rightarrow> (r, rs\<lparr>st_shared := sh\<lparr>sh_store := s, sh_tick := sh_tick sh + 1\<rparr>\<rparr>))"

definition record_write ::
    "('n, 'm) executor \<Rightarrow> string \<Rightarrow> string \<Rightarrow> string \<Rightarrow> 'm node_result \<Rightarrow> int \<Rightarrow> ('n, 'm) step_state \<Rightarrow>
     error option \<times> ('n, 'm) step_state" where
  "record_write ex cp task_id node nr step rs =
     (let sh = st_shared rs
      in case record_pending_write (ex_coordinator ex) (ex_outcome_codec ex) (ex_clock ex (sh_tick sh)) cp task_id task_id
                node nr step (sh_store sh) of
           (e, s) \<Rightarrow> (e, rs\<lparr>st_shared := sh\<lparr>sh_store := s, sh_tick := sh_tick sh + 1\<rparr>\<rparr>))"

definition record_start ::
    "('n, 'm) executor \<Rightarrow> string \<Rightarrow> string \<Rightarrow> string \<Rightarrow> int \<Rightarrow> int \<Rightarrow> ('n, 'm) step_state \<Rightarrow>
     error option \<times> ('n, 'm) step_state" where
  "record_start ex cp task_id node attempt step rs =
     (case record_attempt_start ex cp task_id node attempt step (st_shared rs) of
        (e, sh) \<Rightarrow> (e, rs\<lparr>st_shared := sh\<rparr>))"

section \<open>One ready node\<close>

definition static_invocation ::
    "string \<Rightarrow> int \<Rightarrow> (string \<times> 'm node_result) list \<Rightarrow> string \<Rightarrow> bool \<Rightarrow> 'm graph_state \<Rightarrow> 'm invocation" where
  "static_invocation node step replay parent limited st =
     \<lparr>iv_node = node, iv_task_id = make_static_task_id step node, iv_step = step, iv_replay = replay,
      iv_parent_cp_id = parent, iv_visit_limited = limited, iv_state = st\<rparr>"

definition step_boundary_of ::
    "string \<Rightarrow> string list \<Rightarrow> int \<Rightarrow> string \<Rightarrow> barrier_state \<Rightarrow> json \<Rightarrow> step_boundary" where
  "step_boundary_of node next_nodes step parent bs metadata =
     \<lparr>sb_current_node = node, sb_next_nodes = next_nodes, sb_step = step, sb_parent_id = parent,
      sb_barrier_state = bs, sb_metadata = metadata\<rparr>"

definition pause_on_node_interrupt ::
    "('n, 'm) executor \<Rightarrow> string \<Rightarrow> int \<Rightarrow> string \<Rightarrow> barrier_state \<Rightarrow> int \<Rightarrow> exn \<Rightarrow> ('n, 'm) step_state \<Rightarrow>
     exn \<times> ('n, 'm) step_state" where
  "pause_on_node_interrupt ex node step parent bs attempt interrupt rs =
     (let task_id = make_static_task_id step node
      in case record_step_interrupts ex [\<lparr>pi_id = task_id, pi_node = node, pi_value = interrupt_value_of interrupt\<rparr>] False rs of
           (metadata, rs1) \<Rightarrow>
             (case save_step ex (st_state rs1) NodeInterrupt (step_boundary_of node [node] step parent bs metadata) rs1 of
                (Inl e, rs2) \<Rightarrow> (exn_of_error e, rs2)
              | (Inr cp, rs2) \<Rightarrow>
                  (case (if parent = [] then record_start ex cp task_id node attempt step rs2 else (None, rs2)) of
                     (Some e, rs3) \<Rightarrow> (exn_of_error e, rs3)
                   | (None, rs3) \<Rightarrow> (interrupt, rs3\<lparr>st_interrupt_cp := cp\<rparr>))))"

text \<open>The results of a step are applied in the order of their dispatch, one after the other.\<close>

fun apply_results ::
    "('n, 'm) executor \<Rightarrow> (string \<times> 'm node_result) list \<Rightarrow> ('n, 'm) step_state \<Rightarrow> error option \<times> ('n, 'm) step_state" where
  "apply_results ex [] rs = (None, rs)"
| "apply_results ex ((name, nr) # results) rs =
     (case apply_node_result ex nr (st_state rs) of
        (Some e, st) \<Rightarrow> (Some e, rs\<lparr>st_state := st\<rparr>)
      | (None, st) \<Rightarrow> apply_results ex results (rs\<lparr>st_state := st, st_trace := st_trace rs @ [name]\<rparr>))"

definition run_one ::
    "('n, 'm) executor \<Rightarrow> string \<Rightarrow> int \<Rightarrow> (string \<times> 'm node_result) list \<Rightarrow> string \<Rightarrow> barrier_state \<Rightarrow>
     ('n, 'm) step_state \<Rightarrow> (exn + 'm node_result) \<times> ('n, 'm) step_state" where
  "run_one ex node step replay parent bs rs =
     (case take_activation ex node (st_failure rs) of
        (ok, fs) \<Rightarrow>
          (case run_branch ex (static_invocation node step replay parent (\<not> ok) (st_state rs)) (new_branch, st_shared rs) of
             (b, sh) \<Rightarrow>
               (let rs1 = rs\<lparr>st_failure := fs, st_shared := sh\<rparr>
                in case br_phase b of
                     Finished (Inr nr) \<Rightarrow>
                       (case apply_results ex [(node, nr)] (capture_step_start ex (nr_sends nr \<noteq> []) rs1) of
                          (Some e, rs2) \<Rightarrow> (Inl (exn_of_error e), rs2)
                        | (None, rs2) \<Rightarrow> (Inr nr, rs2))
                   | Finished (Inl e) \<Rightarrow>
                       if is_interrupt e
                       then (case pause_on_node_interrupt ex node step parent bs (br_interrupted b) e rs1 of
                               (x, rs2) \<Rightarrow> (Inl x, rs2))
                       else (Inl e, rs1)
                   | _ \<Rightarrow> (Inl (Exn XLogicError None None), rs1))))"

section \<open>A fan-out of ready nodes\<close>

definition group_step ::
    "('n, 'm) executor \<Rightarrow> 'm invocation list \<Rightarrow> nat \<Rightarrow> 'm branch list \<times> ('n, 'm) shared \<Rightarrow>
     'm branch list \<times> ('n, 'm) shared" where
  "group_step ex ivs i g =
     (case g of (bs, sh) \<Rightarrow>
        if i < length bs
        then (case branch_step ex (ivs ! i) (bs ! i, sh) of (b, sh') \<Rightarrow> (bs[i := b], sh'))
        else (bs, sh))"

definition finish_step ::
    "('n, 'm) executor \<Rightarrow> 'm invocation list \<Rightarrow> nat \<Rightarrow> 'm branch list \<times> ('n, 'm) shared \<Rightarrow>
     'm branch list \<times> ('n, 'm) shared" where
  "finish_step ex ivs i g =
     (case g of (bs, sh) \<Rightarrow> (case run_branch ex (ivs ! i) (bs ! i, sh) of (b, sh') \<Rightarrow> (bs[i := b], sh')))"

text \<open>\<open>make_parallel_group\<close> with \<open>wait_for_all\<close>: the branches step as the schedule says, then to their end.\<close>

definition run_started_group ::
    "('n, 'm) executor \<Rightarrow> 'm invocation list \<Rightarrow> 'm branch list \<Rightarrow> nat list \<Rightarrow> ('n, 'm) shared \<Rightarrow>
     'm branch list \<times> ('n, 'm) shared" where
  "run_started_group ex ivs bs schedule sh =
     fold (finish_step ex ivs) [0..<length ivs] (fold (group_step ex ivs) schedule (bs, sh))"

definition run_group ::
    "('n, 'm) executor \<Rightarrow> 'm invocation list \<Rightarrow> nat list \<Rightarrow> ('n, 'm) shared \<Rightarrow> 'm branch list \<times> ('n, 'm) shared" where
  "run_group ex ivs schedule sh = run_started_group ex ivs (map (\<lambda>_. new_branch) ivs) schedule sh"

definition branch_error :: "'m branch \<Rightarrow> exn option" where
  "branch_error b =
     (case br_phase b of Finished (Inl e) \<Rightarrow> Some e | Finished (Inr _) \<Rightarrow> None | _ \<Rightarrow> Some (Exn XLogicError None None))"

definition branch_value :: "'m branch \<Rightarrow> 'm node_result" where
  "branch_value b =
     (case br_phase b of Finished (Inr nr) \<Rightarrow> nr | _ \<Rightarrow> \<lparr>nr_writes = [], nr_command = None, nr_sends = []\<rparr>)"

text \<open>
  What a pause without a checkpoint before the step records under its own checkpoint: the results of the
  tasks that finished and the attempts of the others.
\<close>

fun record_outcomes ::
    "('n, 'm) executor \<Rightarrow> string \<Rightarrow> int \<Rightarrow> (string \<times> string \<times> 'm branch) list \<Rightarrow> ('n, 'm) step_state \<Rightarrow>
     error option \<times> ('n, 'm) step_state" where
  "record_outcomes ex cp step [] rs = (None, rs)"
| "record_outcomes ex cp step ((task_id, node, b) # outcomes) rs =
     (case (if branch_error b = None then record_write ex cp task_id node (branch_value b) step rs
            else record_start ex cp task_id node (br_interrupted b) step rs) of
        (Some e, rs1) \<Rightarrow> (Some e, rs1)
      | (None, rs1) \<Rightarrow> record_outcomes ex cp step outcomes rs1)"

definition pending_of :: "string list \<Rightarrow> string list \<Rightarrow> exn option list \<Rightarrow> nat list \<Rightarrow> pending_interrupt list" where
  "pending_of task_ids nodes errors pause =
     map (\<lambda>i. \<lparr>pi_id = task_ids ! i, pi_node = nodes ! i,
              pi_value = (case errors ! i of Some e \<Rightarrow> interrupt_value_of e | None \<Rightarrow> JNull)\<rparr>) pause"

definition pause_parallel ::
    "('n, 'm) executor \<Rightarrow> string list \<Rightarrow> int \<Rightarrow> string \<Rightarrow> barrier_state \<Rightarrow> 'm branch list \<Rightarrow> step_end \<Rightarrow>
     ('n, 'm) step_state \<Rightarrow> exn \<times> ('n, 'm) step_state" where
  "pause_parallel ex rdy step parent bstate bs outcome rs =
     (let errors = map branch_error bs;
          task_ids = map (make_static_task_id step) rdy;
          first = hd (so_pause outcome);
          interrupt = (case errors ! first of Some e \<Rightarrow> e | None \<Rightarrow> Exn XLogicError None None)
      in case record_step_interrupts ex (pending_of task_ids rdy errors (so_pause outcome)) (so_beside_failure outcome) rs of
           (metadata, rs1) \<Rightarrow>
             (case save_step ex (st_state rs1) NodeInterrupt
                     (step_boundary_of (rdy ! first) rdy step parent bstate metadata) rs1 of
                (Inl e, rs2) \<Rightarrow> (exn_of_error e, rs2)
              | (Inr cp, rs2) \<Rightarrow>
                  (case (if parent = [] then record_outcomes ex cp step (zip task_ids (zip rdy bs)) rs2 else (None, rs2)) of
                     (Some e, rs3) \<Rightarrow> (exn_of_error e, rs3)
                   | (None, rs3) \<Rightarrow> (interrupt, rs3\<lparr>st_interrupt_cp := cp\<rparr>))))"

text \<open>The error a step ends with, and the end of a fan-out once every branch has finished.\<close>

definition error_at :: "'m branch list \<Rightarrow> nat \<Rightarrow> exn" where
  "error_at bs i = (case branch_error (bs ! i) of Some e \<Rightarrow> e | None \<Rightarrow> Exn XLogicError None None)"

definition conclude_parallel ::
    "('n, 'm) executor \<Rightarrow> string list \<Rightarrow> int \<Rightarrow> string \<Rightarrow> barrier_state \<Rightarrow> 'm branch list \<Rightarrow> ('n, 'm) step_state \<Rightarrow>
     (exn + 'm node_result list) \<times> ('n, 'm) step_state" where
  "conclude_parallel ex rdy step parent bstate bs rs =
     (let outcome = step_outcome (map branch_error bs)
      in case so_end outcome of
           Some i \<Rightarrow> (Inl (error_at bs i), rs)
         | None \<Rightarrow>
             if so_pause outcome \<noteq> []
             then (case pause_parallel ex rdy step parent bstate bs outcome rs of (x, rs1) \<Rightarrow> (Inl x, rs1))
             else
               (let vals = map branch_value bs
                in case apply_results ex (zip rdy vals)
                          (capture_step_start ex (list_ex (\<lambda>v. nr_sends v \<noteq> []) vals) rs) of
                     (Some e, rs1) \<Rightarrow> (Inl (exn_of_error e), rs1)
                   | (None, rs1) \<Rightarrow> (Inr vals, rs1)))"

definition run_parallel ::
    "('n, 'm) executor \<Rightarrow> nat list \<Rightarrow> string list \<Rightarrow> int \<Rightarrow> (string \<times> 'm node_result) list \<Rightarrow> string \<Rightarrow> barrier_state \<Rightarrow>
     ('n, 'm) step_state \<Rightarrow> (exn + 'm node_result list) \<times> ('n, 'm) step_state" where
  "run_parallel ex schedule rdy step replay parent bstate rs =
     (case rdy of
        [node] \<Rightarrow>
          (case run_one ex node step replay parent bstate rs of
             (Inl e, rs1) \<Rightarrow> (Inl e, rs1)
           | (Inr nr, rs1) \<Rightarrow> (Inr [nr], rs1))
      | _ \<Rightarrow>
          (case take_activations ex rdy (st_failure rs) of
             (limited, fs) \<Rightarrow>
               (case run_group ex
                       (map (\<lambda>(node, lim). static_invocation node step replay parent lim (st_state rs)) (zip rdy limited))
                       schedule (st_shared rs) of
                  (bs, sh) \<Rightarrow> conclude_parallel ex rdy step parent bstate bs (rs\<lparr>st_failure := fs, st_shared := sh\<rparr>))))"

section \<open>Sends\<close>

definition send_task_ids :: "('n, 'm) executor \<Rightarrow> int \<Rightarrow> send list \<Rightarrow> string list" where
  "send_task_ids ex step sends =
     map (\<lambda>(si, s). make_send_task_id (ex_dump ex) step si (target_node s) (send_input s)) (enumerate 0 sends)"

text \<open>The step whose ready nodes emitted the sends: its ready nodes, their results and its barriers.\<close>

record 'm send_step =
  ss_ready :: "string list"
  ss_results :: "'m node_result list"
  ss_barrier_state :: barrier_state

fun record_results ::
    "('n, 'm) executor \<Rightarrow> string \<Rightarrow> int \<Rightarrow> (string \<times> 'm node_result) list \<Rightarrow> ('n, 'm) step_state \<Rightarrow>
     error option \<times> ('n, 'm) step_state" where
  "record_results ex cp step [] rs = (None, rs)"
| "record_results ex cp step ((node, nr) # results) rs =
     (case record_write ex cp (make_static_task_id step node) node nr step rs of
        (Some e, rs1) \<Rightarrow> (Some e, rs1)
      | (None, rs1) \<Rightarrow> record_results ex cp step results rs1)"

definition record_ready_writes ::
    "('n, 'm) executor \<Rightarrow> string \<Rightarrow> 'm send_step \<Rightarrow> int \<Rightarrow> ('n, 'm) step_state \<Rightarrow> error option \<times> ('n, 'm) step_state" where
  "record_ready_writes ex cp send_step step rs =
     record_results ex cp step (zip (ss_ready send_step) (ss_results send_step)) rs"

definition step_start_state :: "('n, 'm) executor \<Rightarrow> ('n, 'm) step_state \<Rightarrow> error + 'm graph_state" where
  "step_start_state ex rs =
     (case st_start rs of
        None \<Rightarrow> raise_error LogicError ''A Send step has no record of the state it started from''
      | Some snapshot \<Rightarrow> restored_copy ex snapshot (st_state rs))"

definition save_send_step_anchor ::
    "('n, 'm) executor \<Rightarrow> 'm send_step \<Rightarrow> string \<Rightarrow> int \<Rightarrow> ('n, 'm) step_state \<Rightarrow> (exn + string) \<times> ('n, 'm) step_state" where
  "save_send_step_anchor ex send_step anchor_node step rs =
     (case step_start_state ex rs of
        Inl e \<Rightarrow> (Inl (exn_of_error e), rs)
      | Inr start \<Rightarrow>
          (case save_step ex start Before
                  (step_boundary_of anchor_node (ss_ready send_step) step [] (ss_barrier_state send_step)
                     (checkpoint_metadata_for ex DuringStep rs)) rs of
             (Inl e, rs1) \<Rightarrow> (Inl (exn_of_error e), rs1)
           | (Inr cp, rs1) \<Rightarrow>
               (case record_ready_writes ex cp send_step step rs1 of
                  (Some e, rs2) \<Rightarrow> (Inl (exn_of_error e), rs2)
                | (None, rs2) \<Rightarrow> (Inr cp, rs2))))"

definition save_send_interrupt ::
    "('n, 'm) executor \<Rightarrow> 'm graph_state \<Rightarrow> 'm send_step \<Rightarrow> send list \<Rightarrow> 'm branch list \<Rightarrow> nat \<Rightarrow> int \<Rightarrow> string \<Rightarrow> json \<Rightarrow>
     ('n, 'm) step_state \<Rightarrow> (exn + string) \<times> ('n, 'm) step_state" where
  "save_send_interrupt ex start send_step sends bs interrupted step parent metadata rs =
     (case save_step ex start NodeInterrupt
             (step_boundary_of (target_node (sends ! interrupted)) (ss_ready send_step) step parent
                (ss_barrier_state send_step) metadata) rs of
        (Inl e, rs1) \<Rightarrow> (Inl (exn_of_error e), rs1)
      | (Inr cp, rs1) \<Rightarrow>
          if parent \<noteq> [] then (Inr cp, rs1)
          else
            (case record_ready_writes ex cp send_step step rs1 of
               (Some e, rs2) \<Rightarrow> (Inl (exn_of_error e), rs2)
             | (None, rs2) \<Rightarrow>
                 (case record_outcomes ex cp step (zip (send_task_ids ex step sends) (zip (map target_node sends) bs)) rs2 of
                    (Some e, rs3) \<Rightarrow> (Inl (exn_of_error e), rs3)
                  | (None, rs3) \<Rightarrow> (Inr cp, rs3))))"

definition pause_sends ::
    "('n, 'm) executor \<Rightarrow> 'm send_step option \<Rightarrow> send list \<Rightarrow> 'm branch list \<Rightarrow> nat \<Rightarrow> exn \<Rightarrow>
     pending_interrupt list \<Rightarrow> bool \<Rightarrow> int \<Rightarrow> string \<Rightarrow> ('n, 'm) step_state \<Rightarrow> exn \<times> ('n, 'm) step_state" where
  "pause_sends ex send_step sends bs interrupted interrupt pending_list listed step parent rs =
     (case record_step_interrupts ex pending_list listed rs of
        (metadata, rs1) \<Rightarrow>
          (case send_step of
             None \<Rightarrow> (interrupt, rs1)
           | Some ss \<Rightarrow>
               if \<not> co_enabled (ex_coordinator ex) then (interrupt, rs1)
               else
                 (case step_start_state ex rs1 of
                    Inl e \<Rightarrow> (exn_of_error e, rs1)
                  | Inr start \<Rightarrow>
                      (case save_send_interrupt ex start ss sends bs interrupted step parent metadata rs1 of
                         (Inl e, rs2) \<Rightarrow> (e, rs2)
                       | (Inr cp, rs2) \<Rightarrow> (interrupt, rs2\<lparr>st_interrupt_cp := cp\<rparr>)))))"

text \<open>
  The state a send runs on: its own copy of the step's state with its payload applied. The copy is made
  before the attempts; when making it fails, the send ends with that error.
\<close>

definition send_state :: "('n, 'm) executor \<Rightarrow> json \<Rightarrow> json \<Rightarrow> 'm graph_state \<Rightarrow> error + 'm graph_state" where
  "send_state ex snapshot payload st =
     bind_result (restored_copy ex snapshot st) (\<lambda>copy.
       case apply_input (ex_engine ex) payload copy of
         (Some e, _) \<Rightarrow> Inl e
       | (None, st') \<Rightarrow> Inr st')"

definition send_invocation ::
    "('n, 'm) executor \<Rightarrow> int \<Rightarrow> (string \<times> 'm node_result) list \<Rightarrow> string \<Rightarrow> 'm graph_state \<Rightarrow> send \<Rightarrow> string \<Rightarrow> bool \<Rightarrow>
     'm invocation \<times> 'm branch" where
  "send_invocation ex step replay parent st s task_id limited =
     (let iv = \<lparr>iv_node = target_node s, iv_task_id = task_id, iv_step = step, iv_replay = replay,
                iv_parent_cp_id = parent, iv_visit_limited = limited, iv_state = st\<rparr>
      in if map_of replay task_id \<noteq> None then (iv, new_branch)
         else case send_state ex (runtime_snapshot ex st) (send_input s) st of
                Inl e \<Rightarrow> (iv, new_branch\<lparr>br_phase := Finished (Inl (exn_of_error e))\<rparr>)
              | Inr own \<Rightarrow> (iv\<lparr>iv_state := own\<rparr>, new_branch))"

definition send_routing :: "send \<Rightarrow> 'm node_result \<Rightarrow> step_routing" where
  "send_routing s nr =
     \<lparr>node_name = target_node s,
      command_goto = (case nr_command nr of
         None \<Rightarrow> None | Some c \<Rightarrow> if goto_node c = [] then None else Some (goto_node c))\<rparr>"

definition send_failure :: "('n, 'm) executor \<Rightarrow> 'm node_result \<Rightarrow> json" where
  "send_failure ex nr =
     (if failure_routes ex then (case failure_route_record nr of Some rec \<Rightarrow> rec | None \<Rightarrow> JNull) else JNull)"

definition conclude_sends ::
    "('n, 'm) executor \<Rightarrow> send list \<Rightarrow> int \<Rightarrow> string \<Rightarrow> 'm send_step option \<Rightarrow> 'm branch list \<Rightarrow> ('n, 'm) step_state \<Rightarrow>
     (exn + (step_routing \<times> json) list) \<times> ('n, 'm) step_state" where
  "conclude_sends ex sends step parent send_step bs rs =
     (let errors = map branch_error bs;
          outcome = step_outcome errors;
          vals = map branch_value bs
      in case so_end outcome of
           Some i \<Rightarrow> (Inl (error_at bs i), rs)
         | None \<Rightarrow>
             if so_pause outcome \<noteq> []
             then (case pause_sends ex send_step sends bs (hd (so_pause outcome)) (error_at bs (hd (so_pause outcome)))
                          (pending_of (send_task_ids ex step sends) (map target_node sends) errors (so_pause outcome))
                          (so_beside_failure outcome) step parent rs of
                     (x, rs1) \<Rightarrow> (Inl x, rs1))
             else if list_ex (\<lambda>v. nr_sends v \<noteq> []) vals then (Inl (Exn (XRuntimeError None) None None), rs)
             else
               (case apply_results ex (zip (map (\<lambda>s. target_node s @ ''[send]'') sends) vals) rs of
                  (Some e, rs1) \<Rightarrow> (Inl (exn_of_error e), rs1)
                | (None, rs1) \<Rightarrow> (Inr (map (\<lambda>(s, nr). (send_routing s nr, send_failure ex nr)) (zip sends vals)), rs1)))"

definition run_sends ::
    "('n, 'm) executor \<Rightarrow> nat list \<Rightarrow> send list \<Rightarrow> int \<Rightarrow> (string \<times> 'm node_result) list \<Rightarrow> string \<Rightarrow> 'm send_step option \<Rightarrow>
     ('n, 'm) step_state \<Rightarrow> (exn + (step_routing \<times> json) list) \<times> ('n, 'm) step_state" where
  "run_sends ex schedule sends step replay parent send_step rs =
     (if sends = [] then (Inr [], rs)
      else if list_ex (\<lambda>s. map_of (ex_nodes ex) (target_node s) = None) sends
      then (Inl (Exn (XRuntimeError None) None None), rs)
      else
        case take_activations ex (map target_node sends) (st_failure rs) of
          (limited, fs) \<Rightarrow>
            (let begun = map (\<lambda>(s, task_id, lim). send_invocation ex step replay parent (st_state rs) s task_id lim)
                           (zip sends (zip (send_task_ids ex step sends) limited))
             in case run_started_group ex (map fst begun) (map snd begun) schedule (st_shared rs) of
                  (bs, sh) \<Rightarrow> conclude_sends ex sends step parent send_step bs (rs\<lparr>st_failure := fs, st_shared := sh\<rparr>)))"

section \<open>Interleavings do not matter\<close>

text \<open>
  Without a node cache and a retry ceiling, what an invocation does next depends on its own progress only:
  the store is written, never read.
\<close>

definition uncoupled :: "('n, 'm) executor \<Rightarrow> ('n, 'm) shared \<Rightarrow> bool" where
  "uncoupled ex sh \<longleftrightarrow> \<not> ex_has_cache ex \<and> sh_ceiling sh = None"

lemma record_error_same:
  "fst (record_pending_write co oc now p t path n nr step s) = fst (record_pending_write co oc now' p t path n nr step s')"
  by (auto simp: record_pending_write_def make_pending_write_def bind_result_eq_Inl split: sum.splits)

lemma enter_independent:
  assumes "uncoupled ex sh" "uncoupled ex sh'"
  shows "fst (enter_branch ex iv sh) = fst (enter_branch ex iv sh')" "uncoupled ex (snd (enter_branch ex iv sh))"
  using assms by (auto simp: enter_branch_def uses_cache_def uncoupled_def split: option.splits)

lemma record_attempt_start_error:
  "fst (record_attempt_start ex cp t n k step sh) = fst (record_attempt_start ex cp t n k step sh')"
  using record_error_same[of "ex_coordinator ex" "ex_outcome_codec ex" "ex_clock ex (sh_tick sh)" cp _ _ _ _ _ "sh_store sh"
      "ex_clock ex (sh_tick sh')" "sh_store sh'"]
  by (simp add: record_attempt_start_def Let_def case_prod_beta)

lemma record_attempt_start_ceiling: "sh_ceiling (snd (record_attempt_start ex cp t n k step sh)) = sh_ceiling sh"
  by (simp add: record_attempt_start_def Let_def case_prod_beta)

lemma start_independent:
  assumes "uncoupled ex sh" "uncoupled ex sh'"
  shows "fst (start_attempt ex iv k d key sh) = fst (start_attempt ex iv k d key sh')"
    "uncoupled ex (snd (start_attempt ex iv k d key sh))"
proof -
  let ?r = "\<lambda>sh. record_attempt_start ex (iv_parent_cp_id iv) (iv_task_id iv) (iv_node iv) k (iv_step iv) sh"
  have e: "fst (?r sh) = fst (?r sh')" by (rule record_attempt_start_error)
  then show "fst (start_attempt ex iv k d key sh) = fst (start_attempt ex iv k d key sh')"
    by (cases "?r sh"; cases "?r sh'") (auto simp: start_attempt_def split: option.splits)
  show "uncoupled ex (snd (start_attempt ex iv k d key sh))"
    using assms(1) record_attempt_start_ceiling[of ex "iv_parent_cp_id iv" "iv_task_id iv" "iv_node iv" k "iv_step iv" sh]
    by (cases "?r sh") (auto simp: start_attempt_def uncoupled_def split: option.splits)
qed

lemma settle_no_ceiling:
  "snd (settle_failed_attempt ex iv d k la e stopped report None) = None"
  by (auto simp: settle_failed_attempt_def retry_or_give_up_def take_retry_def Let_def split: exn_kind.splits)

lemma finish_independent:
  assumes "uncoupled ex sh" "uncoupled ex sh'"
  shows "fst (finish_attempt ex iv k d key report sh b) = fst (finish_attempt ex iv k d key report sh' b)"
    "uncoupled ex (snd (finish_attempt ex iv k d key report sh b))"
proof -
  have c: "sh_ceiling sh = None" "sh_ceiling sh' = None" using assms by (simp_all add: uncoupled_def)
  have s: "snd (settle_failed_attempt ex iv d k (last_attempt_of ex iv) e stopped report None) = None" for e stopped
    by (rule settle_no_ceiling)
  show "fst (finish_attempt ex iv k d key report sh b) = fst (finish_attempt ex iv k d key report sh' b)"
    by (cases "run_node ex iv report") (simp_all add: finish_attempt_def c case_prod_beta)
  show "uncoupled ex (snd (finish_attempt ex iv k d key report sh b))"
    using assms(1) s by (cases "run_node ex iv report") (auto simp: finish_attempt_def uncoupled_def case_prod_beta split: option.splits)
qed

lemma run_independent:
  assumes "uncoupled ex sh" "uncoupled ex sh'"
  shows "fst (run_attempt ex iv k d key sh b) = fst (run_attempt ex iv k d key sh' b)"
    "uncoupled ex (snd (run_attempt ex iv k d key sh b))"
  using assms(1) finish_independent[OF assms] by (auto simp: run_attempt_def split: option.splits)

lemma record_independent:
  assumes "uncoupled ex sh"
  shows "fst (record_result ex iv nr sh) = fst (record_result ex iv nr sh')" "uncoupled ex (snd (record_result ex iv nr sh))"
  using assms record_error_same[of "ex_coordinator ex" "ex_outcome_codec ex" "ex_clock ex (sh_tick sh)" "iv_parent_cp_id iv"
      "iv_task_id iv" "iv_task_id iv" "iv_node iv" nr "iv_step iv" "sh_store sh" "ex_clock ex (sh_tick sh')" "sh_store sh'"]
  by (simp_all add: record_result_def uncoupled_def case_prod_beta)

lemma branch_step_independent:
  assumes "uncoupled ex sh" "uncoupled ex sh'"
  shows "fst (branch_step ex iv (b, sh)) = fst (branch_step ex iv (b, sh'))" "uncoupled ex (snd (branch_step ex iv (b, sh)))"
  using assms enter_independent[OF assms] start_independent[OF assms] run_independent[OF assms] record_independent[OF assms(1)]
  by (cases "br_phase b"; simp add: branch_step_def case_prod_beta)+

lemma run_branch_independent:
  assumes "uncoupled ex (snd x)" "uncoupled ex (snd y)" "fst x = fst y"
  shows "fst (run_branch ex iv x) = fst (run_branch ex iv y)" "uncoupled ex (snd (run_branch ex iv x))"
proof -
  have "fst (run_branch ex iv x) = fst (run_branch ex iv y) \<and> uncoupled ex (snd (run_branch ex iv x))"
    using assms
  proof (induction ex iv x arbitrary: y rule: run_branch.induct)
    case (1 ex iv x)
    show ?case
    proof (cases "finished_branch (fst x)")
      case True
      then show ?thesis using "1.prems" by (simp add: run_branch.simps[of ex iv x] run_branch.simps[of ex iv y])
    next
      case False
      obtain b s1 s2 where xy: "x = (b, s1)" "y = (b, s2)" using "1.prems"(3) by (cases x; cases y) auto
      have "fst (branch_step ex iv x) = fst (branch_step ex iv y)" "uncoupled ex (snd (branch_step ex iv x))"
        "uncoupled ex (snd (branch_step ex iv y))"
        using branch_step_independent[of ex s1 s2 iv b] branch_step_independent(2)[of ex s2 s1 iv b] "1.prems" xy
        by simp_all
      moreover have "run_branch ex iv x = run_branch ex iv (branch_step ex iv x)"
        "run_branch ex iv y = run_branch ex iv (branch_step ex iv y)"
        using False "1.prems"(3) run_branch.simps[of ex iv x] run_branch.simps[of ex iv y] by simp_all
      ultimately show ?thesis using "1.IH"[OF False, of "branch_step ex iv y"] by simp
    qed
  qed
  then show "fst (run_branch ex iv x) = fst (run_branch ex iv y)" "uncoupled ex (snd (run_branch ex iv x))" by blast+
qed

text \<open>How a branch ends when it starts from \<open>b\<close> with the shared state \<open>sh\<close>.\<close>

abbreviation branch_end :: "('n, 'm) executor \<Rightarrow> 'm invocation \<Rightarrow> ('n, 'm) shared \<Rightarrow> 'm branch \<Rightarrow> 'm branch" where
  "branch_end ex iv sh b \<equiv> fst (run_branch ex iv (b, sh))"

lemma branch_end_step:
  assumes "uncoupled ex sh" and that: "uncoupled ex sh'"
  shows "branch_end ex iv sh (fst (branch_step ex iv (b, sh'))) = branch_end ex iv sh b"
proof (cases "finished_branch b")
  case True
  then have "branch_step ex iv (b, sh') = (b, sh')" by (auto simp: branch_step_def split: phase.splits)
  then show ?thesis by simp
next
  case False
  have "fst (branch_step ex iv (b, sh')) = fst (branch_step ex iv (b, sh))" by (rule branch_step_independent(1)[OF that assms(1)])
  moreover have "uncoupled ex (snd (branch_step ex iv (b, sh)))" by (rule branch_step_independent(2)[OF assms(1) assms(1)])
  ultimately show ?thesis
    using run_branch_independent(1)[of ex "(fst (branch_step ex iv (b, sh)), sh)" "branch_step ex iv (b, sh)" iv] assms(1) False
    by (simp add: run_branch.simps[of ex iv "(b, sh)"])
qed

text \<open>What the steps of a group keep: the end every branch is heading for.\<close>

definition heads_for ::
    "('n, 'm) executor \<Rightarrow> 'm invocation list \<Rightarrow> ('n, 'm) shared \<Rightarrow> 'm branch list \<Rightarrow> 'm branch list \<times> ('n, 'm) shared \<Rightarrow> bool" where
  "heads_for ex ivs sh ends g \<longleftrightarrow>
     uncoupled ex (snd g) \<and> length (fst g) = length ivs \<and> length ends = length ivs \<and>
     (\<forall>i < length ivs. branch_end ex (ivs ! i) sh (fst g ! i) = ends ! i)"

lemma group_step_heads:
  assumes "uncoupled ex sh" "heads_for ex ivs sh ends g"
  shows "heads_for ex ivs sh ends (group_step ex ivs i g)"
proof -
  obtain bs s where g: "g = (bs, s)" by fastforce
  have s: "uncoupled ex s" using assms(2) g by (simp add: heads_for_def)
  show ?thesis
  proof (cases "i < length bs")
    case True
    have "branch_end ex (ivs ! j) sh (bs[i := fst (branch_step ex (ivs ! i) (bs ! i, s))] ! j) = ends ! j"
      if "j < length ivs" for j
      using assms(2) that branch_end_step[OF assms(1) s, of "ivs ! i" "bs ! i"] True g
      by (cases "j = i") (simp_all add: heads_for_def)
    then show ?thesis using True assms(2) branch_step_independent(2)[OF s s, of "ivs ! i" "bs ! i"] g
      by (simp add: heads_for_def group_step_def case_prod_beta)
  next
    case False
    then show ?thesis using assms(2) g by (simp add: group_step_def)
  qed
qed

lemma finish_step_heads:
  assumes "uncoupled ex sh" "heads_for ex ivs sh ends g" "i < length ivs"
  shows "heads_for ex ivs sh ends (finish_step ex ivs i g)" "fst (finish_step ex ivs i g) = (fst g)[i := ends ! i]"
proof -
  obtain bs s where g: "g = (bs, s)" by fastforce
  have s: "uncoupled ex s" and len: "length bs = length ivs" "length ends = length ivs"
    using assms(2) g by (simp_all add: heads_for_def)
  have run: "fst (run_branch ex (ivs ! i) (bs ! i, s)) = ends ! i" "uncoupled ex (snd (run_branch ex (ivs ! i) (bs ! i, s)))"
    using run_branch_independent[of ex "(bs ! i, s)" "(bs ! i, sh)" "ivs ! i"] assms s g by (simp_all add: heads_for_def)
  show fst_eq: "fst (finish_step ex ivs i g) = (fst g)[i := ends ! i]"
    using run(1) by (simp add: finish_step_def g case_prod_beta)
  have "finished_branch (ends ! i)" using run_branch_finished run(1) by metis
  then have fixpoint: "branch_end ex (ivs ! i) sh (ends ! i) = ends ! i" by (subst run_branch.simps) simp
  have "branch_end ex (ivs ! j) sh ((bs[i := ends ! i]) ! j) = ends ! j" if "j < length ivs" for j
    using assms(2) that g len fixpoint by (cases "j = i") (simp_all add: heads_for_def)
  then show "heads_for ex ivs sh ends (finish_step ex ivs i g)"
    using fst_eq run(2) len g by (simp add: heads_for_def finish_step_def case_prod_beta)
qed

lemma group_steps_head: "uncoupled ex sh \<Longrightarrow> heads_for ex ivs sh ends g \<Longrightarrow> heads_for ex ivs sh ends (fold (group_step ex ivs) is g)"
  by (induction "is" arbitrary: g) (simp_all add: group_step_heads)

lemma finish_steps:
  assumes "uncoupled ex sh" "heads_for ex ivs sh ends g" "n \<le> length ivs"
  shows "heads_for ex ivs sh ends (fold (finish_step ex ivs) [0..<n] g) \<and>
    (\<forall>i < n. fst (fold (finish_step ex ivs) [0..<n] g) ! i = ends ! i)"
  using assms(3)
proof (induction n)
  case (Suc n)
  let ?g = "fold (finish_step ex ivs) [0..<n] g"
  have IH: "heads_for ex ivs sh ends ?g" "\<forall>i < n. fst ?g ! i = ends ! i" using Suc by simp_all
  note step = finish_step_heads[OF assms(1) IH(1), of n]
  have "length (fst ?g) = length ivs" using IH(1) by (simp add: heads_for_def)
  with step IH(2) Suc.prems show ?case by (auto simp: less_Suc_eq)
qed (use assms in simp)

text \<open>A group of branches ends the same way under every schedule.\<close>

lemma run_started_group_ends:
  assumes "uncoupled ex sh" "length bs = length ivs"
  shows "fst (run_started_group ex ivs bs schedule sh) = map (\<lambda>(iv, b). branch_end ex iv sh b) (zip ivs bs)"
    "uncoupled ex (snd (run_started_group ex ivs bs schedule sh))"
proof -
  let ?ends = "map (\<lambda>(iv, b). branch_end ex iv sh b) (zip ivs bs)"
  have "heads_for ex ivs sh ?ends (bs, sh)" using assms by (simp add: heads_for_def)
  from group_steps_head[OF assms(1) this]
  have "heads_for ex ivs sh ?ends (fold (group_step ex ivs) schedule (bs, sh))" .
  from finish_steps[OF assms(1) this order_refl]
  have fin: "heads_for ex ivs sh ?ends (run_started_group ex ivs bs schedule sh)"
    "\<forall>i < length ivs. fst (run_started_group ex ivs bs schedule sh) ! i = ?ends ! i"
    by (simp_all add: run_started_group_def)
  from fin(1) have len: "length (fst (run_started_group ex ivs bs schedule sh)) = length ivs" by (simp add: heads_for_def)
  show "fst (run_started_group ex ivs bs schedule sh) = ?ends"
    by (rule nth_equalityI) (use len fin(2) assms(2) in simp_all)
  show "uncoupled ex (snd (run_started_group ex ivs bs schedule sh))" using fin(1) by (simp add: heads_for_def)
qed

lemma run_group_ends:
  assumes "uncoupled ex sh"
  shows "fst (run_group ex ivs schedule sh) = map (\<lambda>iv. branch_end ex iv sh new_branch) ivs"
proof -
  have "map (\<lambda>(iv, b). branch_end ex iv sh b) (zip ivs (map (\<lambda>_. new_branch) ivs)) =
      map (\<lambda>iv. branch_end ex iv sh new_branch) ivs"
    by (induction ivs) simp_all
  with run_started_group_ends(1)[OF assms, of "map (\<lambda>_. new_branch) ivs" ivs schedule] show ?thesis
    unfolding run_group_def by simp
qed

lemma applied_shared:
  "rs\<lparr>st_shared := sh, st_state := st, st_trace := t\<rparr> = rs\<lparr>st_state := st, st_trace := t, st_shared := sh\<rparr>"
  "rs\<lparr>st_shared := sh, st_state := st\<rparr> = rs\<lparr>st_state := st, st_shared := sh\<rparr>"
  "rs\<lparr>st_shared := sh, st_trace := t\<rparr> = rs\<lparr>st_trace := t, st_shared := sh\<rparr>"
  "rs\<lparr>st_shared := sh, st_start := j\<rparr> = rs\<lparr>st_start := j, st_shared := sh\<rparr>"
  by simp_all

lemma apply_results_shared:
  "apply_results ex results (rs\<lparr>st_shared := sh\<rparr>) =
     (fst (apply_results ex results rs), (snd (apply_results ex results rs))\<lparr>st_shared := sh\<rparr>)"
proof (induction results arbitrary: rs)
  case (Cons r results)
  obtain name nr where r: "r = (name, nr)" by fastforce
  obtain e st where a: "apply_node_result ex nr (st_state rs) = (e, st)" by fastforce
  show ?case
  proof (cases e)
    case None
    then show ?thesis using Cons.IH[of "rs\<lparr>st_state := st, st_trace := st_trace rs @ [name]\<rparr>"] a by (simp add: r applied_shared)
  qed (simp add: r a applied_shared)
qed simp

lemma capture_step_start_shared:
  "capture_step_start ex h (rs\<lparr>st_shared := sh\<rparr>) = (capture_step_start ex h rs)\<lparr>st_shared := sh\<rparr>"
  by (simp add: capture_step_start_def applied_shared)

lemma captured_results_shared:
  assumes "apply_results ex results (capture_step_start ex h (rs\<lparr>st_shared := sh\<rparr>)) = (e, rs1)"
  shows "apply_results ex results (capture_step_start ex h (rs\<lparr>st_shared := sh'\<rparr>)) = (e, rs1\<lparr>st_shared := sh'\<rparr>)"
  using assms by (auto simp: capture_step_start_shared apply_results_shared)

lemma concluded_values_shared:
  assumes "conclude_parallel ex rdy step parent bstate bs (rs\<lparr>st_shared := sh\<rparr>) = (Inr vs, rs1)"
  shows "conclude_parallel ex rdy step parent bstate bs (rs\<lparr>st_shared := sh'\<rparr>) = (Inr vs, rs1\<lparr>st_shared := sh'\<rparr>)"
proof -
  let ?out = "step_outcome (map branch_error bs)" and ?vals = "map branch_value bs"
  have out: "so_end ?out = None" "so_pause ?out = []"
    using assms by (auto simp: conclude_parallel_def Let_def case_prod_beta split: option.splits if_splits)
  obtain e rs2 where a: "apply_results ex (zip rdy ?vals)
      (capture_step_start ex (list_ex (\<lambda>v. nr_sends v \<noteq> []) ?vals) (rs\<lparr>st_shared := sh\<rparr>)) = (e, rs2)" by fastforce
  with assms out have "e = None" "vs = ?vals" "rs2 = rs1"
    by (auto simp: conclude_parallel_def Let_def split: option.splits)
  with captured_results_shared[OF a, of sh'] out show ?thesis by (simp add: conclude_parallel_def Let_def)
qed

lemma concluded_sends_shared:
  assumes "conclude_sends ex sends step parent ss bs (rs\<lparr>st_shared := sh\<rparr>) = (Inr out, rs1)"
  shows "conclude_sends ex sends step parent ss bs (rs\<lparr>st_shared := sh'\<rparr>) = (Inr out, rs1\<lparr>st_shared := sh'\<rparr>)"
proof -
  let ?out = "step_outcome (map branch_error bs)" and ?vals = "map branch_value bs"
  have out: "so_end ?out = None" "so_pause ?out = []" "\<not> list_ex (\<lambda>v. nr_sends v \<noteq> []) ?vals"
    using assms by (auto simp: conclude_sends_def Let_def case_prod_beta split: option.splits if_splits)
  obtain e rs2 where a: "apply_results ex (zip (map (\<lambda>s. target_node s @ ''[send]'') sends) ?vals) (rs\<lparr>st_shared := sh\<rparr>) = (e, rs2)"
    by fastforce
  with assms out have e: "e = None" "rs2 = rs1" "out = map (\<lambda>(s, nr). (send_routing s nr, send_failure ex nr)) (zip sends ?vals)"
    by (auto simp: conclude_sends_def Let_def split: option.splits)
  have "apply_results ex (zip (map (\<lambda>s. target_node s @ ''[send]'') sends) ?vals) (rs\<lparr>st_shared := sh'\<rparr>) = (e, rs1\<lparr>st_shared := sh'\<rparr>)"
    using a e(2) by (auto simp: apply_results_shared)
  with out e show ?thesis by (simp add: conclude_sends_def Let_def)
qed

lemma parallel_order_irrelevant:
  assumes "uncoupled ex (st_shared rs)" "run_parallel ex schedule rdy step replay parent bstate rs = (Inr vs, rs1)"
  shows "\<exists>sh. run_parallel ex schedule' rdy step replay parent bstate rs = (Inr vs, rs1\<lparr>st_shared := sh\<rparr>)"
proof (cases "\<exists>node. rdy = [node]")
  case True
  then show ?thesis using assms(2) by (intro exI[of _ "st_shared rs1"]) (auto simp: run_parallel_def)
next
  case False
  obtain limited fs where act: "take_activations ex rdy (st_failure rs) = (limited, fs)" by fastforce
  define ivs where "ivs = map (\<lambda>(node, lim). static_invocation node step replay parent lim (st_state rs)) (zip rdy limited)"
  have run: "run_parallel ex sch rdy step replay parent bstate rs =
      conclude_parallel ex rdy step parent bstate (fst (run_group ex ivs sch (st_shared rs)))
        (rs\<lparr>st_failure := fs\<rparr>\<lparr>st_shared := snd (run_group ex ivs sch (st_shared rs))\<rparr>)" for sch
    using False act by (auto simp: run_parallel_def ivs_def case_prod_beta split: list.splits)
  have "fst (run_group ex ivs schedule' (st_shared rs)) = fst (run_group ex ivs schedule (st_shared rs))"
    by (simp add: run_group_ends[OF assms(1)])
  with concluded_values_shared[OF assms(2)[unfolded run]] show ?thesis unfolding run by auto
qed

lemma sends_order_irrelevant:
  assumes "uncoupled ex (st_shared rs)" "run_sends ex schedule sends step replay parent ss rs = (Inr outs, rs1)"
  shows "\<exists>sh. run_sends ex schedule' sends step replay parent ss rs = (Inr outs, rs1\<lparr>st_shared := sh\<rparr>)"
proof (cases "sends = [] \<or> list_ex (\<lambda>s. map_of (ex_nodes ex) (target_node s) = None) sends")
  case True
  then show ?thesis using assms(2) by (intro exI[of _ "st_shared rs1"]) (auto simp: run_sends_def split: if_splits)
next
  case False
  obtain limited fs where act: "take_activations ex (map target_node sends) (st_failure rs) = (limited, fs)" by fastforce
  define begun where "begun = map (\<lambda>(s, task_id, lim). send_invocation ex step replay parent (st_state rs) s task_id lim)
      (zip sends (zip (send_task_ids ex step sends) limited))"
  let ?g = "\<lambda>sch. run_started_group ex (map fst begun) (map snd begun) sch (st_shared rs)"
  have run: "run_sends ex sch sends step replay parent ss rs =
      conclude_sends ex sends step parent ss (fst (?g sch)) (rs\<lparr>st_failure := fs\<rparr>\<lparr>st_shared := snd (?g sch)\<rparr>)" for sch
    using False act by (auto simp: run_sends_def begun_def case_prod_beta Let_def)
  have "fst (?g schedule') = fst (?g schedule)" by (simp add: run_started_group_ends[OF assms(1)])
  with concluded_sends_shared[OF assms(2)[unfolded run]] show ?thesis unfolding run by auto
qed


definition act_step :: "(unit, unit) step_state" where
  "act_step = \<lparr>st_state = counter_state (JUint 0) 0, st_shared = act_shared, st_failure = None, st_trace = [], st_start = None,
     st_interrupts = [], st_interrupt_cp = [], st_barrier_stall = None, st_failure_exit = None\<rparr>"

lemma act_fan_out:
  "fst (run_parallel flaky_executor [] [''act'', ''b''] 0 [] ''c1'' [] act_step) = Inr [bump_result, bump_result]"
  by code_simp

lemma act_uncoupled: "uncoupled flaky_executor (st_shared act_step)"
  by (simp add: uncoupled_def flaky_executor_def act_step_def act_shared_def)


end
