(* ===== verification/NG_Stall.thy ===== *)
theory NG_Stall
  imports NG_Scheduler
begin

text \<open>
  The report on stalled barriers (\<open>stalled_barriers\<close> and \<open>add_stall_paths\<close> in
  \<open>src/src/core/graph_engine.cpp\<close>, \<open>print_wait_for\<close> in \<open>src/src/core/graph_compiler.cpp\<close>): which barriers and
  joins still hold signals when a run stops with nothing ready, what they wait for, and by which route
  of nodes that ran a missing member was bypassed.
\<close>

section \<open>Printing slots\<close>

text \<open>
  \<open>canonical_slots\<close> orders slots by their first member, the empty slot first. \<open>std::sort\<close> may order slots with
  the same first member either way; the model keeps their order.
\<close>

definition canonical_slots :: "string list list \<Rightarrow> string list list" where
  "canonical_slots slots = sort_key (take 1) slots"

definition print_slot :: "string list \<Rightarrow> json" where
  "print_slot slot =
     (case slot of [source] \<Rightarrow> JString source | _ \<Rightarrow> JObject [(''any_of'', JArray (map JString slot))])"

definition print_wait_for :: "string list list \<Rightarrow> json" where
  "print_wait_for slots = JArray (map print_slot (canonical_slots slots))"

section \<open>The search for a route\<close>

text \<open>The routes the scheduler may take from a node.\<close>

definition stall_successors :: "'s scheduler \<Rightarrow> string \<Rightarrow> string list" where
  "stall_successors sch from =
     (case failure_target sch from of None \<Rightarrow> [] | Some t \<Rightarrow> [t]) @
     (case find (\<lambda>ce. ce_from ce = from) (conditional_edges sch) of
        Some ce \<Rightarrow> map snd (ce_routes ce)
      | None \<Rightarrow> map edge_to (filter (\<lambda>e. edge_from e = from) (edges sch)))"

type_synonym parents = "(string \<times> string) list"

text \<open>The successors of one node: the first signaler found, the nodes reached and the queue.\<close>

fun scan_successors ::
    "string list \<Rightarrow> string list \<Rightarrow> string \<Rightarrow> string list \<Rightarrow> parents \<Rightarrow> string list \<Rightarrow>
     string option \<times> parents \<times> string list" where
  "scan_successors executed received current [] parent queue = (None, parent, queue)"
| "scan_successors executed received current (nxt # nexts) parent queue =
     (if nxt \<notin> set executed \<or> map_of parent nxt \<noteq> None
      then scan_successors executed received current nexts parent queue
      else if nxt \<in> set received then (Some nxt, smap_put nxt current parent, queue)
      else scan_successors executed received current nexts (smap_put nxt current parent) (queue @ [nxt]))"

definition unreached :: "string list \<Rightarrow> parents \<Rightarrow> nat" where
  "unreached executed parent = card (set executed - fst ` set parent)"

lemma scan_successors_work:
  "scan_successors executed received current nexts parent queue = (r, parent', queue') \<Longrightarrow>
     length queue' + unreached executed parent' \<le> length queue + unreached executed parent"
proof (induction nexts arbitrary: parent queue)
  case (Cons nxt nexts)
  show ?case
  proof (cases "nxt \<notin> set executed \<or> map_of parent nxt \<noteq> None")
    case True
    with Cons show ?thesis by simp
  next
    case False
    then have "nxt \<in> set executed - fst ` set parent" by (simp add: map_of_eq_None_iff)
    then have "Suc (unreached executed (smap_put nxt current parent)) = unreached executed parent"
      unfolding unreached_def smap_keys_put
      by (metis (no_types, lifting) Diff_insert card_Suc_Diff1 finite_Diff finite_set)
    with Cons False show ?thesis by (fastforce split: if_splits)
  qed
qed simp

lemma search_work:
  assumes "(a, b) = scan_successors executed received current nexts parent queue" "(parent', queue') = b"
  shows "length queue' + unreached executed parent' < length (current # queue) + unreached executed parent"
  using scan_successors_work[of executed received current nexts parent queue a parent' queue'] assms by simp

function search_signaler ::
    "(string \<Rightarrow> string list) \<Rightarrow> string list \<Rightarrow> string list \<Rightarrow> parents \<Rightarrow> string list \<Rightarrow> string option \<times> parents" where
  "search_signaler succs executed received parent [] = (None, parent)"
| "search_signaler succs executed received parent (current # queue) =
     (case scan_successors executed received current (succs current) parent queue of
        (Some reached, parent', _) \<Rightarrow> (Some reached, parent')
      | (None, parent', queue') \<Rightarrow> search_signaler succs executed received parent' queue')"
  by pat_completeness auto

termination
  by (relation "measure (\<lambda>(succs, executed, received, parent, queue). length queue + unreached executed parent)")
    (rule wf_measure, unfold in_measure prod.case, erule (1) search_work)

text \<open>The walk back from the signaler to the member; a missing parent reads as the empty name.\<close>

fun walk_back :: "parents \<Rightarrow> string \<Rightarrow> nat \<Rightarrow> string \<Rightarrow> string list" where
  "walk_back parent member 0 node = [node]"
| "walk_back parent member (Suc fuel) node =
     (if node = member then [node]
      else node # walk_back parent member fuel (case map_of parent node of None \<Rightarrow> [] | Some p \<Rightarrow> p))"

definition stall_path ::
    "(string \<Rightarrow> string list) \<Rightarrow> string list \<Rightarrow> string list \<Rightarrow> string \<Rightarrow> string list option" where
  "stall_path succs executed received member =
     (if member \<notin> set executed then None
      else case search_signaler succs executed received [(member, member)] [member] of
             (None, _) \<Rightarrow> None
           | (Some reached, parent) \<Rightarrow> Some (rev (walk_back parent member (length parent) reached)))"

section \<open>The report\<close>

definition stall_paths ::
    "(string \<Rightarrow> string list) \<Rightarrow> string list \<Rightarrow> string list \<Rightarrow> string list \<Rightarrow> (string \<times> string list) list" where
  "stall_paths succs executed received members =
     List.map_filter (\<lambda>m. map_option (Pair m) (stall_path succs executed received m)) members"

definition paths_json :: "(string \<times> string list) list \<Rightarrow> json" where
  "paths_json paths = fold (\<lambda>(m, path). json_set m (JArray (map JString path))) paths (JObject [])"

definition add_stall_paths ::
    "json \<Rightarrow> string list list \<Rightarrow> string list \<Rightarrow> string list \<Rightarrow> string list \<Rightarrow> (string \<Rightarrow> string list) \<Rightarrow> json" where
  "add_stall_paths stall slots missing_members received executed succs =
     (case stall_paths succs executed received missing_members of
        [] \<Rightarrow> stall
      | (member, path) # paths \<Rightarrow>
          (let stall' = json_set ''paths'' (paths_json ((member, path) # paths)) stall;
               reached = List.last path
           in if list_ex (\<lambda>slot. reached \<in> set slot) slots then stall'
              else json_set ''suggested_wait_for''
                     (print_wait_for (map (\<lambda>slot. if member \<in> set slot then sset_insert reached slot else slot) slots))
                     stall'))"

definition slot_filled :: "string list \<Rightarrow> string list \<Rightarrow> bool" where
  "slot_filled received slot \<longleftrightarrow> list_ex (\<lambda>source. source \<in> set received) slot"

definition join_stall ::
    "string \<Rightarrow> string list \<Rightarrow> string list list \<Rightarrow> string list \<Rightarrow> (string \<Rightarrow> string list) \<Rightarrow> json" where
  "join_stall node received slots executed succs =
     (let missing = filter (\<lambda>slot. \<not> slot_filled received slot) slots
      in add_stall_paths
           (JObject [(''node'', JString node), (''wait_for'', print_wait_for slots),
                     (''received'', JArray (map JString received)), (''missing'', print_wait_for missing)])
           slots (concat missing) received executed succs)"

definition barrier_stall ::
    "string \<Rightarrow> string list \<Rightarrow> string list \<Rightarrow> string list \<Rightarrow> (string \<Rightarrow> string list) \<Rightarrow> json" where
  "barrier_stall node received spec executed succs =
     (let missing = filter (\<lambda>member. member \<notin> set received) spec
      in add_stall_paths
           (JObject [(''node'', JString node), (''wait_for'', JArray (map JString spec)),
                     (''received'', JArray (map JString received)), (''missing'', JArray (map JString missing))])
           (map (\<lambda>member. [member]) spec) missing received executed succs)"

definition stall_of ::
    "'s scheduler \<Rightarrow> string list \<Rightarrow> string \<times> string list \<Rightarrow> json option" where
  "stall_of sch executed entry =
     (case entry of (node, received) \<Rightarrow>
        if received = [] then None
        else case map_of (join_specs sch) node of
               Some slots \<Rightarrow> Some (join_stall node received slots executed (stall_successors sch))
             | None \<Rightarrow> map_option (\<lambda>spec. barrier_stall node received spec executed (stall_successors sch))
                         (map_of (barrier_specs sch) node))"

text \<open>\<open>trace\<close> lists the nodes that ran.\<close>

definition stalled_barriers :: "'s scheduler \<Rightarrow> barrier_state \<Rightarrow> string list \<Rightarrow> json list" where
  "stalled_barriers sch bstate trace = List.map_filter (stall_of sch trace) bstate"

text \<open>A gate left holding signals.\<close>

definition holds_signals :: "'s scheduler \<Rightarrow> string \<times> string list \<Rightarrow> bool" where
  "holds_signals sch entry \<longleftrightarrow> snd entry \<noteq> [] \<and> is_barrier sch (fst entry)"

lemma stall_of_None: "stall_of sch executed entry = None \<longleftrightarrow> \<not> holds_signals sch entry"
  by (auto simp: stall_of_def holds_signals_def is_barrier_def split: prod.splits option.splits)

lemma add_stall_paths_node: "json_get (add_stall_paths (JObject m) slots missing received executed succs) ''node'' = json_get (JObject m) ''node''"
  by (auto simp: add_stall_paths_def Let_def split: list.splits simp del: json_get.simps json_set.simps)

lemma stall_of_node: "stall_of sch executed entry = Some stall \<Longrightarrow> json_get stall ''node'' = JString (fst entry)"
  by (auto simp: stall_of_def join_stall_def barrier_stall_def Let_def add_stall_paths_node simp del: json_set.simps
      split: prod.splits option.splits if_splits)

lemma stalled_barriers_nodes:
  "map (\<lambda>stall. json_get stall ''node'') (stalled_barriers sch bstate trace) =
     map (\<lambda>entry. JString (fst entry)) (filter (holds_signals sch) bstate)"
proof (induction bstate)
  case (Cons entry bstate)
  then show ?case using stall_of_None[of sch trace entry] stall_of_node[of sch trace entry]
    by (cases "stall_of sch trace entry") (simp_all add: stalled_barriers_def List.map_filter_simps)
qed (simp add: stalled_barriers_def List.map_filter_simps)

section \<open>What the search finds\<close>

definition route_of :: "(string \<Rightarrow> string list) \<Rightarrow> string list \<Rightarrow> string list \<Rightarrow> bool" where
  "route_of succs executed path \<longleftrightarrow>
     path \<noteq> [] \<and> set path \<subseteq> set executed \<and> successively (\<lambda>a b. b \<in> set (succs a)) path"

text \<open>A chain of \<open>n\<close> parents from a reached node to the member.\<close>

fun chain :: "(string \<Rightarrow> string list) \<Rightarrow> string \<Rightarrow> parents \<Rightarrow> nat \<Rightarrow> string \<Rightarrow> bool" where
  "chain succs member parent 0 k \<longleftrightarrow> k = member"
| "chain succs member parent (Suc n) k \<longleftrightarrow>
     k \<noteq> member \<and> (\<exists>p. map_of parent k = Some p \<and> k \<in> set (succs p) \<and> chain succs member parent n p)"

definition reached_nodes :: "parents \<Rightarrow> string set" where
  "reached_nodes parent = fst ` set parent"

lemma reached_nodes_put [simp]: "reached_nodes (smap_put x y parent) = insert x (reached_nodes parent)"
  by (simp add: reached_nodes_def)

lemma reached_iff: "map_of parent x = None \<longleftrightarrow> x \<notin> reached_nodes parent"
  by (simp add: reached_nodes_def map_of_eq_None_iff)

lemma reached_SomeD: "map_of parent x = Some y \<Longrightarrow> x \<in> reached_nodes parent"
  using reached_iff[of parent x] by fastforce

definition reached_ok :: "(string \<Rightarrow> string list) \<Rightarrow> string list \<Rightarrow> string \<Rightarrow> parents \<Rightarrow> bool" where
  "reached_ok succs executed member parent \<longleftrightarrow>
     member \<in> reached_nodes parent \<and> reached_nodes parent \<subseteq> set executed \<and>
     (\<forall>k \<in> reached_nodes parent. \<exists>n < length parent. chain succs member parent n k)"

lemma chain_put: "map_of parent x = None \<Longrightarrow> chain succs member parent n k \<Longrightarrow> chain succs member (smap_put x y parent) n k"
  by (induction n arbitrary: k) auto

lemma smap_put_length: "length parent < length (smap_put x y parent) \<or> map_of parent x \<noteq> None"
  by (induction parent) auto

lemma reached_ok_put:
  assumes "reached_ok succs executed member parent" "x \<in> set executed" "map_of parent x = None"
    "current \<in> reached_nodes parent" "x \<in> set (succs current)"
  shows "reached_ok succs executed member (smap_put x current parent)"
proof -
  have longer: "length parent < length (smap_put x current parent)" using smap_put_length[of parent x current] assms(3) by simp
  have "x \<noteq> member" using assms(1,3) by (auto simp: reached_ok_def reached_iff)
  moreover obtain n where "n < length parent" "chain succs member parent n current"
    using assms(1,4) by (auto simp: reached_ok_def)
  ultimately have "\<exists>n < length (smap_put x current parent). chain succs member (smap_put x current parent) n x"
    using longer assms(3,5) chain_put[OF assms(3)] by (intro exI[of _ "Suc n"]) auto
  moreover have "\<exists>n < length (smap_put x current parent). chain succs member (smap_put x current parent) n k"
    if k: "k \<in> reached_nodes parent" for k
  proof -
    from assms(1) k obtain n where "n < length parent" "chain succs member parent n k" unfolding reached_ok_def by blast
    with longer chain_put[OF assms(3)] show ?thesis by (meson less_trans)
  qed
  ultimately show ?thesis using assms(1,2) by (auto simp: reached_ok_def)
qed

text \<open>The state of the search: what is reached is linked to the member and unsignalled, and what is not queued is closed.\<close>

definition search_inv ::
    "(string \<Rightarrow> string list) \<Rightarrow> string list \<Rightarrow> string list \<Rightarrow> string \<Rightarrow> parents \<Rightarrow> string list \<Rightarrow> bool" where
  "search_inv succs executed received member parent queue \<longleftrightarrow>
     reached_ok succs executed member parent \<and> set queue \<subseteq> reached_nodes parent \<and>
     reached_nodes parent \<inter> set received = {} \<and>
     (\<forall>k \<in> reached_nodes parent - set queue. set (succs k) \<inter> set executed \<subseteq> reached_nodes parent)"

lemma scan_found:
  assumes "scan_successors executed received current nexts parent queue = (Some r, parent', queue')"
    "reached_ok succs executed member parent" "current \<in> reached_nodes parent" "set nexts \<subseteq> set (succs current)"
  shows "r \<in> set received \<and> r \<in> reached_nodes parent' \<and> reached_ok succs executed member parent'"
  using assms
proof (induction nexts arbitrary: parent queue)
  case (Cons nxt nexts)
  show ?case
  proof (cases "nxt \<notin> set executed \<or> map_of parent nxt \<noteq> None")
    case True
    with Cons.IH[of parent queue] Cons.prems show ?thesis by auto
  next
    case False
    have ok: "reached_ok succs executed member (smap_put nxt current parent)"
      using reached_ok_put[OF Cons.prems(2)] False Cons.prems(3,4) by simp
    show ?thesis
    proof (cases "nxt \<in> set received")
      case True
      with False ok Cons.prems(1) show ?thesis by auto
    next
      case unsignalled: False
      with False have "scan_successors executed received current nexts (smap_put nxt current parent) (queue @ [nxt]) =
          (Some r, parent', queue')" using Cons.prems(1) by simp
      from Cons.IH[OF this ok] Cons.prems(3,4) show ?thesis by simp
    qed
  qed
qed simp

lemma scan_exhausted:
  assumes "scan_successors executed received current nexts parent queue = (None, parent', queue')"
    "reached_ok succs executed member parent" "current \<in> reached_nodes parent" "set nexts \<subseteq> set (succs current)"
    "set queue \<subseteq> reached_nodes parent" "reached_nodes parent \<inter> set received = {}"
  shows "reached_ok succs executed member parent' \<and> set queue' \<subseteq> reached_nodes parent' \<and>
     reached_nodes parent' \<inter> set received = {} \<and> reached_nodes parent \<subseteq> reached_nodes parent' \<and> set queue \<subseteq> set queue' \<and>
     reached_nodes parent' - set queue' \<subseteq> reached_nodes parent - set queue \<and>
     set nexts \<inter> set executed \<subseteq> reached_nodes parent'"
  using assms
proof (induction nexts arbitrary: parent queue)
  case (Cons nxt nexts)
  show ?case
  proof (cases "nxt \<notin> set executed \<or> map_of parent nxt \<noteq> None")
    case True
    with Cons.IH[of parent queue] Cons.prems show ?thesis by (auto simp: reached_iff)
  next
    case False
    have new: "nxt \<notin> reached_nodes parent" using False reached_iff by blast
    have scan: "scan_successors executed received current nexts (smap_put nxt current parent) (queue @ [nxt]) = (None, parent', queue')"
      and free: "nxt \<notin> set received" using Cons.prems(1) False by (auto split: if_splits)
    have ok: "reached_ok succs executed member (smap_put nxt current parent)"
      using reached_ok_put[OF Cons.prems(2)] False Cons.prems(3,4) by simp
    have IH: "reached_ok succs executed member parent' \<and> set queue' \<subseteq> reached_nodes parent' \<and>
       reached_nodes parent' \<inter> set received = {} \<and> insert nxt (reached_nodes parent) \<subseteq> reached_nodes parent' \<and>
       set (queue @ [nxt]) \<subseteq> set queue' \<and>
       reached_nodes parent' - set queue' \<subseteq> insert nxt (reached_nodes parent) - set (queue @ [nxt]) \<and>
       set nexts \<inter> set executed \<subseteq> reached_nodes parent'"
      using Cons.IH[OF scan ok, unfolded reached_nodes_put] Cons.prems(3-6) free
      by (simp add: subset_insertI2)
    then show ?thesis using new by auto
  qed
qed simp

lemma search_inv_step:
  assumes "search_inv succs executed received member parent (current # queue)"
    "scan_successors executed received current (succs current) parent queue = (None, parent', queue')"
  shows "search_inv succs executed received member parent' queue'"
proof -
  have cur: "current \<in> reached_nodes parent" and q: "set queue \<subseteq> reached_nodes parent" and ok: "reached_ok succs executed member parent"
    and free: "reached_nodes parent \<inter> set received = {}"
    and closed: "\<forall>k \<in> reached_nodes parent - set (current # queue). set (succs k) \<inter> set executed \<subseteq> reached_nodes parent"
    using assms(1) by (simp_all add: search_inv_def)
  note scan = scan_exhausted[OF assms(2) ok cur subset_refl q free]
  have "set (succs k) \<inter> set executed \<subseteq> reached_nodes parent'" if k: "k \<in> reached_nodes parent' - set queue'" for k
  proof (cases "k = current")
    case True
    with scan show ?thesis by blast
  next
    case False
    from scan k have "k \<in> reached_nodes parent - set queue" by blast
    with False have "k \<in> reached_nodes parent - set (current # queue)" by simp
    with closed scan show ?thesis by blast
  qed
  with scan show ?thesis unfolding search_inv_def by blast
qed

lemma search_signaler_spec:
  assumes "search_inv succs executed received member parent queue"
    "search_signaler succs executed received parent queue = (r, parent')"
  shows "(case r of
       Some x \<Rightarrow> x \<in> set received \<and> x \<in> reached_nodes parent' \<and> reached_ok succs executed member parent'
     | None \<Rightarrow> search_inv succs executed received member parent' [])"
  using assms
proof (induction succs executed received parent queue rule: search_signaler.induct)
  case (2 succs executed received parent current queue)
  obtain f p' q' where scan: "scan_successors executed received current (succs current) parent queue = (f, p', q')"
    by (cases "scan_successors executed received current (succs current) parent queue") auto
  show ?case
  proof (cases f)
    case None
    with search_inv_step[OF 2(2)] scan have "search_inv succs executed received member p' q'" by simp
    with 2(1)[OF scan[symmetric] None, of p' q'] 2(3) scan None show ?thesis by simp
  next
    case (Some x)
    with 2(2,3) scan scan_found[of executed received current "succs current" parent queue x p' q' succs member]
    show ?thesis by (auto simp: search_inv_def)
  qed
qed simp

lemma walk_back_chain:
  "chain succs member parent n k \<Longrightarrow> n \<le> fuel \<Longrightarrow> reached_nodes parent \<subseteq> set executed \<Longrightarrow> k \<in> reached_nodes parent \<Longrightarrow>
     member \<in> reached_nodes parent \<Longrightarrow>
     route_of succs executed (rev (walk_back parent member fuel k)) \<and>
     hd (rev (walk_back parent member fuel k)) = member \<and> List.last (rev (walk_back parent member fuel k)) = k"
proof (induction n arbitrary: k fuel)
  case 0
  then show ?case by (cases fuel) (auto simp: route_of_def)
next
  case (Suc n)
  then obtain p f where p: "map_of parent k = Some p" "k \<in> set (succs p)" "chain succs member parent n p" "fuel = Suc f"
    "k \<noteq> member" by (cases fuel) auto
  have key: "p \<in> reached_nodes parent" using p(3) Suc.prems(5) by (cases n) (auto dest: reached_SomeD)
  from Suc.IH[OF p(3) _ Suc.prems(3) key Suc.prems(5), of f] Suc.prems(2-4) p show ?case
    by (auto simp: route_of_def successively_append_iff)
qed

lemma route_stays:
  assumes "search_inv succs executed received member parent []" "route_of succs executed path" "hd path = member"
  shows "set path \<subseteq> reached_nodes parent"
  using assms(2,3)
proof (induction path rule: rev_induct)
  case (snoc x path)
  show ?case
  proof (cases "path = []")
    case True
    with snoc assms(1) show ?thesis by (simp add: search_inv_def reached_ok_def)
  next
    case False
    have IH: "set path \<subseteq> reached_nodes parent" using snoc False by (auto simp: route_of_def successively_append_iff)
    then have "List.last path \<in> reached_nodes parent" using False by (meson last_in_set subsetD)
    moreover have "x \<in> set (succs (List.last path))" "x \<in> set executed"
      using snoc.prems False by (auto simp: route_of_def successively_append_iff)
    ultimately have "x \<in> reached_nodes parent" using assms(1) by (fastforce simp: search_inv_def)
    with IH show ?thesis by simp
  qed
qed (simp add: route_of_def)

section \<open>Properties\<close>

text \<open>C27: The route a stall report gives for a missing member is exact: when some sequence of routes through
nodes that ran leads from the member to a node that signaled the barrier, the report has one, which starts
at the member, ends at a signaler and takes only routes of the graph between nodes that ran; when there is
none, the report has none.\<close>

theorem stall_path_exact:
  assumes "member \<notin> set received"
  shows "case stall_path succs executed received member of
      Some path \<Rightarrow> route_of succs executed path \<and> hd path = member \<and> List.last path \<in> set received
    | None \<Rightarrow> \<not> (\<exists>path. route_of succs executed path \<and> hd path = member \<and> List.last path \<in> set received)"
proof (cases "member \<in> set executed")
  case False
  have "hd path \<noteq> member" if "route_of succs executed path" for path
    using that False by (metis hd_in_set route_of_def subsetD)
  with False show ?thesis by (auto simp: stall_path_def)
next
  case True
  then have init: "search_inv succs executed received member [(member, member)] [member]"
    using assms by (simp add: search_inv_def reached_ok_def reached_nodes_def)
  obtain r parent where search: "search_signaler succs executed received [(member, member)] [member] = (r, parent)" by fastforce
  note spec = search_signaler_spec[OF init search]
  show ?thesis
  proof (cases r)
    case None
    have "List.last path \<notin> set received" if "route_of succs executed path" "hd path = member" for path
    proof -
      have inv: "search_inv succs executed received member parent []" using spec None by simp
      have "List.last path \<in> set path" using that(1) by (simp add: route_of_def)
      with route_stays[OF inv that] have "List.last path \<in> reached_nodes parent" by blast
      moreover have "reached_nodes parent \<inter> set received = {}" using inv by (simp add: search_inv_def)
      ultimately show ?thesis by blast
    qed
    with None True search show ?thesis by (auto simp: stall_path_def)
  next
    case (Some x)
    then obtain n where "n < length parent" "chain succs member parent n x"
      using spec by (auto simp: reached_ok_def)
    with walk_back_chain[of succs member parent n x "length parent" executed] spec Some True search show ?thesis
      by (simp add: stall_path_def reached_ok_def)
  qed
qed

definition skipped_successors :: "string \<Rightarrow> string list" where
  "skipped_successors node = (if node = ''review'' then [''fix'', ''join''] else if node = ''fix'' then [''join''] else [])"

theorem stall_path_exact_witness:
  "stall_path skipped_successors [''draft'', ''review'', ''fix''] [''draft'', ''fix''] ''review'' = Some [''review'', ''fix''] \<and>
   route_of skipped_successors [''draft'', ''review'', ''fix''] [''review'', ''fix'']"
proof -
  have path: "stall_path skipped_successors [''draft'', ''review'', ''fix''] [''draft'', ''fix''] ''review'' = Some [''review'', ''fix'']"
    by code_simp
  from stall_path_exact[of "''review''" "[''draft'', ''fix'']" skipped_successors "[''draft'', ''review'', ''fix'']"] path
  show ?thesis by simp
qed

end
