(* ===== verification/NG_Run.thy ===== *)
theory NG_Run
  imports NG_SuperStep NG_SafePoint NG_Stall
begin

text \<open>
  A run of the engine (\<open>execute_graph_async\<close>, \<open>resume_execute_async\<close> in \<open>src/src/core/graph_engine.cpp\<close>, the
  gate answers of \<open>src/src/core/run_context_runtime.cpp\<close>): what a fresh run and a resume start from, and the
  super-step loop with its gates, pauses, planning, commits and results.

  \<open>super_step\<close> is one iteration of the loop, \<open>run_loop\<close> the loop. What other threads do to a run is a function
  of the step: whether the budget flag is set or the token cancelled when the step begins, whether a
  safe point is requested before the step's commit, and the schedules of its fan-outs. Threads with a
  managed budget, stateful subgraphs and the event callback are not modelled; the messages of a
  provider are read through two functions: the text of a final response, and whether client tool
  calls wait for results.
\<close>

section \<open>Configuration and results\<close>

record ('n, 'm) runner =
  ru_executor :: "('n, 'm) executor"
  ru_scheduler :: "'m graph_state scheduler"
  ru_interrupt_before :: "string list"
  ru_interrupt_after :: "string list"
  ru_generation :: "generation_identity option"
  ru_budget_exhausted :: "int \<Rightarrow> bool"
  ru_cancelled :: "int \<Rightarrow> bool"
  ru_safe_point_asked :: "int \<Rightarrow> bool"
  ru_cancelled_at_commit :: "int \<Rightarrow> bool"
  ru_schedule :: "int \<Rightarrow> nat list"
  ru_send_schedule :: "int \<Rightarrow> nat list"
  ru_final_response :: "'m list \<Rightarrow> string option"
  ru_tool_calls_pending :: "'m list \<Rightarrow> bool"

record 'm run_config =
  cf_input :: json
  cf_max_steps :: int
  cf_resume_if_exists :: bool
  cf_provider_messages :: "'m channel_write option"
  cf_resume_interrupt_id :: string

record 'm run_result =
  res_output :: json
  res_interrupted :: bool
  res_interrupt_node :: string
  res_interrupt_value :: json
  res_interrupts :: "pending_interrupt list"
  res_interrupt_id :: string
  res_checkpoint_id :: string
  res_trace :: "string list"
  res_messages :: "'m list"

text \<open>What the loop keeps between steps.\<close>

record ('n, 'm) run_state =
  lp_step :: "('n, 'm) step_state"
  lp_ready :: "string list"
  lp_last_cp :: string
  lp_barriers :: barrier_state
  lp_replay :: "(string \<times> 'm node_result) list"
  lp_arrivals :: "(string \<times> json) list"
  lp_safe :: "(generation_identity \<times> 'n safe_point_request) option"

text \<open>The gates a resume answers.\<close>

type_synonym gate_answer = "string \<times> json option"

record resumed_gates =
  rg_start_step :: "int option"
  rg_answers_gate :: bool
  rg_gate_answers :: "gate_answer list"

definition no_gates :: resumed_gates where
  "no_gates = \<lparr>rg_start_step = None, rg_answers_gate = False, rg_gate_answers = []\<rparr>"

datatype 'm loop_end = Continue | Break | Return "'m run_result" | Throw exn

definition kFirstStepAnchorNode :: string where
  "kFirstStepAnchorNode = ''__first_step_anchor__''"

definition ru_coordinator :: "('n, 'm) runner \<Rightarrow> coordinator" where
  "ru_coordinator ru = ex_coordinator (ru_executor ru)"

definition ru_enabled :: "('n, 'm) runner \<Rightarrow> bool" where
  "ru_enabled ru \<longleftrightarrow> co_enabled (ru_coordinator ru)"

definition native_messages :: "'m graph_state \<Rightarrow> 'm list" where
  "native_messages st = (case captured_provider_messages st ''messages'' of None \<Rightarrow> [] | Some ms \<Rightarrow> ms)"

text \<open>The parts every result has.\<close>

definition report :: "('n, 'm) runner \<Rightarrow> ('n, 'm) run_state \<Rightarrow> 'm run_result" where
  "report ru lp =
     \<lparr>res_output = runtime_snapshot (ru_executor ru) (st_state (lp_step lp)), res_interrupted = False,
      res_interrupt_node = [], res_interrupt_value = JNull, res_interrupts = [], res_interrupt_id = [],
      res_checkpoint_id = [], res_trace = st_trace (lp_step lp), res_messages = native_messages (st_state (lp_step lp))\<rparr>"

definition max_steps_mark :: json where
  "max_steps_mark = JObject [(''max_steps_exhausted'', JBool True)]"

definition between_steps :: "('n, 'm) runner \<Rightarrow> ('n, 'm) run_state \<Rightarrow> json" where
  "between_steps ru lp = checkpoint_metadata_for (ru_executor ru) BetweenSteps (lp_step lp)"

definition save_between ::
    "('n, 'm) runner \<Rightarrow> checkpoint_phase \<Rightarrow> string \<Rightarrow> string list \<Rightarrow> int \<Rightarrow> json \<Rightarrow> ('n, 'm) run_state \<Rightarrow>
     (error + string) \<times> ('n, 'm) run_state" where
  "save_between ru phase node next_nodes step metadata lp =
     (case save_step (ru_executor ru) (st_state (lp_step lp)) phase
             (step_boundary_of node next_nodes step (lp_last_cp lp) (lp_barriers lp) metadata) (lp_step lp) of
        (r, rs) \<Rightarrow> (r, lp\<lparr>lp_step := rs\<rparr>))"

definition commit_step ::
    "('n, 'm) runner \<Rightarrow> string list \<Rightarrow> int \<Rightarrow> string \<Rightarrow> ('n, 'm) run_state \<Rightarrow> (error + 'n checkpoint) \<times> ('n, 'm) run_state" where
  "commit_step ru next_nodes step empty_tag lp =
     (let ex = ru_executor ru; rs = lp_step lp; sh = st_shared rs;
          trace_tag = (if st_trace rs = [] then empty_tag @ int_to_string step else List.last (st_trace rs))
      in case commit_super_step (ex_coordinator ex) (en_provider (ex_engine ex)) (ex_new_id ex (sh_tick sh))
                (ex_clock ex (sh_tick sh)) (st_state rs)
                (step_boundary_of trace_tag next_nodes step (lp_last_cp lp) (lp_barriers lp) (between_steps ru lp))
                (sh_store sh) of
           (r, s) \<Rightarrow> (r, lp\<lparr>lp_step := rs\<lparr>st_shared := sh\<lparr>sh_store := s, sh_tick := sh_tick sh + 1\<rparr>\<rparr>\<rparr>))"

section \<open>Gates before a step\<close>

definition with_gate_answers :: "json \<Rightarrow> gate_answer list \<Rightarrow> json" where
  "with_gate_answers metadata answers =
     (if answers = [] then metadata
      else set_owned ''answered_gates''
             (JArray (map (\<lambda>(i, v). case v of None \<Rightarrow> JObject [(''id'', JString i)]
                                            | Some j \<Rightarrow> JObject [(''id'', JString i), (''value'', j)]) answers))
             (if is_null metadata then JObject [] else metadata))"

definition resumed_step :: "resumed_gates \<Rightarrow> int \<Rightarrow> bool" where
  "resumed_step g step \<longleftrightarrow> rg_start_step g = Some step"

definition gate_open :: "resumed_gates \<Rightarrow> int \<Rightarrow> string \<Rightarrow> bool" where
  "gate_open g step node \<longleftrightarrow> resumed_step g step \<and> make_static_task_id step node \<in> fst ` set (rg_gate_answers g)"

definition held_node :: "('n, 'm) runner \<Rightarrow> resumed_gates \<Rightarrow> int \<Rightarrow> string list \<Rightarrow> string option" where
  "held_node ru g step rdy =
     (if resumed_step g step \<and> rg_answers_gate g \<and> rg_gate_answers g = [] then None
      else find (\<lambda>n. n \<in> set (ru_interrupt_before ru) \<and> ru_enabled ru \<and> \<not> gate_open g step n) rdy)"

definition before_value :: "string \<Rightarrow> json option \<Rightarrow> json" where
  "before_value node arrival =
     (let iv = JObject [(''message'', JString (''Interrupt before node: '' @ node))]
      in case arrival of None \<Rightarrow> iv
         | Some rec \<Rightarrow> json_set ''failure'' rec (json_set ''reason'' (JString ''failure_route'') iv))"

definition interrupted_result :: "string \<Rightarrow> json \<Rightarrow> string \<Rightarrow> 'm run_result \<Rightarrow> 'm run_result" where
  "interrupted_result node v cp r =
     r\<lparr>res_interrupted := True, res_interrupt_node := node, res_interrupt_value := v, res_checkpoint_id := cp\<rparr>"

definition pause_before ::
    "('n, 'm) runner \<Rightarrow> resumed_gates \<Rightarrow> int \<Rightarrow> string \<Rightarrow> ('n, 'm) run_state \<Rightarrow> 'm loop_end \<times> ('n, 'm) run_state" where
  "pause_before ru g step node lp =
     (let metadata = (if resumed_step g step then with_gate_answers (between_steps ru lp) (rg_gate_answers g)
                      else between_steps ru lp)
      in case save_between ru Before node (lp_ready lp) step metadata lp of
           (Inl e, lp') \<Rightarrow> (Throw (exn_of_error e), lp')
         | (Inr cp, lp') \<Rightarrow>
             (Return (interrupted_result node (before_value node (map_of (lp_arrivals lp) node)) cp (report ru lp')), lp'))"

section \<open>Running the ready nodes and their sends\<close>

definition run_ready ::
    "('n, 'm) runner \<Rightarrow> int \<Rightarrow> ('n, 'm) run_state \<Rightarrow> (exn + 'm node_result list) \<times> ('n, 'm) run_state" where
  "run_ready ru step lp =
     (case lp_ready lp of
        [node] \<Rightarrow>
          (case run_one (ru_executor ru) node step (lp_replay lp) (lp_last_cp lp) (lp_barriers lp) (lp_step lp) of
             (r, rs) \<Rightarrow> (case r of Inl e \<Rightarrow> Inl e | Inr nr \<Rightarrow> Inr [nr], lp\<lparr>lp_step := rs\<rparr>))
      | _ \<Rightarrow>
          (case (if ru_enabled ru \<and> lp_last_cp lp = []
                 then save_between ru Before kFirstStepAnchorNode (lp_ready lp) step (between_steps ru lp) lp
                 else (Inr (lp_last_cp lp), lp)) of
             (Inl e, lp1) \<Rightarrow> (Inl (exn_of_error e), lp1)
           | (Inr cp, lp1) \<Rightarrow>
               (case run_parallel (ru_executor ru) (ru_schedule ru step) (lp_ready lp) step (lp_replay lp) cp (lp_barriers lp)
                       (lp_step lp1) of
                  (r, rs) \<Rightarrow> (r, lp1\<lparr>lp_step := rs, lp_last_cp := cp\<rparr>))))"

definition collect_sends :: "string list \<Rightarrow> 'm node_result list \<Rightarrow> send list" where
  "collect_sends rdy results =
     concat (map (\<lambda>(node, nr). map (\<lambda>s. s\<lparr>source_node := node\<rparr>) (nr_sends nr)) (zip rdy results))"

definition run_pending_sends ::
    "('n, 'm) runner \<Rightarrow> int \<Rightarrow> 'm node_result list \<Rightarrow> ('n, 'm) run_state \<Rightarrow>
     (exn + (step_routing \<times> json) list) \<times> ('n, 'm) run_state" where
  "run_pending_sends ru step results lp =
     (let sends = collect_sends (lp_ready lp) results;
          ss = \<lparr>ss_ready = lp_ready lp, ss_results = results, ss_barrier_state = lp_barriers lp\<rparr>
      in if sends = [] then (Inr [], lp)
         else case (if ru_enabled ru \<and> lp_last_cp lp = []
                    then save_send_step_anchor (ru_executor ru) ss kFirstStepAnchorNode step (lp_step lp)
                    else (Inr (lp_last_cp lp), lp_step lp)) of
                (Inl e, rs1) \<Rightarrow> (Inl e, lp\<lparr>lp_step := rs1\<rparr>)
              | (Inr cp, rs1) \<Rightarrow>
                  (case run_sends (ru_executor ru) (ru_send_schedule ru step) sends step (lp_replay lp) cp (Some ss) rs1 of
                     (r, rs2) \<Rightarrow> (r, lp\<lparr>lp_step := rs2, lp_last_cp := cp\<rparr>)))"

definition begin_step :: "('n, 'm) run_state \<Rightarrow> ('n, 'm) run_state" where
  "begin_step lp =
     (let rs = lp_step lp
      in lp\<lparr>lp_arrivals := [],
            lp_step := rs\<lparr>st_failure := map_option mark_step_start (st_failure rs), st_start := None,
                          st_interrupts := [], st_interrupt_cp := []\<rparr>\<rparr>)"

definition execute_step ::
    "('n, 'm) runner \<Rightarrow> int \<Rightarrow> ('n, 'm) run_state \<Rightarrow>
     (exn + 'm node_result list \<times> (step_routing \<times> json) list) \<times> ('n, 'm) run_state" where
  "execute_step ru step lp =
     (case run_ready ru step lp of
        (Inl e, lp1) \<Rightarrow> (Inl e, lp1)
      | (Inr results, lp1) \<Rightarrow>
          (case run_pending_sends ru step results lp1 of
             (Inl e, lp2) \<Rightarrow> (Inl e, lp2)
           | (Inr sent, lp2) \<Rightarrow> (Inr (results, sent), lp2)))"

text \<open>The result of a step that a \<open>NodeInterrupt\<close> paused; \<open>start_len\<close> is the length of the trace before the step.\<close>

definition interrupt_reason :: "exn \<Rightarrow> string" where
  "interrupt_reason e = (case exn_kind e of XInterrupt reason _ \<Rightarrow> reason | _ \<Rightarrow> [])"

definition interrupt_node :: "exn \<Rightarrow> pending_interrupt list \<Rightarrow> string" where
  "interrupt_node e interrupts =
     (case interrupts of [] \<Rightarrow> interrupt_reason e | i # _ \<Rightarrow> if pi_node i = [] then interrupt_reason e else pi_node i)"

definition pause_checkpoint_id :: "('n, 'm) runner \<Rightarrow> ('n, 'm) step_state \<Rightarrow> error + string" where
  "pause_checkpoint_id ru rs =
     (if \<not> ru_enabled ru then Inr []
      else if st_interrupt_cp rs \<noteq> [] then Inr (st_interrupt_cp rs)
      else bind_result (load_latest (sh_store (st_shared rs)) (co_thread_id (ru_coordinator ru)))
             (\<lambda>cp. Inr (case cp of None \<Rightarrow> [] | Some c \<Rightarrow> cp_id c)))"

definition pause_in_step ::
    "('n, 'm) runner \<Rightarrow> nat \<Rightarrow> exn \<Rightarrow> ('n, 'm) run_state \<Rightarrow> 'm loop_end \<times> ('n, 'm) run_state" where
  "pause_in_step ru start_len e lp =
     (let rs = lp_step lp;
          lp' = lp\<lparr>lp_step := rs\<lparr>st_trace := take start_len (st_trace rs), st_interrupts := []\<rparr>\<rparr>
      in case pause_checkpoint_id ru rs of
           Inl err \<Rightarrow> (Throw (exn_of_error err), lp')
         | Inr cp \<Rightarrow>
             (Return ((interrupted_result (interrupt_node e (st_interrupts rs)) (interrupt_value_of e) cp (report ru lp'))
                \<lparr>res_output := (case st_start rs of Some j \<Rightarrow> j | None \<Rightarrow> runtime_snapshot (ru_executor ru) (st_state rs)),
                 res_interrupts := st_interrupts rs,
                 res_interrupt_id := (case st_interrupts rs of [] \<Rightarrow> [] | i # _ \<Rightarrow> pi_id i)\<rparr>), lp'))"

section \<open>Planning the next step\<close>

definition unified_routings ::
    "string list \<Rightarrow> 'm node_result list \<Rightarrow> (step_routing \<times> json) list \<Rightarrow> step_routing list" where
  "unified_routings rdy results sent = map (\<lambda>(n, r). routing_of n r) (zip rdy results) @ map fst sent"

definition failure_records :: "'m node_result list \<Rightarrow> (step_routing \<times> json) list \<Rightarrow> json option list" where
  "failure_records results sent =
     map failure_route_record results @ map (\<lambda>(_, j). if is_null j then None else Some j) sent"

definition handled_flags :: "('n, 'm) runner \<Rightarrow> 'm node_result list \<Rightarrow> (step_routing \<times> json) list \<Rightarrow> bool list" where
  "handled_flags ru results sent =
     (let flags = map (\<lambda>r. r \<noteq> None) (failure_records results sent)
      in if failure_routes (ru_executor ru) \<and> list_ex (\<lambda>h. h) flags then flags else [])"

definition add_arrival ::
    "'s scheduler \<Rightarrow> step_routing \<times> json option \<Rightarrow> (string \<times> json) list \<Rightarrow> (string \<times> json) list" where
  "add_arrival sch p arrivals =
     (case snd p of
        None \<Rightarrow> arrivals
      | Some rec \<Rightarrow>
          (case failure_target sch (node_name (fst p)) of
             None \<Rightarrow> arrivals
           | Some t \<Rightarrow> if map_of arrivals t = None then smap_put t rec arrivals else arrivals))"

definition failure_arrivals ::
    "('n, 'm) runner \<Rightarrow> step_routing list \<Rightarrow> 'm node_result list \<Rightarrow> (step_routing \<times> json) list \<Rightarrow> (string \<times> json) list" where
  "failure_arrivals ru routings results sent =
     (if failure_routes (ru_executor ru)
      then fold (add_arrival (ru_scheduler ru)) (zip routings (failure_records results sent)) []
      else [])"

text \<open>A node that completed resets the visits of the nodes routed to it, and may be a failure exit.\<close>

definition complete_node ::
    "failure_routing \<Rightarrow> string \<Rightarrow> ('n, 'm) step_state \<Rightarrow> ('n, 'm) step_state" where
  "complete_node routing node rs =
     rs\<lparr>st_failure := map_option (target_completed routing node) (st_failure rs),
        st_failure_exit :=
          (if st_failure_exit rs \<noteq> None then st_failure_exit rs
           else map_option (\<lambda>code. JObject [(''node'', JString node), (''code'', JString code)])
                  (map_of (fr_exits routing) node))\<rparr>"

definition complete_nodes ::
    "('n, 'm) runner \<Rightarrow> bool list \<Rightarrow> step_routing list \<Rightarrow> ('n, 'm) step_state \<Rightarrow> ('n, 'm) step_state" where
  "complete_nodes ru handled routings rs =
     (case ex_routing (ru_executor ru) of
        None \<Rightarrow> rs
      | Some routing \<Rightarrow>
          if st_failure rs = None \<and> fr_exits routing = [] then rs
          else fold (\<lambda>(h, r) rs. if h then rs else complete_node routing (node_name r) rs)
                 (zip (if handled = [] then map (\<lambda>_. False) routings else handled) routings) rs)"

definition stall_mark :: "('n, 'm) runner \<Rightarrow> next_step_plan \<Rightarrow> barrier_state \<Rightarrow> ('n, 'm) step_state \<Rightarrow> json option" where
  "stall_mark ru plan bs rs =
     (if ready plan = [] \<and> \<not> hit_explicit_end plan
      then (case stalled_barriers (ru_scheduler ru) bs (st_trace rs) of
              [] \<Rightarrow> st_barrier_stall rs
            | stalls \<Rightarrow> Some (JArray stalls))
      else st_barrier_stall rs)"

definition exit_plan :: "json option \<Rightarrow> next_step_plan \<Rightarrow> next_step_plan" where
  "exit_plan failure_exit plan =
     (if failure_exit = None then plan
      else plan\<lparr>ready := [], hit_end := True, hit_explicit_end := True\<rparr>)"

definition plan_after ::
    "('n, 'm) runner \<Rightarrow> 'm node_result list \<Rightarrow> (step_routing \<times> json) list \<Rightarrow> ('n, 'm) run_state \<Rightarrow>
     error + (next_step_plan \<times> ('n, 'm) run_state)" where
  "plan_after ru results sent lp =
     (let routings = unified_routings (lp_ready lp) results sent;
          handled = handled_flags ru results sent;
          rs = complete_nodes ru handled routings (lp_step lp);
          planned = (if handled = []
                     then plan_next_step_barrier (ru_scheduler ru) routings (st_state rs) (lp_barriers lp)
                     else plan_next_step_failed (ru_scheduler ru) routings (st_state rs) (lp_barriers lp) handled)
      in bind_result planned (\<lambda>(p, bs).
           let plan = exit_plan (st_failure_exit rs) p
           in Inr (plan, lp\<lparr>lp_step := rs\<lparr>st_barrier_stall := stall_mark ru plan bs rs\<rparr>, lp_barriers := bs,
                            lp_arrivals := failure_arrivals ru routings results sent\<rparr>)))"

section \<open>Ending a step\<close>

definition checkpoint_nodes :: "string list \<Rightarrow> string list" where
  "checkpoint_nodes nexts = (if nexts = [] then [END_NODE] else nexts)"

definition pause_after ::
    "('n, 'm) runner \<Rightarrow> int \<Rightarrow> string \<Rightarrow> next_step_plan \<Rightarrow> ('n, 'm) run_state \<Rightarrow> 'm loop_end \<times> ('n, 'm) run_state" where
  "pause_after ru step node plan lp =
     (case save_between ru After node (checkpoint_nodes (ready plan)) step (between_steps ru lp) lp of
        (Inl e, lp') \<Rightarrow> (Throw (exn_of_error e), lp')
      | (Inr cp, lp') \<Rightarrow>
          (Return (interrupted_result node (JObject [(''message'', JString (''Interrupt after node: '' @ node))]) cp
                    (report ru lp')), lp'))"

definition offer_safe_point ::
    "('n, 'm) runner \<Rightarrow> int \<Rightarrow> 'n checkpoint \<Rightarrow> ('n, 'm) run_state \<Rightarrow> 'm loop_end \<times> ('n, 'm) run_state" where
  "offer_safe_point ru step cp lp =
     (case lp_safe lp of
        None \<Rightarrow> (Continue, lp)
      | Some (gen, r) \<Rightarrow>
          (let asked = (if ru_safe_point_asked ru step then snd (sp_request r) else r)
           in case sp_capture gen cp (ru_cancelled_at_commit ru step) asked of
                Inl e \<Rightarrow> (Throw (exn_of_error e), lp\<lparr>lp_safe := Some (gen, asked)\<rparr>)
              | Inr (captured, r') \<Rightarrow>
                  (let lp' = lp\<lparr>lp_safe := Some (gen, r')\<rparr>
                   in if captured
                      then (Return ((report ru lp')\<lparr>res_output := json_set ''_neograph'' (JObject [(''safe_point'', JBool True)])
                                     (res_output (report ru lp')), res_checkpoint_id := lp_last_cp lp'\<rparr>), lp')
                      else (Continue, lp'))))"

definition end_step ::
    "('n, 'm) runner \<Rightarrow> int \<Rightarrow> next_step_plan \<Rightarrow> ('n, 'm) run_state \<Rightarrow> 'm loop_end \<times> ('n, 'm) run_state" where
  "end_step ru step plan lp =
     (case find (\<lambda>n. n \<in> set (ru_interrupt_after ru) \<and> ru_enabled ru) (lp_ready lp) of
        Some node \<Rightarrow> pause_after ru step node plan lp
      | None \<Rightarrow>
          (let lp1 = lp\<lparr>lp_ready := ready plan\<rparr>
           in if \<not> ru_enabled ru then (Continue, lp1)
              else case commit_step ru (checkpoint_nodes (ready plan)) step ''__step__'' lp1 of
                     (Inl e, lp2) \<Rightarrow> (Throw (exn_of_error e), lp2)
                   | (Inr cp, lp2) \<Rightarrow> offer_safe_point ru step cp (lp2\<lparr>lp_last_cp := cp_id cp, lp_replay := []\<rparr>)))"

definition stop_on_budget ::
    "('n, 'm) runner \<Rightarrow> int \<Rightarrow> ('n, 'm) run_state \<Rightarrow> 'm loop_end \<times> ('n, 'm) run_state" where
  "stop_on_budget ru step lp =
     (case (if ru_enabled ru then commit_step ru (lp_ready lp) step ''__budget__'' lp
            else (Inr (blank_checkpoint\<lparr>cp_id := lp_last_cp lp\<rparr>), lp)) of
        (Inl e, lp') \<Rightarrow> (Throw (exn_of_error e), lp')
      | (Inr cp, lp') \<Rightarrow>
          (let lp'' = lp'\<lparr>lp_last_cp := cp_id cp\<rparr>; r = report ru lp''
           in (Return (r\<lparr>res_output := (if lp_ready lp = [] then res_output r
                                        else json_set ''_neograph'' max_steps_mark (res_output r)),
                         res_checkpoint_id := lp_last_cp lp''\<rparr>), lp'')))"

definition super_step ::
    "('n, 'm) runner \<Rightarrow> resumed_gates \<Rightarrow> int \<Rightarrow> ('n, 'm) run_state \<Rightarrow> 'm loop_end \<times> ('n, 'm) run_state" where
  "super_step ru g step lp =
     (if ru_budget_exhausted ru step then stop_on_budget ru step lp
      else if ru_cancelled ru step then (Throw (Exn XCancelled None None), lp)
      else if lp_ready lp = [] then (Break, lp)
      else case held_node ru g step (lp_ready lp) of
        Some node \<Rightarrow> pause_before ru g step node lp
      | None \<Rightarrow>
          (case execute_step ru step (begin_step lp) of
             (Inl e, lp1) \<Rightarrow>
               if is_interrupt e then pause_in_step ru (length (st_trace (lp_step lp))) e lp1 else (Throw e, lp1)
           | (Inr (results, sent), lp1) \<Rightarrow>
               (case plan_after ru results sent lp1 of
                  Inl e \<Rightarrow> (Throw (exn_of_error e), lp1)
                | Inr (plan, lp2) \<Rightarrow> end_step ru step plan lp2)))"

text \<open>The result of a run whose loop ended.\<close>

definition finish_run :: "('n, 'm) runner \<Rightarrow> ('n, 'm) run_state \<Rightarrow> 'm run_result" where
  "finish_run ru lp =
     (let r = report ru lp; rs = lp_step lp;
          output = (if lp_ready lp = [] then res_output r else json_set ''_neograph'' max_steps_mark (res_output r));
          output = set_owned_option ''failure_exit'' (st_failure_exit rs)
                     (set_owned_option ''barrier_stalled'' (st_barrier_stall rs) output);
          output = (case ru_final_response ru (res_messages r) of
                      None \<Rightarrow> output | Some response \<Rightarrow> json_set ''final_response'' (JString response) output)
      in r\<lparr>res_output := output, res_checkpoint_id := lp_last_cp lp\<rparr>)"

fun run_loop ::
    "('n, 'm) runner \<Rightarrow> resumed_gates \<Rightarrow> nat \<Rightarrow> int \<Rightarrow> ('n, 'm) run_state \<Rightarrow> (exn + 'm run_result) \<times> ('n, 'm) run_state" where
  "run_loop ru g 0 step lp = (Inr (finish_run ru lp), lp)"
| "run_loop ru g (Suc n) step lp =
     (if step > int_max then (Inl (Exn (XRuntimeError None) None None), lp)
      else case super_step ru g step lp of
             (Continue, lp') \<Rightarrow> run_loop ru g n (step + 1) lp'
           | (Break, lp') \<Rightarrow> (Inr (finish_run ru lp'), lp')
           | (Return r, lp') \<Rightarrow> (Inr r, lp')
           | (Throw e, lp') \<Rightarrow> (Inl e, lp'))"

section \<open>Starting a run\<close>

definition new_failure_state :: "('n, 'm) executor \<Rightarrow> failure_run_state option" where
  "new_failure_state ex =
     (case ex_routing ex of
        None \<Rightarrow> None
      | Some r \<Rightarrow> if counts_visits r then Some \<lparr>visits = [], step_start = []\<rparr> else None)"

definition first_state ::
    "('n, 'm) runner \<Rightarrow> 'm graph_state \<Rightarrow> failure_run_state option \<Rightarrow> ('n, 'm) shared \<Rightarrow> ('n, 'm) run_state" where
  "first_state ru st fs sh =
     \<lparr>lp_step = \<lparr>st_state = st, st_shared = sh, st_failure = fs, st_trace = [], st_start = None, st_interrupts = [],
        st_interrupt_cp = [], st_barrier_stall = None, st_failure_exit = None\<rparr>,
      lp_ready = [], lp_last_cp = [], lp_barriers = [], lp_replay = [], lp_arrivals = [], lp_safe = None\<rparr>"

text \<open>The messages of the configuration replace the \<open>messages\<close> channel.\<close>

definition write_provider_messages ::
    "('n, 'm) runner \<Rightarrow> 'm run_config \<Rightarrow> 'm graph_state \<Rightarrow> error + 'm graph_state" where
  "write_provider_messages ru cfg st =
     (case cf_provider_messages cfg of
        None \<Rightarrow> Inr st
      | Some w \<Rightarrow>
          (case apply_writes (en_codec (ex_engine (ru_executor ru))) [w] st of
             (Some e, _) \<Rightarrow> Inl e | (None, st') \<Rightarrow> Inr st'))"

text \<open>\<open>resume_if_exists\<close>: a fresh run that continues the thread's state and step numbers.\<close>

definition continue_thread ::
    "('n, 'm) runner \<Rightarrow> 'm run_config \<Rightarrow> 'm graph_state \<Rightarrow> ('n, 'm) shared \<Rightarrow> error + ('m graph_state \<times> string \<times> int)" where
  "continue_thread ru cfg st sh =
     (let co = ru_coordinator ru
      in if \<not> cf_resume_if_exists cfg \<or> \<not> co_has_store co then Inr (st, [], 0)
         else bind_result (load_latest (sh_store sh) (co_thread_id co)) (\<lambda>found.
           case found of
             None \<Rightarrow> Inr (st, [], 0)
           | Some cp \<Rightarrow>
               if cp_step cp < 0 \<or> cp_step cp \<ge> int_max
               then raise_error RuntimeError ''Checkpoint step exceeds the executable range''
               else bind_result (restore_loaded (ex_engine (ru_executor ru)) (cp_channel_values cp) (cp_metadata cp)
                                   (cp_native cp) st) (\<lambda>st'.
                      Inr (st', cp_id cp, cp_step cp + 1))))"

definition start_fresh ::
    "('n, 'm) runner \<Rightarrow> 'm run_config \<Rightarrow> ('n, 'm) shared \<Rightarrow> error + (('n, 'm) run_state \<times> int)" where
  "start_fresh ru cfg sh =
     (if cf_resume_interrupt_id cfg \<noteq> []
      then raise_error InvalidArgument ''resume_interrupt_id names an interrupt, but no NodeInterrupt checkpoint is resumed''
      else bind_result (init_state (ex_engine (ru_executor ru))) (\<lambda>st0.
        bind_result (continue_thread ru cfg st0 sh) (\<lambda>(st1, last_cp, start).
          case apply_input (ex_engine (ru_executor ru)) (cf_input cfg) st1 of
            (Some e, _) \<Rightarrow> Inl e
          | (None, st2) \<Rightarrow>
              bind_result (write_provider_messages ru cfg st2) (\<lambda>st3.
                Inr ((first_state ru st3 (new_failure_state (ru_executor ru)) sh)
                      \<lparr>lp_ready := plan_start_step (ru_scheduler ru), lp_last_cp := last_cp\<rparr>, start)))))"

section \<open>What a resume answers\<close>

definition read_id :: "string \<Rightarrow> json \<Rightarrow> error + string" where
  "read_id msg entry =
     (if is_object entry \<and> json_contains entry ''id'' \<and> is_string (json_get entry ''id'')
      then get_string (json_get entry ''id'') else raise_error RuntimeError msg)"

text \<open>The entries of a list that the metadata keeps under \<open>_neograph\<close>; \<open>None\<close> when it has none.\<close>

definition owned_list :: "string \<Rightarrow> string \<Rightarrow> json \<Rightarrow> error + json list option" where
  "owned_list key msg metadata =
     (if \<not> is_object metadata \<or> \<not> json_contains metadata ''_neograph'' then Inr None
      else let reserved = json_get metadata ''_neograph''
           in if \<not> is_object reserved \<or> \<not> json_contains reserved key then Inr None
              else if \<not> is_array (json_get reserved key) then raise_error RuntimeError msg
              else Inr (Some (json_elems (json_get reserved key))))"

definition recorded_interrupt_ids :: "json \<Rightarrow> error + string list option" where
  "recorded_interrupt_ids metadata =
     (let msg = ''NodeInterrupt checkpoint pending interrupts are malformed''
      in bind_result (owned_list ''interrupts'' msg metadata) (\<lambda>found.
           case found of
             None \<Rightarrow> Inr None
           | Some es \<Rightarrow> bind_result (map_result (read_id msg) es) (\<lambda>ids. Inr (Some ids))))"

definition read_gate_answer :: "string \<Rightarrow> json \<Rightarrow> error + gate_answer" where
  "read_gate_answer msg entry =
     bind_result (read_id msg entry) (\<lambda>i.
       Inr (i, if json_contains entry ''value'' then Some (json_get entry ''value'') else None))"

definition recorded_gate_answers :: "json \<Rightarrow> error + gate_answer list" where
  "recorded_gate_answers metadata =
     (let msg = ''Before checkpoint answered gates are malformed''
      in bind_result (owned_list ''answered_gates'' msg metadata) (\<lambda>found.
           case found of None \<Rightarrow> Inr [] | Some es \<Rightarrow> map_result (read_gate_answer msg) es))"

definition answered_interrupt ::
    "(json \<Rightarrow> string) \<Rightarrow> ('n, 'm) resume_context \<Rightarrow> string \<Rightarrow> error + string" where
  "answered_interrupt dump rc requested =
     (if rc_phase rc \<noteq> NodeInterrupt
      then (if requested \<noteq> [] then raise_error InvalidArgument ''Cannot answer interrupt'' else Inr [])
      else bind_result (recorded_interrupt_ids (rc_metadata rc)) (\<lambda>recorded.
        let pending_ids = (case recorded of
              Some ids \<Rightarrow> ids
            | None \<Rightarrow> paused_task_ids dump (rc_start_step rc) (rc_current_node rc) (rc_next_nodes rc) (rc_replay_results rc))
        in if requested = [] then Inr (case pending_ids of [] \<Rightarrow> [] | i # _ \<Rightarrow> i)
           else if pending_ids = [] \<and> map_of (rc_replay_results rc) requested \<noteq> None then Inr requested
           else if requested \<notin> set pending_ids then raise_error InvalidArgument ''Interrupt is not pending''
           else Inr requested))"

definition resume_answers_gate :: "('n, 'm) runner \<Rightarrow> ('n, 'm) resume_context \<Rightarrow> bool" where
  "resume_answers_gate ru rc \<longleftrightarrow>
     rc_phase rc = NodeInterrupt \<or> (rc_phase rc = Before \<and> rc_current_node rc \<in> set (ru_interrupt_before ru))"

text \<open>The runner with the answers bound, and the gates of the resumed step.\<close>

definition bind_answers ::
    "('n, 'm) runner \<Rightarrow> string \<Rightarrow> json option \<Rightarrow> ('n, 'm) resume_context \<Rightarrow> error + (('n, 'm) runner \<times> resumed_gates)" where
  "bind_answers ru requested answer rc =
     (let ex = ru_executor ru; step = rc_start_step rc;
          gates = (\<lambda>answers. \<lparr>rg_start_step = Some step, rg_answers_gate = resume_answers_gate ru rc,
                             rg_gate_answers = answers\<rparr>)
      in bind_result (answered_interrupt (ex_dump ex) rc requested) (\<lambda>answered.
           if answered = [] \<and> resume_answers_gate ru rc \<and> rc_phase rc = Before
           then bind_result (recorded_gate_answers (rc_metadata rc)) (\<lambda>recorded.
                  let answers = recorded @ [(make_static_task_id step (rc_current_node rc), answer)]
                  in Inr (ru\<lparr>ru_executor := ex\<lparr>ex_answers := fold (\<lambda>(i, v). smap_put i v) answers [],
                                               ex_answered_step := step, ex_answered_interrupt := []\<rparr>\<rparr>,
                          gates answers))
           else if answered = [] then Inr (ru\<lparr>ru_executor := ex\<lparr>ex_answers := [], ex_answered_interrupt := []\<rparr>\<rparr>, gates [])
           else Inr (ru\<lparr>ru_executor := ex\<lparr>ex_answers := [(answered, answer)], ex_answered_step := step,
                                          ex_answered_interrupt := answered\<rparr>\<rparr>, gates [])))"

definition holds_unanswered_tool_calls :: "('n, 'm) runner \<Rightarrow> 'm graph_state \<Rightarrow> bool" where
  "holds_unanswered_tool_calls ru st =
     (case get_provider_messages (en_codec (ex_engine (ru_executor ru))) st ''messages'' of
        Inl _ \<Rightarrow> False | Inr ms \<Rightarrow> ru_tool_calls_pending ru ms)"

definition write_resume_value :: "('n, 'm) runner \<Rightarrow> json \<Rightarrow> 'm graph_state \<Rightarrow> error + 'm graph_state" where
  "write_resume_value ru v st =
     (if is_null v \<or> \<not> has_channel st ''messages'' \<or> holds_unanswered_tool_calls ru st then Inr st
      else let content = (case v of JString s \<Rightarrow> s | _ \<Rightarrow> ex_dump (ru_executor ru) v)
           in case write_channel (en_codec (ex_engine (ru_executor ru))) ''messages''
                     (JArray [JObject [(''role'', JString ''user''), (''content'', JString content)]]) st of
                (Some e, _) \<Rightarrow> Inl e
              | (None, st') \<Rightarrow> Inr st')"

definition start_resume ::
    "('n, 'm) runner \<Rightarrow> 'm run_config \<Rightarrow> json \<Rightarrow> ('n, 'm) resume_context \<Rightarrow> ('n, 'm) shared \<Rightarrow>
     error + (('n, 'm) run_state \<times> int)" where
  "start_resume ru cfg v rc sh =
     bind_result (resume_run (ex_engine (ru_executor ru)) rc) (\<lambda>run.
       bind_result (write_resume_value ru v (rr_state run)) (\<lambda>st1.
         bind_result (write_provider_messages ru cfg st1) (\<lambda>st2.
           Inr ((first_state ru st2 (map_option (restore_visits (rc_metadata rc)) (new_failure_state (ru_executor ru))) sh)
                 \<lparr>lp_ready := rr_ready run, lp_last_cp := rr_last_checkpoint_id run, lp_barriers := rr_barrier_state run,
                  lp_replay := rr_replay_results run\<rparr>, rr_start_step run))))"

section \<open>Runs\<close>

text \<open>
  The safe-point request of a run: attached at the start, closed when the loop is left. A run that throws
  before its loop closes or rejects its request too, and leaves nothing else.
\<close>

definition attach_safe_point ::
    "('n, 'm) runner \<Rightarrow> 'n safe_point_request option \<Rightarrow>
     error + (generation_identity \<times> 'n safe_point_request) option" where
  "attach_safe_point ru request =
     (case request of
        None \<Rightarrow> Inr None
      | Some r \<Rightarrow>
          (case ru_generation ru of
             None \<Rightarrow> raise_error RuntimeError ''Graph safe-point request does not match this engine generation''
           | Some gen \<Rightarrow>
               (case sp_attach gen r of
                  (False, _) \<Rightarrow> raise_error RuntimeError ''Graph safe-point request does not match this engine generation''
                | (True, r') \<Rightarrow>
                    if \<not> ru_enabled ru
                    then raise_error RuntimeError ''Graph safe-point capture requires a checkpoint store and thread id''
                    else Inr (Some (gen, r')))))"

definition prepare_run ::
    "('n, 'm) runner \<Rightarrow> 'n safe_point_request option \<Rightarrow>
     error + (generation_identity \<times> 'n safe_point_request) option" where
  "prepare_run ru request =
     bind_result (init_state (ex_engine (ru_executor ru))) (\<lambda>_. attach_safe_point ru request)"

definition leave_run :: "('n, 'm) run_state \<Rightarrow> ('n, 'm) run_state" where
  "leave_run lp = lp\<lparr>lp_safe := map_option (\<lambda>(gen, r). (gen, sp_reject (sp_close r))) (lp_safe lp)\<rparr>"

definition enter_loop ::
    "('n, 'm) runner \<Rightarrow> resumed_gates \<Rightarrow> 'm run_config \<Rightarrow> (generation_identity \<times> 'n safe_point_request) option \<Rightarrow>
     ('n, 'm) run_state \<times> int \<Rightarrow> (exn + 'm run_result) \<times> ('n, 'm) run_state" where
  "enter_loop ru g cfg safe start =
     (case start of (lp, step) \<Rightarrow>
        let lp' = lp\<lparr>lp_safe := safe\<rparr>
        in if safe \<noteq> None \<and> step \<ge> int_max - 1 then (Inl (Exn (XRuntimeError None) None None), lp')
           else run_loop ru g (nat (max (cf_max_steps cfg) 0)) step lp')"

definition from_start ::
    "(error + (('n, 'm) run_state \<times> int)) \<Rightarrow> (('n, 'm) run_state \<times> int \<Rightarrow> (exn + 'm run_result) \<times> ('n, 'm) run_state) \<Rightarrow>
     (exn + 'm run_result) \<times> ('n, 'm) run_state option" where
  "from_start start loop =
     (case start of Inl e \<Rightarrow> (Inl (exn_of_error e), None) | Inr s \<Rightarrow> (case loop s of (r, lp) \<Rightarrow> (r, Some (leave_run lp))))"

definition run_graph ::
    "('n, 'm) runner \<Rightarrow> 'm run_config \<Rightarrow> 'n safe_point_request option \<Rightarrow> ('n, 'm) shared \<Rightarrow>
     (exn + 'm run_result) \<times> ('n, 'm) run_state option" where
  "run_graph ru cfg request sh =
     (case prepare_run ru request of
        Inl e \<Rightarrow> (Inl (exn_of_error e), None)
      | Inr safe \<Rightarrow> from_start (start_fresh ru cfg sh) (enter_loop ru no_gates cfg safe))"

definition resume_graph_at ::
    "('n, 'm) runner \<Rightarrow> 'm run_config \<Rightarrow> 'n safe_point_request option \<Rightarrow> json \<Rightarrow> ('n, 'm) resume_context \<Rightarrow> ('n, 'm) shared \<Rightarrow>
     (exn + 'm run_result) \<times> ('n, 'm) run_state option" where
  "resume_graph_at ru cfg request v rc sh =
     (case prepare_run ru request of
        Inl e \<Rightarrow> (Inl (exn_of_error e), None)
      | Inr safe \<Rightarrow>
          (case bind_answers ru (cf_resume_interrupt_id cfg) (if is_null v then None else Some v) rc of
             Inl e \<Rightarrow> (Inl (exn_of_error e), None)
           | Inr (ru', g) \<Rightarrow> from_start (start_resume ru' cfg v rc sh) (enter_loop ru' g cfg safe)))"

text \<open>A thread that had ended: the stored values with the marks of how it ended.\<close>

definition copy_mark :: "string \<Rightarrow> json \<Rightarrow> json \<Rightarrow> json" where
  "copy_mark key metadata output =
     (if is_object metadata \<and> is_object (json_get metadata ''_neograph'') \<and> json_contains (json_get metadata ''_neograph'') key
      then set_owned key (json_get (json_get metadata ''_neograph'') key) output else output)"

definition completed_result ::
    "('n, 'm) runner \<Rightarrow> 'm run_config \<Rightarrow> ('n, 'm) resume_context \<Rightarrow> error + 'm run_result" where
  "completed_result ru cfg rc =
     (if cf_resume_interrupt_id cfg \<noteq> [] then raise_error InvalidArgument ''Cannot answer interrupt''
      else bind_result (resume_run (ex_engine (ru_executor ru)) rc) (\<lambda>run.
        Inr \<lparr>res_output = copy_mark ''failure_exit'' (rc_metadata rc)
               (copy_mark ''barrier_stalled'' (rc_metadata rc) (rc_channel_values rc)),
             res_interrupted = False, res_interrupt_node = [], res_interrupt_value = JNull, res_interrupts = [],
             res_interrupt_id = [], res_checkpoint_id = rc_checkpoint_id rc, res_trace = [],
             res_messages = native_messages (rr_state run)\<rparr>))"

text \<open>\<open>resume_execute_async\<close>; \<open>None\<close> when the walk over the pause chain would not end.\<close>

definition resume_graph ::
    "('n, 'm) runner \<Rightarrow> 'm run_config \<Rightarrow> 'n safe_point_request option \<Rightarrow> json \<Rightarrow> string option \<Rightarrow> ('n, 'm) shared \<Rightarrow>
     ((exn + 'm run_result) \<times> ('n, 'm) run_state option) option" where
  "resume_graph ru cfg request v checkpoint_id sh =
     (let co = ru_coordinator ru; oc = ex_outcome_codec (ru_executor ru); s = sh_store sh
      in if \<not> co_has_store co then Some (Inl (exn_of_error (Error RuntimeError ''Cannot resume: no checkpoint store configured'')), None)
         else if co_thread_id co = [] then Some (Inl (exn_of_error (Error InvalidArgument ''Cannot resume: thread_id is required'')), None)
         else map_option (\<lambda>loaded.
           case loaded of
             Inl e \<Rightarrow> (Inl (exn_of_error e), None)
           | Inr rc \<Rightarrow>
               if \<not> have_cp rc then (Inl (exn_of_error (Error RuntimeError ''No checkpoint found'')), None)
               else if rc_next_nodes rc = [END_NODE]
               then (case completed_result ru cfg rc of Inl e \<Rightarrow> (Inl (exn_of_error e), None) | Inr r \<Rightarrow> (Inr r, None))
               else if checkpoint_id = None \<and> rc_next_nodes rc = [] then run_graph ru cfg request sh
               else resume_graph_at ru cfg request v rc sh)
           (case checkpoint_id of None \<Rightarrow> load_for_resume co oc s | Some i \<Rightarrow> load_for_resume_by_id co oc i s))"

end
