(* ===== verification/NG_Typed.thy ===== *)
theory NG_Typed
  imports NG_SuperStep
begin

text \<open>
  The type of the channels: a state has exactly the declared channels, each with its declared reducer and
  lifecycle, and a channel with a retention limit never holds more than its limit. Every write keeps it, and
  so does every part of a super-step, whether it succeeds, pauses or fails; beside it, what a part of a
  super-step may add to the trace.
\<close>

section \<open>Typed states\<close>

type_synonym channel_type = "string \<times> reducer_type \<times> (json \<Rightarrow> json \<Rightarrow> error + json) \<times> lifecycle_policy"

definition channel_decl :: "string \<times> channel \<Rightarrow> channel_type" where
  "channel_decl p = (fst p, ch_reducer_type (snd p), ch_reducer (snd p), ch_lifecycle (snd p))"

definition declared :: "'m graph_state \<Rightarrow> channel_type list" where
  "declared st = map channel_decl (channels st)"

definition within_retention :: "channel \<Rightarrow> bool" where
  "within_retention ch \<longleftrightarrow>
     is_array (ch_value ch) \<longrightarrow>
       (retention (ch_lifecycle ch) = Latest \<longrightarrow> json_size (ch_value ch) \<le> 1) \<and>
       (retention (ch_lifecycle ch) = Bounded \<longrightarrow> json_size (ch_value ch) \<le> unat (retention_limit (ch_lifecycle ch)))"

definition typed_as :: "channel_type list \<Rightarrow> 'm graph_state \<Rightarrow> bool" where
  "typed_as ds st \<longleftrightarrow> smap_ok (channels st) \<and> declared st = ds \<and> list_all (\<lambda>p. within_retention (snd p)) (channels st)"

lemma typed_cong: "channels st' = channels st \<Longrightarrow> typed_as ds st' = typed_as ds st"
  by (simp add: typed_as_def declared_def)

lemma retained_size:
  assumes "apply_retention v lc = Inr r" "is_array r"
  shows "(retention lc = Latest \<longrightarrow> json_size r \<le> 1) \<and> (retention lc = Bounded \<longrightarrow> json_size r \<le> unat (retention_limit lc))"
  using assms by (cases v) (auto simp: apply_retention_def raise_error_def Let_def json_empty_def split: if_splits)

lemma retained_within: "apply_retention v (ch_lifecycle ch) = Inr (ch_value ch) \<Longrightarrow> within_retention ch"
  using retained_size by (auto simp: within_retention_def)

lemma put_declared:
  assumes "smap_ok m" "map_of m n = Some ch" "channel_decl (n, ch') = channel_decl (n, ch)"
  shows "map channel_decl (smap_put n ch' m) = map channel_decl m"
  using assms
proof (induction m)
  case (Cons p m)
  show ?case
  proof (cases "fst p = n")
    case True
    with Cons.prems show ?thesis by (cases p) auto
  next
    case False
    with Cons.prems(2) have found: "map_of m n = Some ch" by (cases p) auto
    then have "n \<in> set (map fst m)" by (metis map_of_eq_None_iff not_None_eq set_map)
    with Cons.prems(1) have "fst p < n" by auto
    with Cons found False show ?thesis by (cases p) auto
  qed
qed simp

lemma store_typed:
  assumes "typed_as ds st" "map_of (channels st) n = Some ch" "apply_retention v (ch_lifecycle ch) = Inr r"
  shows "typed_as ds (store_value n ch r st)"
proof -
  let ?ch = "ch\<lparr>ch_value := r, ch_version := global_version st + 1\<rparr>"
  have "map channel_decl (smap_put n ?ch (channels st)) = map channel_decl (channels st)"
    using assms(1,2) by (intro put_declared[where ch = ch]) (simp_all add: typed_as_def channel_decl_def)
  moreover have "within_retention ?ch" using assms(3) by (intro retained_within[of v]) simp
  ultimately show ?thesis using assms(1) by (simp add: typed_as_def declared_def store_value_def smap_put_all)
qed

lemma then_store_typed:
  assumes "typed_as ds st" "map_of (channels st) n = Some ch" "apply_retention v (ch_lifecycle ch) = Inr r"
    "channels (snd h) = channels st"
  shows "typed_as ds (snd (then_store n ch r h))"
  using store_typed[of ds "snd h" n ch v r] assms typed_cong[OF assms(4), of ds]
  by (auto simp: then_store_def split: prod.splits option.splits)

lemma apply_write_typed: "typed_as ds st \<Longrightarrow> typed_as ds (snd (apply_write cod w st))"
  by (auto simp: apply_write_def written_value_def split: option.splits sum.splits intro!: then_store_typed)

lemma apply_writes_typed: "typed_as ds st \<Longrightarrow> typed_as ds (snd (apply_writes cod ws st))"
proof (induction ws arbitrary: st)
  case (Cons w ws)
  have "typed_as ds (snd (apply_write cod w st))" by (rule apply_write_typed[OF Cons.prems])
  with Cons.IH show ?case by (auto split: prod.splits option.splits)
qed simp

lemma write_channel_typed: "typed_as ds st \<Longrightarrow> typed_as ds (snd (write_channel cod n v st))"
  by (auto simp: write_channel_def split: option.splits sum.splits intro!: then_store_typed)

lemma write_known_typed: "typed_as ds st \<Longrightarrow> typed_as ds (snd (write_known cod known items st))"
proof (induction items arbitrary: st)
  case (Cons p items)
  have "typed_as ds (snd (write_channel cod (fst p) (snd p) st))" by (rule write_channel_typed[OF Cons.prems])
  with Cons show ?case by (cases p) (auto split: prod.splits option.splits)
qed simp

lemma apply_input_typed: "typed_as ds st \<Longrightarrow> typed_as ds (snd (apply_input en input st))"
  by (simp add: apply_input_def write_known_typed)

lemma apply_node_result_typed: "typed_as ds st \<Longrightarrow> typed_as ds (snd (apply_node_result ex nr st))"
  using apply_writes_typed[of ds st "en_codec (ex_engine ex)"]
  by (auto simp: apply_node_result_def split: prod.splits option.splits) (metis apply_writes_typed snd_conv)+

lemma init_channels_typed:
  assumes "init_channels reducer cds st = Inr st'" "typed_as (declared st) st"
  shows "typed_as (declared st') st'"
  using assms
proof (induction cds arbitrary: st)
  case (Cons cd cds)
  from Cons.prems(1) obtain f st1 where one:
    "init_channel (cd_name cd) (cd_type cd) f (initial_value_of cd) (lifecycle_of cd) st = Inr st1"
    "init_channels reducer cds st1 = Inr st'" by auto
  from one(1) obtain v where "apply_retention (initial_value_of cd) (lifecycle_of cd) = Inr v"
    "st1 = st\<lparr>channels := smap_put (cd_name cd) \<lparr>ch_reducer_type = cd_type cd, ch_reducer = f, ch_lifecycle = lifecycle_of cd,
       ch_value = v, ch_version = 0\<rparr> (channels st)\<rparr>" by (auto simp: init_channel_def split: if_splits)
  with Cons.prems(2) have "typed_as (declared st1) st1"
    by (auto simp: typed_as_def intro!: smap_put_all retained_within)
  with Cons.IH one(2) show ?case by blast
qed simp

lemma init_state_typed: "init_state en = Inr st0 \<Longrightarrow> typed_as (declared st0) st0"
  using init_channels_typed[of "en_reducer en" "en_channel_defs en" empty_state st0]
  by (simp add: init_state_def typed_as_def empty_state_def)

section \<open>What a part of a super-step changes\<close>

definition same_core :: "('n, 'm) step_state \<Rightarrow> ('n, 'm) step_state \<Rightarrow> bool" where
  "same_core rs rs' \<longleftrightarrow> st_state rs' = st_state rs \<and> st_trace rs' = st_trace rs"

definition grows :: "string set \<Rightarrow> ('n, 'm) step_state \<Rightarrow> ('n, 'm) step_state \<Rightarrow> bool" where
  "grows names rs rs' \<longleftrightarrow> (\<exists>xs. st_trace rs' = st_trace rs @ xs \<and> set xs \<subseteq> names) \<and>
     (\<forall>ds. typed_as ds (st_state rs) \<longrightarrow> typed_as ds (st_state rs'))"

lemma same_core_refl [simp]: "same_core rs rs"
  by (simp add: same_core_def)

lemma same_core_trans: "same_core a b \<Longrightarrow> same_core b c \<Longrightarrow> same_core a c"
  by (simp add: same_core_def)

lemma same_core_grows: "same_core rs rs' \<Longrightarrow> grows names rs rs'"
  by (simp add: same_core_def grows_def)

lemma grows_trans: "grows A a b \<Longrightarrow> grows B b c \<Longrightarrow> grows (A \<union> B) a c"
  by (fastforce simp: grows_def)

lemma grows_mono: "grows A a b \<Longrightarrow> A \<subseteq> B \<Longrightarrow> grows B a b"
  by (fastforce simp: grows_def)

lemma same_core_left: "same_core a b \<Longrightarrow> grows A b c \<Longrightarrow> grows A a c"
  by (simp add: same_core_def grows_def)

lemma save_step_core: "save_step ex st phase b rs = (r, rs') \<Longrightarrow> same_core rs rs'"
  by (auto simp: save_step_def same_core_def Let_def split: prod.splits)

lemma record_write_core: "record_write ex cp t n nr step rs = (r, rs') \<Longrightarrow> same_core rs rs'"
  by (auto simp: record_write_def same_core_def Let_def split: prod.splits)

lemma record_start_core: "record_start ex cp t n k step rs = (r, rs') \<Longrightarrow> same_core rs rs'"
  by (auto simp: record_start_def same_core_def split: prod.splits)

lemma record_outcomes_core: "record_outcomes ex cp step outcomes rs = (r, rs') \<Longrightarrow> same_core rs rs'"
proof (induction outcomes arbitrary: rs)
  case (Cons p outcomes)
  obtain t n b where p: "p = (t, n, b)" by (cases p) auto
  obtain e rs1 where one: "(if branch_error b = None then record_write ex cp t n (branch_value b) step rs
      else record_start ex cp t n (br_interrupted b) step rs) = (e, rs1)" by fastforce
  then have "same_core rs rs1" by (auto dest: record_write_core record_start_core split: if_splits)
  with Cons one p show ?case by (cases e) (auto intro: same_core_trans)
qed simp

lemma record_results_core: "record_results ex cp step results rs = (r, rs') \<Longrightarrow> same_core rs rs'"
proof (induction results arbitrary: rs)
  case (Cons p results)
  obtain n nr where p: "p = (n, nr)" by (cases p) auto
  obtain e rs1 where one: "record_write ex cp (make_static_task_id step n) n nr step rs = (e, rs1)" by fastforce
  from record_write_core[OF this] Cons one p show ?case by (cases e) (auto intro: same_core_trans)
qed simp

lemma record_step_interrupts_core: "record_step_interrupts ex is listed rs = (md, rs') \<Longrightarrow> same_core rs rs'"
  by (auto simp: record_step_interrupts_def same_core_def)

lemma interrupt_cp_core: "same_core rs rs' \<Longrightarrow> same_core rs (rs'\<lparr>st_interrupt_cp := cp\<rparr>)"
  by (simp add: same_core_def)

lemmas core_facts = save_step_core record_start_core record_outcomes_core record_step_interrupts_core record_results_core

lemma pause_on_node_interrupt_core:
  "pause_on_node_interrupt ex node step parent bs k e rs = (x, rs') \<Longrightarrow> same_core rs rs'"
  unfolding pause_on_node_interrupt_def Let_def
  by (auto split: prod.splits sum.splits option.splits if_splits dest!: core_facts
      intro: same_core_trans intro!: interrupt_cp_core)

lemma pause_parallel_core: "pause_parallel ex rdy step parent bstate bs out rs = (x, rs') \<Longrightarrow> same_core rs rs'"
  unfolding pause_parallel_def Let_def
  by (auto split: prod.splits sum.splits option.splits if_splits dest!: core_facts
      intro: same_core_trans intro!: interrupt_cp_core)

lemma save_send_step_anchor_core: "save_send_step_anchor ex ss node step rs = (r, rs') \<Longrightarrow> same_core rs rs'"
  unfolding save_send_step_anchor_def record_ready_writes_def
  by (auto split: prod.splits sum.splits option.splits dest!: core_facts intro: same_core_trans)

lemma save_send_interrupt_core: "save_send_interrupt ex st ss sends bs i step parent md rs = (r, rs') \<Longrightarrow> same_core rs rs'"
  unfolding save_send_interrupt_def record_ready_writes_def
  by (auto split: prod.splits sum.splits option.splits if_splits dest!: core_facts intro: same_core_trans)

lemma pause_sends_core: "pause_sends ex ss sends bs i e ps listed step parent rs = (x, rs') \<Longrightarrow> same_core rs rs'"
  unfolding pause_sends_def
  by (auto split: prod.splits sum.splits option.splits if_splits
      dest!: record_step_interrupts_core save_send_interrupt_core intro: same_core_trans intro!: interrupt_cp_core)

lemma capture_step_start_core: "same_core rs (capture_step_start ex h rs)"
  by (simp add: capture_step_start_def same_core_def)

section \<open>Super-steps keep the type\<close>

lemma apply_results_grows: "apply_results ex results rs = (e, rs') \<Longrightarrow> grows (fst ` set results) rs rs'"
proof (induction results arbitrary: rs)
  case (Cons p results)
  obtain name nr where p: "p = (name, nr)" by (cases p) auto
  obtain e1 st where one: "apply_node_result ex nr (st_state rs) = (e1, st)" by fastforce
  have typed: "typed_as ds (st_state rs) \<Longrightarrow> typed_as ds st" for ds using apply_node_result_typed[of ds "st_state rs" ex nr] one by simp
  show ?case
  proof (cases e1)
    case None
    have "grows {name} rs (rs\<lparr>st_state := st, st_trace := st_trace rs @ [name]\<rparr>)" using typed by (simp add: grows_def)
    moreover have "grows (fst ` set results) (rs\<lparr>st_state := st, st_trace := st_trace rs @ [name]\<rparr>) rs'"
      using Cons one None p by simp
    ultimately show ?thesis using grows_trans p by fastforce
  next
    case (Some x)
    with Cons.prems one p typed show ?thesis by (auto simp: grows_def)
  qed
qed (simp add: grows_def)

lemma captured_results_grow:
  "apply_results ex results (capture_step_start ex h rs) = (e, rs') \<Longrightarrow> grows (fst ` set results) rs rs'"
  by (rule same_core_left[OF capture_step_start_core apply_results_grows])

lemma run_one_grows: "run_one ex node step replay parent bs rs = (r, rs') \<Longrightarrow> grows {node} rs rs'"
proof -
  assume run: "run_one ex node step replay parent bs rs = (r, rs')"
  obtain ok fs where act: "take_activation ex node (st_failure rs) = (ok, fs)" by fastforce
  obtain b sh where branch: "run_branch ex (static_invocation node step replay parent (\<not> ok) (st_state rs)) (new_branch, st_shared rs) = (b, sh)"
    by fastforce
  let ?rs = "rs\<lparr>st_failure := fs, st_shared := sh\<rparr>"
  have core: "same_core rs ?rs" by (simp add: same_core_def)
  from run have "grows {node} ?rs rs'"
    unfolding run_one_def act branch prod.case Let_def
    by (auto split: phase.splits sum.splits prod.splits option.splits if_splits simp del: apply_results.simps
        dest!: captured_results_grow pause_on_node_interrupt_core intro: same_core_grows)
  then show ?thesis by (rule same_core_left[OF core])
qed

lemma zip_names: "fst ` set (zip xs ys) \<subseteq> set xs"
  by (auto dest: set_zip_leftD)

lemma conclude_parallel_grows: "conclude_parallel ex rdy step parent bstate bs rs = (r, rs') \<Longrightarrow> grows (set rdy) rs rs'"
  unfolding conclude_parallel_def Let_def
  by (auto split: prod.splits sum.splits option.splits if_splits
      dest!: captured_results_grow pause_parallel_core intro: same_core_grows grows_mono[OF _ zip_names])

lemma run_parallel_grows: "run_parallel ex sch rdy step replay parent bstate rs = (r, rs') \<Longrightarrow> grows (set rdy) rs rs'"
proof -
  assume run: "run_parallel ex sch rdy step replay parent bstate rs = (r, rs')"
  show ?thesis
  proof (cases "\<exists>node. rdy = [node]")
    case True
    with run show ?thesis by (auto simp: run_parallel_def split: prod.splits sum.splits dest!: run_one_grows)
  next
    case False
    obtain limited fs where act: "take_activations ex rdy (st_failure rs) = (limited, fs)" by fastforce
    obtain bs sh where group: "run_group ex (map (\<lambda>(node, lim). static_invocation node step replay parent lim (st_state rs)) (zip rdy limited))
        sch (st_shared rs) = (bs, sh)" by fastforce
    from run False have "conclude_parallel ex rdy step parent bstate bs (rs\<lparr>st_failure := fs, st_shared := sh\<rparr>) = (r, rs')"
      unfolding run_parallel_def act prod.case group by (auto split: list.splits)
    from conclude_parallel_grows[OF this] show ?thesis
      by (rule same_core_left[rotated]) (simp add: same_core_def)
  qed
qed

definition send_names :: "string set" where
  "send_names = range (\<lambda>target. target @ ''[send]'')"

lemma send_zip_names: "fst ` set (zip (map (\<lambda>s. target_node s @ ''[send]'') sends) vs) \<subseteq> send_names"
  by (auto simp: send_names_def dest!: set_zip_leftD)

lemma conclude_sends_grows: "conclude_sends ex sends step parent ss bs rs = (r, rs') \<Longrightarrow> grows send_names rs rs'"
  unfolding conclude_sends_def Let_def
  by (auto split: prod.splits sum.splits option.splits if_splits
      dest!: apply_results_grows pause_sends_core intro: same_core_grows grows_mono[OF _ send_zip_names])

lemma run_sends_grows: "run_sends ex sch sends step replay parent ss rs = (r, rs') \<Longrightarrow> grows send_names rs rs'"
proof -
  assume run: "run_sends ex sch sends step replay parent ss rs = (r, rs')"
  show ?thesis
  proof (cases "rs' = rs")
    case True
    then show ?thesis by (simp add: same_core_grows)
  next
    case False
    with run obtain bs fs sh where "conclude_sends ex sends step parent ss bs (rs\<lparr>st_failure := fs, st_shared := sh\<rparr>) = (r, rs')"
      by (auto simp: run_sends_def Let_def split: if_splits prod.splits)
    from conclude_sends_grows[OF this] show ?thesis
      by (rule same_core_left[rotated]) (simp add: same_core_def)
  qed
qed

end
