(* ===== verification/NG_RunLaws.thy ===== *)
theory NG_RunLaws
  imports NG_Run NG_Typed
begin

text \<open>
  What a run of the engine guarantees: a completed step is where a resume continues, gated nodes do not run
  before their gate is answered, a failure exit ends the run, and the channels keep their declarations.
\<close>

section \<open>The metadata of a checkpoint between steps\<close>

definition owned_ok :: "json \<Rightarrow> bool" where
  "owned_ok md \<longleftrightarrow> (is_null md \<or> is_object md) \<and>
     (is_null (json_get md ''_neograph'') \<or> is_object (json_get md ''_neograph''))"

lemma set_owned_ok: "owned_ok md \<Longrightarrow> owned_ok (set_owned key v md)"
  by (auto simp: owned_ok_def set_owned_def simp del: json_set.simps json_get.simps)

lemma set_owned_get:
  "owned_ok md \<Longrightarrow> json_get (json_get (set_owned key v md) ''_neograph'') key = v"
  "owned_ok md \<Longrightarrow> k \<noteq> key \<Longrightarrow> json_get (json_get (set_owned key v md) ''_neograph'') k = json_get (json_get md ''_neograph'') k"
  by (auto simp: owned_ok_def set_owned_def simp del: json_set.simps json_get.simps)

lemma set_owned_option_ok: "owned_ok md \<Longrightarrow> owned_ok (set_owned_option key v md)"
  by (simp add: set_owned_option_def set_owned_ok split: option.splits)

lemma put_visits_ok: "owned_ok md \<Longrightarrow> owned_ok (put_visits counts md)"
  by (simp add: put_visits_def set_owned_ok)

lemma owned_ok_null [simp]: "owned_ok JNull"
  by (simp add: owned_ok_def)

lemma without_node_visits_ok: "is_object md \<Longrightarrow> owned_ok (without_node_visits md)"
  by (cases md) (auto simp: owned_ok_def without_node_visits_def Let_def map_of_eq_None_iff split: option.splits if_splits
      dest!: map_of_SomeD)

lemma object_member: "is_object (json_get j k) \<Longrightarrow> is_object j \<and> json_contains j k"
  by (cases j) (auto split: option.splits)

lemma restore_visits_stored:
  "visits (restore_visits md fs) =
     (if is_object (json_get (json_get md ''_neograph'') ''node_visits'')
      then fold read_visit (json_items (json_get (json_get md ''_neograph'') ''node_visits'')) [] else [])"
proof (cases "is_object (json_get (json_get md ''_neograph'') ''node_visits'')")
  case True
  from object_member[OF this] have "is_object (json_get md ''_neograph'')" "json_contains (json_get md ''_neograph'') ''node_visits''"
    by simp_all
  with object_member[OF this(1)] True show ?thesis by (simp add: restore_visits_def Let_def)
qed (auto simp: restore_visits_def Let_def)

lemma restore_visits_cong:
  "json_get (json_get md ''_neograph'') ''node_visits'' = json_get (json_get md' ''_neograph'') ''node_visits'' \<Longrightarrow>
     visits (restore_visits md fs) = visits (restore_visits md' fs)"
  by (simp add: restore_visits_stored)

lemma without_node_visits_get: "json_get (json_get (without_node_visits md) ''_neograph'') ''node_visits'' = JNull"
proof -
  have "json_get (JObject m) ''node_visits'' = JNull" if "\<forall>p \<in> set m. fst p \<noteq> ''node_visits''" for m
  proof -
    from that have "map_of m ''node_visits'' = None" by (auto simp: map_of_eq_None_iff)
    then show ?thesis by simp
  qed
  then show ?thesis
    by (auto simp: without_node_visits_def Let_def split: option.splits if_splits dest!: map_of_SomeD)
qed

lemma counters_json: "counters_ok vs \<Longrightarrow> is_null (encode_visits vs) \<longleftrightarrow> vs = []"
proof -
  assume "counters_ok vs"
  then have "distinct (map fst vs)" "list_all (\<lambda>(n, c). 0 < c) vs"
    by (auto simp: counters_ok_def smap_ok_distinct list_all_iff)
  from encode_visits_closed[OF this] show ?thesis by simp
qed

lemma metadata_ok: "owned_ok (checkpoint_metadata_for ex timing rs)"
  by (auto simp: checkpoint_metadata_for_def Let_def put_visits_ok set_owned_option_ok without_node_visits_ok split: option.splits)

text \<open>The visit counters of a run are read back from the metadata of a checkpoint saved between steps.\<close>

lemma metadata_visits:
  assumes "co_has_store (ex_coordinator ex)" "st_failure rs = Some f" "counters_ok (visits f)"
  shows "visits (restore_visits (checkpoint_metadata_for ex BetweenSteps rs) fs) = visits f"
proof -
  define md where "md = set_owned_option ''failure_exit'' (st_failure_exit rs)
      (set_owned_option ''barrier_stalled'' (st_barrier_stall rs) (put_visits (step_start_visits f) JNull))"
  have ok: "owned_ok md" by (simp add: md_def set_owned_option_ok put_visits_ok)
  have closed: "checkpoint_metadata_for ex BetweenSteps rs =
      (if visits f \<noteq> [] then put_visits (visits_json f) md
       else if is_object md \<and> json_contains md ''_neograph'' \<and> is_object (json_get md ''_neograph'') \<and>
          json_contains (json_get md ''_neograph'') ''node_visits'' then without_node_visits md else md)"
    using assms counters_json[OF assms(3)] by (simp add: checkpoint_metadata_for_def md_def Let_def visits_json_def)
  show ?thesis
  proof (cases "visits f = []")
    case True
    have "json_get (json_get (checkpoint_metadata_for ex BetweenSteps rs) ''_neograph'') ''node_visits'' = JNull \<or>
        \<not> is_object (json_get (json_get (checkpoint_metadata_for ex BetweenSteps rs) ''_neograph'') ''node_visits'')"
      using True object_member[of "json_get md ''_neograph''" "''node_visits''"] object_member[of md "''_neograph''"]
      unfolding closed by (auto simp: without_node_visits_get)
    with True show ?thesis by (auto simp: restore_visits_stored)
  next
    case False
    have "json_get (json_get (checkpoint_metadata_for ex BetweenSteps rs) ''_neograph'') ''node_visits'' = encode_visits (visits f)"
      using False set_owned_get(1)[OF ok] counters_json[OF assms(3)] unfolding closed by (simp add: put_visits_def visits_json_def)
    from read_back_metadata[OF assms(3) False this] show ?thesis by simp
  qed
qed

lemma guarded_metadata_get:
  assumes "with_ephemeral_guard md st = Inr md'" "is_null md \<or> is_object md"
  shows "json_get md' ''_neograph'' = json_get md ''_neograph''"
  using assms by (cases md) (auto simp: with_ephemeral_guard_def Let_def split: if_splits)

section \<open>A completed step is where a resume continues\<close>

text \<open>What a store needs to load a checkpoint of this state again.\<close>

definition loadable :: "('n, 'm) runner \<Rightarrow> 'm graph_state \<Rightarrow> bool" where
  "loadable ru st \<longleftrightarrow> smap_ok (channels st) \<and> snapshot_entries st \<noteq> [] \<and>
     foreign_members (fst (en_provider (ex_engine (ru_executor ru)) st))"

abbreviation lp_store :: "('n, 'm) run_state \<Rightarrow> ('n, 'm) memory_checkpoints" where
  "lp_store lp \<equiv> sh_store (st_shared (lp_step lp))"

lemma commit_loads:
  assumes "co_enabled co" "commit_super_step co provider new_id now st b s = (Inr cp, s')" "new_id \<noteq> []"
    "0 \<le> sb_step b" "sb_step b < int_max" "smap_ok (channels st)" "snapshot_entries st \<noteq> []"
    "foreign_members (fst (provider st))" "get_writes s' (co_thread_id co) new_id = []"
  shows "\<exists>rc md. load_for_resume co oc s' = Some (Inr rc) \<and> with_ephemeral_guard (sb_metadata b) st = Inr md \<and>
     have_cp rc \<and> rc_checkpoint_id rc = new_id \<and> cp_id cp = new_id \<and> rc_metadata rc = md \<and> rc_start_step rc = sb_step b + 1 \<and>
     rc_phase rc = Completed \<and> rc_next_nodes rc = sb_next_nodes b \<and> rc_replay_results rc = [] \<and>
     rc_barrier_state rc = sb_barrier_state b"
proof -
  obtain s1 where cp: "boundary_checkpoint co provider new_id now st Completed b = Inr cp"
    and save: "save_checkpoint cp s = (None, s1)" and s': "s' = clear_pending_writes co (sb_parent_id b) s1"
    using assms(1,2) by (auto simp: commit_super_step_def split: sum.splits prod.splits option.splits)
  obtain md where md: "with_ephemeral_guard (sb_metadata b) st = Inr md"
    using cp by (auto simp: boundary_checkpoint_def)
  have fields: "cp_id cp = new_id" "cp_thread_id cp = co_thread_id co" "cp_metadata cp = md"
    "cp_next_nodes cp = sb_next_nodes b" "cp_barrier_state cp = sb_barrier_state b" "cp_step cp = sb_step b"
    "cp_interrupt_phase cp = Completed" "cp_channel_values cp = extended_snapshot st (fst (provider st))"
    using cp by (auto simp: boundary_checkpoint_def md capture_state_def extended_snapshot_def)
  have "snapshot_shape (cp_channel_values cp) (snapshot_entries st)"
    unfolding fields by (rule extended_snapshot_shape[OF assms(8,6,7)])
  from save_then_load[OF this, of s] save obtain vals where
    "load_latest s1 (co_thread_id co) = Inr (Some (cp\<lparr>cp_channel_values := vals\<rparr>))"
    by (auto simp: fields)
  then have "load_latest s' (co_thread_id co) = Inr (Some (cp\<lparr>cp_channel_values := vals\<rparr>))"
    by (simp add: s' clear_keeps_store(1))
  from completed_context[OF assms(1) this, of oc] assms(3-5,9) md show ?thesis by (simp add: fields)
qed

lemma commit_step_loads:
  assumes "ru_enabled ru" "commit_step ru nexts step tag lp = (Inr cp, lp')" "cp_id cp \<noteq> []" "0 \<le> step" "step < int_max"
    "loadable ru (st_state (lp_step lp))" "get_writes (lp_store lp') (co_thread_id (ru_coordinator ru)) (cp_id cp) = []"
  shows "\<exists>rc. load_for_resume (ru_coordinator ru) oc (lp_store lp') = Some (Inr rc) \<and> have_cp rc \<and>
     rc_checkpoint_id rc = cp_id cp \<and> rc_start_step rc = step + 1 \<and> rc_phase rc = Completed \<and> rc_next_nodes rc = nexts \<and>
     rc_replay_results rc = [] \<and> rc_barrier_state rc = lp_barriers lp \<and>
     json_get (rc_metadata rc) ''_neograph'' = json_get (between_steps ru lp) ''_neograph''"
proof -
  let ?ex = "ru_executor ru" and ?rs = "lp_step lp" and ?sh = "st_shared (lp_step lp)"
  let ?id = "ex_new_id ?ex (sh_tick ?sh)"
  let ?tag = "if st_trace ?rs = [] then tag @ int_to_string step else List.last (st_trace ?rs)"
  let ?b = "step_boundary_of ?tag nexts step (lp_last_cp lp) (lp_barriers lp) (between_steps ru lp)"
  obtain s' where commit: "commit_super_step (ru_coordinator ru) (en_provider (ex_engine ?ex)) ?id
      (ex_clock ?ex (sh_tick ?sh)) (st_state ?rs) ?b (sh_store ?sh) = (Inr cp, s')" and lp': "lp_store lp' = s'"
    using assms(2) by (auto simp: commit_step_def ru_coordinator_def Let_def split: prod.splits)
  have id: "cp_id cp = ?id"
    using commit assms(1) by (auto simp: commit_super_step_def boundary_checkpoint_def capture_state_def ru_enabled_def
        split: sum.splits prod.splits option.splits)
  have null: "is_null (between_steps ru lp) \<or> is_object (between_steps ru lp)"
    using metadata_ok[of "ru_executor ru" BetweenSteps "lp_step lp"] by (simp add: between_steps_def owned_ok_def)
  have b: "sb_step ?b = step" "sb_next_nodes ?b = nexts" "sb_barrier_state ?b = lp_barriers lp" "sb_metadata ?b = between_steps ru lp"
    by (simp_all add: step_boundary_of_def)
  from commit_loads[OF assms(1)[unfolded ru_enabled_def] commit, of oc] assms(3-7) id lp'
  obtain rc md where rc: "load_for_resume (ru_coordinator ru) oc s' = Some (Inr rc)"
    "with_ephemeral_guard (between_steps ru lp) (st_state ?rs) = Inr md" "have_cp rc" "rc_checkpoint_id rc = ?id"
    "rc_metadata rc = md" "rc_start_step rc = step + 1" "rc_phase rc = Completed" "rc_next_nodes rc = nexts"
    "rc_replay_results rc = []" "rc_barrier_state rc = lp_barriers lp"
    unfolding b loadable_def by auto
  with guarded_metadata_get[OF rc(2) null] id lp' show ?thesis by auto
qed

lemma commit_step_fields:
  assumes "commit_step ru nexts step tag lp = (r, lp')"
  shows "lp' = lp\<lparr>lp_step := (lp_step lp)\<lparr>st_shared := st_shared (lp_step lp')\<rparr>\<rparr>"
  using assms by (auto simp: commit_step_def Let_def split: prod.splits)

lemma offer_safe_point_fields:
  assumes "offer_safe_point ru step cp lp = (e, lp')"
  shows "lp' = lp\<lparr>lp_safe := lp_safe lp'\<rparr>"
  using assms by (auto simp: offer_safe_point_def Let_def split: option.splits prod.splits sum.splits if_splits)

lemma continues_from_plan:
  assumes "super_step ru g step lp = (Continue, lp')"
  obtains results sent lp1 plan lp2 where "held_node ru g step (lp_ready lp) = None"
    "execute_step ru step (begin_step lp) = (Inr (results, sent), lp1)"
    "plan_after ru results sent lp1 = Inr (plan, lp2)" "end_step ru step plan lp2 = (Continue, lp')"
  using assms
  by (auto simp: super_step_def stop_on_budget_def pause_before_def pause_in_step_def Let_def
      split: if_splits option.splits prod.splits sum.splits)

lemma continues_committed:
  assumes "end_step ru step plan lp = (Continue, lp')" "ru_enabled ru"
  obtains cp lp2 where "commit_step ru (checkpoint_nodes (ready plan)) step ''__step__'' (lp\<lparr>lp_ready := ready plan\<rparr>) = (Inr cp, lp2)"
    "lp_step lp' = (lp_step lp)\<lparr>st_shared := st_shared (lp_step lp2)\<rparr>" "lp_last_cp lp' = cp_id cp" "lp_replay lp' = []"
    "lp_ready lp' = ready plan" "lp_barriers lp' = lp_barriers lp"
proof -
  let ?lp = "lp\<lparr>lp_ready := ready plan\<rparr>"
  obtain cp lp2 where commit: "commit_step ru (checkpoint_nodes (ready plan)) step ''__step__'' ?lp = (Inr cp, lp2)"
    and offer: "offer_safe_point ru step cp (lp2\<lparr>lp_last_cp := cp_id cp, lp_replay := []\<rparr>) = (Continue, lp')"
    using assms by (auto simp: end_step_def pause_after_def Let_def split: option.splits prod.splits sum.splits)
  have lp2: "lp2 = ?lp\<lparr>lp_step := (lp_step lp)\<lparr>st_shared := st_shared (lp_step lp2)\<rparr>\<rparr>"
    using commit_step_fields[OF commit] by simp
  have lp': "lp' = (lp2\<lparr>lp_last_cp := cp_id cp, lp_replay := []\<rparr>)\<lparr>lp_safe := lp_safe lp'\<rparr>"
    by (rule offer_safe_point_fields[OF offer])
  have l: "lp_step lp2 = (lp_step lp)\<lparr>st_shared := st_shared (lp_step lp2)\<rparr>" "lp_ready lp2 = ready plan" "lp_barriers lp2 = lp_barriers lp"
    using arg_cong[OF lp2, of lp_step] arg_cong[OF lp2, of lp_ready] arg_cong[OF lp2, of lp_barriers] by simp_all
  have l': "lp_step lp' = lp_step lp2" "lp_ready lp' = lp_ready lp2" "lp_barriers lp' = lp_barriers lp2" "lp_last_cp lp' = cp_id cp"
    "lp_replay lp' = []"
    using arg_cong[OF lp', of lp_step] arg_cong[OF lp', of lp_ready] arg_cong[OF lp', of lp_barriers]
      arg_cong[OF lp', of lp_last_cp] arg_cong[OF lp', of lp_replay] by simp_all
  from that[OF commit] l l' show thesis by simp
qed

text \<open>C1: A super-step that the loop completes is durable: a resume of the thread, whenever the process stops after
it, starts at the next step with exactly the nodes the step planned (the end node when it planned none),
with the barrier signals the loop holds, from the checkpoint the loop continues from, with nothing to
replay and with the visit counters the loop holds.\<close>

theorem completed_step_resumes:
  assumes "super_step ru g step lp = (Continue, lp')" and "ru_enabled ru" and "0 \<le> step" "step < int_max"
    and "lp_last_cp lp' \<noteq> []" and "loadable ru (st_state (lp_step lp'))"
    and "get_writes (lp_store lp') (co_thread_id (ru_coordinator ru)) (lp_last_cp lp') = []"
  shows "\<exists>rc. load_for_resume (ru_coordinator ru) oc (lp_store lp') = Some (Inr rc) \<and> have_cp rc \<and>
     rc_start_step rc = step + 1 \<and> rc_next_nodes rc = checkpoint_nodes (lp_ready lp') \<and>
     rc_barrier_state rc = lp_barriers lp' \<and> rc_checkpoint_id rc = lp_last_cp lp' \<and> rc_phase rc = Completed \<and>
     rc_replay_results rc = [] \<and> lp_replay lp' = [] \<and>
     (\<forall>f fs. st_failure (lp_step lp') = Some f \<longrightarrow> counters_ok (visits f) \<longrightarrow> visits (restore_visits (rc_metadata rc) fs) = visits f)"
proof -
  obtain results sent lp1 plan lp2 where plan: "end_step ru step plan lp2 = (Continue, lp')"
    using continues_from_plan[OF assms(1)] by metis
  obtain cp lp3 where commit: "commit_step ru (checkpoint_nodes (ready plan)) step ''__step__'' (lp2\<lparr>lp_ready := ready plan\<rparr>) = (Inr cp, lp3)"
    and rs: "lp_step lp' = (lp_step lp2)\<lparr>st_shared := st_shared (lp_step lp3)\<rparr>"
    and l: "lp_last_cp lp' = cp_id cp" "lp_replay lp' = []" "lp_ready lp' = ready plan" "lp_barriers lp' = lp_barriers lp2"
    by (rule continues_committed[OF plan assms(2)])
  from commit_step_loads[OF assms(2) commit _ assms(3,4), of oc] assms(5-7) rs l
  obtain rc where rc: "load_for_resume (ru_coordinator ru) oc (lp_store lp') = Some (Inr rc)" "have_cp rc"
    "rc_checkpoint_id rc = lp_last_cp lp'" "rc_start_step rc = step + 1" "rc_phase rc = Completed"
    "rc_next_nodes rc = checkpoint_nodes (lp_ready lp')" "rc_replay_results rc = []" "rc_barrier_state rc = lp_barriers lp'"
    "json_get (rc_metadata rc) ''_neograph'' = json_get (between_steps ru (lp2\<lparr>lp_ready := ready plan\<rparr>)) ''_neograph''"
    by auto
  have "visits (restore_visits (rc_metadata rc) fs) = visits f"
    if f: "st_failure (lp_step lp') = Some f" "counters_ok (visits f)" for f fs
  proof -
    have "co_has_store (ex_coordinator (ru_executor ru))" using assms(2) by (simp add: ru_enabled_def co_enabled_def ru_coordinator_def)
    from metadata_visits[OF this _ f(2), of "lp_step lp2" fs] f(1) rs
    have "visits (restore_visits (between_steps ru (lp2\<lparr>lp_ready := ready plan\<rparr>)) fs) = visits f" by (simp add: between_steps_def)
    with restore_visits_cong[of "rc_metadata rc" "between_steps ru (lp2\<lparr>lp_ready := ready plan\<rparr>)" fs] rc(9) show ?thesis by simp
  qed
  with rc l(2) show ?thesis by auto
qed

section \<open>What a run executes\<close>

text \<open>A node whose gate does not hold the run: it has none, or a resume answered it.\<close>

definition gate_answered :: "resumed_gates \<Rightarrow> string \<Rightarrow> bool" where
  "gate_answered g node \<longleftrightarrow>
     (case rg_start_step g of
        None \<Rightarrow> False
      | Some step \<Rightarrow> (rg_answers_gate g \<and> rg_gate_answers g = []) \<or>
          make_static_task_id step node \<in> fst ` set (rg_gate_answers g))"

definition may_run :: "('n, 'm) runner \<Rightarrow> resumed_gates \<Rightarrow> string set" where
  "may_run ru g = {node. ru_enabled ru \<longrightarrow> node \<in> set (ru_interrupt_before ru) \<longrightarrow> gate_answered g node}"

lemma held_none: "held_node ru g step rdy = None \<Longrightarrow> set rdy \<subseteq> may_run ru g"
  by (auto simp: held_node_def may_run_def gate_answered_def gate_open_def resumed_step_def find_None_iff split: if_splits)

lemma save_between_core:
  "save_between ru phase node nexts step md lp = (r, lp') \<Longrightarrow> same_core (lp_step lp) (lp_step lp') \<and> lp_ready lp' = lp_ready lp"
  by (auto simp: save_between_def split: prod.splits dest: save_step_core)

lemma commit_step_core: "commit_step ru nexts step tag lp = (r, lp') \<Longrightarrow> same_core (lp_step lp) (lp_step lp')"
  by (auto simp: commit_step_def same_core_def Let_def split: prod.splits)

lemma run_ready_grows:
  assumes "run_ready ru step lp = (r, lp')"
  shows "grows (set (lp_ready lp)) (lp_step lp) (lp_step lp') \<and> lp_ready lp' = lp_ready lp"
proof (cases "\<exists>node. lp_ready lp = [node]")
  case True
  with assms show ?thesis by (auto simp: run_ready_def split: prod.splits dest!: run_one_grows)
next
  case False
  obtain e lp1 where anchor: "(if ru_enabled ru \<and> lp_last_cp lp = []
      then save_between ru Before kFirstStepAnchorNode (lp_ready lp) step (between_steps ru lp) lp
      else (Inr (lp_last_cp lp), lp)) = (e, lp1)" by fastforce
  then have core: "same_core (lp_step lp) (lp_step lp1)" "lp_ready lp1 = lp_ready lp"
    using save_between_core by (fastforce split: if_splits)+
  from assms False have "(case e of Inl e \<Rightarrow> (Inl (exn_of_error e), lp1)
      | Inr cp \<Rightarrow> (case run_parallel (ru_executor ru) (ru_schedule ru step) (lp_ready lp) step (lp_replay lp) cp (lp_barriers lp)
                       (lp_step lp1) of (r, rs) \<Rightarrow> (r, lp1\<lparr>lp_step := rs, lp_last_cp := cp\<rparr>))) = (r, lp')"
    unfolding run_ready_def anchor by (auto split: list.splits)
  with core show ?thesis
    by (auto split: sum.splits prod.splits dest!: run_parallel_grows intro: same_core_left same_core_grows)
qed

lemma run_pending_sends_grows:
  assumes "run_pending_sends ru step results lp = (r, lp')"
  shows "grows send_names (lp_step lp) (lp_step lp')"
proof (cases "collect_sends (lp_ready lp) results = []")
  case True
  with assms show ?thesis by (simp add: run_pending_sends_def same_core_grows)
next
  case False
  let ?ss = "\<lparr>ss_ready = lp_ready lp, ss_results = results, ss_barrier_state = lp_barriers lp\<rparr>"
  obtain e rs1 where anchor: "(if ru_enabled ru \<and> lp_last_cp lp = []
      then save_send_step_anchor (ru_executor ru) ?ss kFirstStepAnchorNode step (lp_step lp)
      else (Inr (lp_last_cp lp), lp_step lp)) = (e, rs1)" by fastforce
  then have core: "same_core (lp_step lp) rs1"
    by (cases "ru_enabled ru \<and> lp_last_cp lp = []") (auto dest: save_send_step_anchor_core)
  show ?thesis
  proof (cases e)
    case (Inl x)
    with assms False anchor core show ?thesis by (auto simp: run_pending_sends_def Let_def intro: same_core_grows)
  next
    case (Inr cp)
    obtain r2 rs2 where sent: "run_sends (ru_executor ru) (ru_send_schedule ru step) (collect_sends (lp_ready lp) results) step
        (lp_replay lp) cp (Some ?ss) rs1 = (r2, rs2)" by fastforce
    from assms False anchor Inr sent have "lp_step lp' = rs2" by (auto simp: run_pending_sends_def Let_def)
    with same_core_left[OF core run_sends_grows[OF sent]] show ?thesis by simp
  qed
qed

lemma execute_step_grows:
  assumes "execute_step ru step lp = (r, lp')"
  shows "grows (set (lp_ready lp) \<union> send_names) (lp_step lp) (lp_step lp')"
proof -
  obtain e lp1 where first: "run_ready ru step lp = (e, lp1)" by fastforce
  note grow = run_ready_grows[OF first]
  show ?thesis
  proof (cases e)
    case (Inl x)
    with assms first grow show ?thesis by (auto simp: execute_step_def intro: grows_mono)
  next
    case (Inr results)
    obtain e2 lp2 where "run_pending_sends ru step results lp1 = (e2, lp2)" by fastforce
    with assms first Inr have "grows send_names (lp_step lp1) (lp_step lp')"
      by (auto simp: execute_step_def split: sum.splits dest: run_pending_sends_grows)
    with grow show ?thesis by (blast intro: grows_trans)
  qed
qed

lemma complete_node_folds:
  "same_core rs (fold (\<lambda>(h, r) rs. if h then rs else complete_node routing (node_name r) rs) ps rs)"
proof (induction ps arbitrary: rs)
  case (Cons p ps)
  have "same_core rs (if fst p then rs else complete_node routing (node_name (snd p)) rs)"
    by (simp add: complete_node_def same_core_def)
  from same_core_trans[OF this Cons.IH] show ?case by (simp add: case_prod_beta)
qed simp

lemma complete_nodes_core: "same_core rs (complete_nodes ru handled routings rs)"
  unfolding complete_nodes_def by (cases "ex_routing (ru_executor ru)") (simp_all only: option.case complete_node_folds same_core_refl split: if_split, simp)

lemma plan_after_core:
  assumes "plan_after ru results sent lp = Inr (plan, lp')"
  shows "same_core (lp_step lp) (lp_step lp')"
proof -
  let ?rs = "complete_nodes ru (handled_flags ru results sent) (unified_routings (lp_ready lp) results sent) (lp_step lp)"
  have "same_core (lp_step lp) ?rs" by (rule complete_nodes_core)
  moreover have "\<exists>x. lp_step lp' = ?rs\<lparr>st_barrier_stall := x\<rparr>" using assms by (auto simp: plan_after_def Let_def)
  ultimately show ?thesis by (auto simp: same_core_def)
qed

lemma end_step_core:
  assumes "end_step ru step plan lp = (e, lp')"
  shows "same_core (lp_step lp) (lp_step lp')"
proof (cases "find (\<lambda>n. n \<in> set (ru_interrupt_after ru) \<and> ru_enabled ru) (lp_ready lp)")
  case None
  show ?thesis
  proof (cases "ru_enabled ru")
    case True
    obtain c lp2 where commit: "commit_step ru (checkpoint_nodes (ready plan)) step ''__step__'' (lp\<lparr>lp_ready := ready plan\<rparr>) = (c, lp2)"
      by fastforce
    have core: "same_core (lp_step lp) (lp_step lp2)" using commit_step_core[OF commit] by simp
    show ?thesis
    proof (cases c)
      case (Inr cp)
      then have "offer_safe_point ru step cp (lp2\<lparr>lp_last_cp := cp_id cp, lp_replay := []\<rparr>) = (e, lp')"
        using assms None True commit by (simp add: end_step_def Let_def)
      from arg_cong[OF offer_safe_point_fields[OF this], of lp_step] core show ?thesis by simp
    qed (use assms None True commit core in \<open>auto simp: end_step_def\<close>)
  qed (use assms None in \<open>auto simp: end_step_def\<close>)
next
  case (Some node)
  with assms show ?thesis
    by (auto simp: end_step_def pause_after_def split: prod.splits sum.splits dest: save_between_core)
qed

lemma begin_step_core: "same_core (lp_step lp) (lp_step (begin_step lp))" "lp_ready (begin_step lp) = lp_ready lp"
  by (simp_all add: begin_step_def same_core_def Let_def)

lemma pause_in_step_grows:
  assumes "pause_in_step ru (length (st_trace (lp_step lp0))) e lp = (r, lp')" "grows names (lp_step lp0) (lp_step lp)"
  shows "grows names (lp_step lp0) (lp_step lp')"
proof -
  have "lp_step lp' = (lp_step lp)\<lparr>st_trace := take (length (st_trace (lp_step lp0))) (st_trace (lp_step lp)), st_interrupts := []\<rparr>"
    using assms(1) by (auto simp: pause_in_step_def Let_def split: sum.splits)
  with assms(2) show ?thesis by (auto simp: grows_def)
qed

lemma super_step_grows:
  assumes "super_step ru g step lp = (e, lp')"
  shows "grows (may_run ru g \<union> send_names) (lp_step lp) (lp_step lp')"
proof -
  consider "ru_budget_exhausted ru step" | "lp' = lp" | node where "pause_before ru g step node lp = (e, lp')"
    | r lp1 where "held_node ru g step (lp_ready lp) = None" "execute_step ru step (begin_step lp) = (r, lp1)"
        "(case r of Inl x \<Rightarrow> if is_interrupt x then pause_in_step ru (length (st_trace (lp_step lp))) x lp1 else (Throw x, lp1)
          | Inr (results, sent) \<Rightarrow> (case plan_after ru results sent lp1 of
                  Inl e \<Rightarrow> (Throw (exn_of_error e), lp1) | Inr (plan, lp2) \<Rightarrow> end_step ru step plan lp2)) = (e, lp')"
    using assms by (auto simp: super_step_def split: if_splits option.splits prod.splits)
  then show ?thesis
  proof cases
    case 1
    then have "same_core (lp_step lp) (lp_step lp')" using assms
      by (auto simp: super_step_def stop_on_budget_def Let_def split: prod.splits sum.splits if_splits dest: commit_step_core)
    then show ?thesis by (rule same_core_grows)
  next
    case 2
    then show ?thesis by (simp add: same_core_grows)
  next
    case 3
    then have "same_core (lp_step lp) (lp_step lp')"
      by (auto simp: pause_before_def Let_def split: prod.splits sum.splits dest: save_between_core)
    then show ?thesis by (rule same_core_grows)
  next
    case 4
    have grow: "grows (may_run ru g \<union> send_names) (lp_step lp) (lp_step lp1)"
      using execute_step_grows[OF 4(2)] held_none[OF 4(1)] begin_step_core[of lp]
      by (auto intro: same_core_left grows_mono)
    have tail: "same_core (lp_step lp1) (lp_step lp') \<or> (\<exists>x. pause_in_step ru (length (st_trace (lp_step lp))) x lp1 = (e, lp'))"
      using 4(3) by (auto split: sum.splits prod.splits if_splits intro: same_core_trans
          dest: plan_after_core end_step_core)
    then show ?thesis using pause_in_step_grows grow by (metis (no_types, lifting) Un_absorb grows_trans same_core_grows)
  qed
qed

lemma run_loop_grows:
  "run_loop ru g n step lp = (r, lp') \<Longrightarrow> grows (may_run ru g \<union> send_names) (lp_step lp) (lp_step lp')"
proof (induction n arbitrary: step lp)
  case (Suc n)
  show ?case
  proof (cases "step > int_max")
    case True
    with Suc.prems show ?thesis by (simp add: same_core_grows)
  next
    case False
    obtain e lp1 where one: "super_step ru g step lp = (e, lp1)" by fastforce
    note grow = super_step_grows[OF one]
    show ?thesis
    proof (cases e)
      case Continue
      with Suc one False have "grows (may_run ru g \<union> send_names) (lp_step lp1) (lp_step lp')" by simp
      with grow show ?thesis using grows_trans by fastforce
    qed (use Suc.prems one False grow in auto)
  qed
qed (auto simp: same_core_grows)


section \<open>Channels of a run\<close>

lemma run_loop_typed:
  "typed_as ds (st_state (lp_step lp)) \<Longrightarrow> typed_as ds (st_state (lp_step (snd (run_loop ru g n step lp))))"
  using run_loop_grows[of ru g n step lp] by (cases "run_loop ru g n step lp") (simp add: grows_def)

lemma write_provider_messages_typed:
  assumes "write_provider_messages ru cfg st = Inr st'" "typed_as ds st"
  shows "typed_as ds st'"
  using assms apply_writes_typed[OF assms(2), of "en_codec (ex_engine (ru_executor ru))" "[the (cf_provider_messages cfg)]"]
  by (auto simp: write_provider_messages_def split: option.splits prod.splits simp del: apply_writes.simps)

lemma start_fresh_typed:
  assumes "start_fresh ru cfg sh = Inr (lp, step)" "\<not> cf_resume_if_exists cfg" "init_state (ex_engine (ru_executor ru)) = Inr st0"
  shows "typed_as (declared st0) (st_state (lp_step lp))"
proof -
  obtain st2 st3 where st: "apply_input (ex_engine (ru_executor ru)) (cf_input cfg) st0 = (None, st2)"
    "write_provider_messages ru cfg st2 = Inr st3" "st_state (lp_step lp) = st3"
    using assms by (auto simp: start_fresh_def continue_thread_def first_state_def Let_def split: if_splits prod.splits option.splits)
  have "typed_as (declared st0) st2"
    using apply_input_typed[OF init_state_typed[OF assms(3)], of "ex_engine (ru_executor ru)" "cf_input cfg"] st(1) by simp
  from write_provider_messages_typed[OF st(2) this] st(3) show ?thesis by simp
qed

text \<open>C11: The channels of a run keep their type. However a fresh run ends (by completing, pausing, stopping or
throwing in its loop), its state has exactly the channels the graph declares, each with its declared
reducer and lifecycle, and no channel holds more elements than its retention allows.\<close>

theorem run_keeps_channel_types:
  assumes "run_graph ru cfg request sh = (r, Some lp)" and "\<not> cf_resume_if_exists cfg"
    and "init_state (ex_engine (ru_executor ru)) = Inr st0"
  shows "typed_as (declared st0) (st_state (lp_step lp))"
proof -
  obtain safe lp0 step lp1 where start: "start_fresh ru cfg sh = Inr (lp0, step)"
    and loop: "enter_loop ru no_gates cfg safe (lp0, step) = (r, lp1)" and lp: "lp = leave_run lp1"
    using assms(1) by (auto simp: run_graph_def from_start_def split: sum.splits prod.splits)
  have "typed_as (declared st0) (st_state (lp_step (lp0\<lparr>lp_safe := safe\<rparr>)))"
    using start_fresh_typed[OF start assms(2,3)] by simp
  with loop run_loop_typed[of "declared st0" "lp0\<lparr>lp_safe := safe\<rparr>" ru no_gates "nat (max (cf_max_steps cfg) 0)" step]
  have "typed_as (declared st0) (st_state (lp_step lp1))" by (auto simp: enter_loop_def Let_def split: if_splits)
  then show ?thesis by (simp add: lp leave_run_def)
qed

section \<open>How a run ends\<close>

lemma continues_fields:
  assumes "end_step ru step plan lp = (Continue, lp')"
  shows "lp_ready lp' = ready plan \<and> st_failure_exit (lp_step lp') = st_failure_exit (lp_step lp)"
proof (cases "ru_enabled ru")
  case True
  show ?thesis by (rule continues_committed[OF assms True]) simp
next
  case False
  with assms show ?thesis by (auto simp: end_step_def pause_after_def Let_def split: option.splits prod.splits sum.splits)
qed

lemma exit_leaves_nothing:
  assumes "super_step ru g step lp = (Continue, lp')" "st_failure_exit (lp_step lp') = Some j"
  shows "lp_ready lp' = []"
proof -
  obtain results sent lp1 plan lp2 where plan: "plan_after ru results sent lp1 = Inr (plan, lp2)" "end_step ru step plan lp2 = (Continue, lp')"
    using continues_from_plan[OF assms(1)] by metis
  from plan(1) have "st_failure_exit (lp_step lp2) \<noteq> None \<Longrightarrow> ready plan = []"
    by (auto simp: plan_after_def exit_plan_def Let_def)
  with continues_fields[OF plan(2)] assms(2) show ?thesis by force
qed

lemma runtime_snapshot_owned:
  assumes "map_of (ex_runtime_part ex st) ''_neograph'' = None"
  shows "is_object (runtime_snapshot ex st)" "json_get (runtime_snapshot ex st) ''_neograph'' = JNull"
  using assms by (auto simp: runtime_snapshot_def channel_snapshot_def Let_def map_add_def split: option.splits)

lemma set_owned_option_get:
  assumes "owned_ok md"
  shows "json_get (json_get (set_owned_option key (Some v) md) ''_neograph'') key = v"
    "k \<noteq> key \<Longrightarrow> json_get (json_get (set_owned_option key x md) ''_neograph'') k = json_get (json_get md ''_neograph'') k"
  using set_owned_get[OF assms] by (simp_all add: set_owned_option_def split: option.splits)

lemma ended_loop:
  assumes "lp_ready lp = []" "\<not> ru_budget_exhausted ru (step + 1)" "\<not> ru_cancelled ru (step + 1)" "step < int_max"
  shows "run_loop ru g n (step + 1) lp = (Inr (finish_run ru lp), lp)"
proof (cases n)
  case (Suc m)
  have "super_step ru g (step + 1) lp = (Break, lp)" using assms(1-3) by (simp add: super_step_def)
  then show ?thesis using assms(4) Suc by simp
qed simp


text \<open>C40: A run that stops on its budget after its last step forgets that it had ended. When the budget is found
exhausted after a step that planned nothing, the run reports a plain completion, but the checkpoint it
leaves has no continuation instead of the end node, and the next resume of the thread starts the graph
again from its beginning.\<close>

theorem budget_stop_forgets_the_end:
  assumes "super_step ru g step lp = (Return r, lp')" and "ru_budget_exhausted ru step" "lp_ready lp = []"
    and "ru_enabled ru" and "0 \<le> step" "step < int_max" and "lp_last_cp lp' \<noteq> []"
    and "loadable ru (st_state (lp_step lp))"
    and "get_writes (lp_store lp') (co_thread_id (ru_coordinator ru)) (lp_last_cp lp') = []"
  shows "\<not> res_interrupted r \<and> res_output r = runtime_snapshot (ru_executor ru) (st_state (lp_step lp')) \<and>
     resume_graph ru cfg request v None (st_shared (lp_step lp')) = Some (run_graph ru cfg request (st_shared (lp_step lp')))"
proof -
  obtain cp lp1 where commit: "commit_step ru [] step ''__budget__'' lp = (Inr cp, lp1)"
    and lp': "lp' = lp1\<lparr>lp_last_cp := cp_id cp\<rparr>" and r: "r = (report ru lp')\<lparr>res_checkpoint_id := lp_last_cp lp'\<rparr>"
    using assms(1-4) by (auto simp: super_step_def stop_on_budget_def Let_def split: prod.splits sum.splits)
  from commit_step_loads[OF assms(4) commit _ assms(5,6,8), of "ex_outcome_codec (ru_executor ru)"] assms(7,9) lp'
  obtain rc where rc: "load_for_resume (ru_coordinator ru) (ex_outcome_codec (ru_executor ru)) (lp_store lp') = Some (Inr rc)"
    "have_cp rc" "rc_next_nodes rc = []" by auto
  have "co_has_store (ru_coordinator ru)" "co_thread_id (ru_coordinator ru) \<noteq> []"
    using assms(4) by (simp_all add: ru_enabled_def co_enabled_def)
  with rc r show ?thesis by (simp add: resume_graph_def report_def)
qed

section \<open>An example\<close>

text \<open>A graph of two nodes in sequence whose second node is a failure exit.\<close>

definition exit_runner :: "(unit, unit) runner" where
  "exit_runner =
     \<lparr>ru_executor = flaky_executor\<lparr>ex_routing := Some (build [] [] [(''b'', ''NG.Demo'')])\<rparr>,
      ru_scheduler = \<lparr>edges = [\<lparr>edge_from = START_NODE, edge_to = ''act''\<rparr>, \<lparr>edge_from = ''act'', edge_to = ''b''\<rparr>,
          \<lparr>edge_from = ''b'', edge_to = END_NODE\<rparr>], conditional_edges = [], barrier_specs = [], join_specs = [],
        failure_targets = [], registry = \<lparr>reg_condition = (\<lambda>_. None), reg_condition_spec = (\<lambda>_. None)\<rparr>\<rparr>,
      ru_interrupt_before = [], ru_interrupt_after = [], ru_generation = None, ru_budget_exhausted = (\<lambda>step. step = 7),
      ru_cancelled = (\<lambda>_. False), ru_safe_point_asked = (\<lambda>_. False), ru_cancelled_at_commit = (\<lambda>_. False),
      ru_schedule = (\<lambda>_. []), ru_send_schedule = (\<lambda>_. []), ru_final_response = (\<lambda>_. None), ru_tool_calls_pending = (\<lambda>_. False)\<rparr>"

definition plain_config :: "unit run_config" where
  "plain_config = \<lparr>cf_input = JNull, cf_max_steps = 5, cf_resume_if_exists = False, cf_provider_messages = None,
     cf_resume_interrupt_id = []\<rparr>"

definition at_b :: "(unit, unit) run_state" where
  "at_b = (first_state exit_runner (counter_state (JUint 0) 0) None act_shared)\<lparr>lp_ready := [''b''], lp_last_cp := ''c1''\<rparr>"

definition b_exit :: json where
  "b_exit = JObject [(''node'', JString ''b''), (''code'', JString ''NG.Demo'')]"

definition resumable_end :: "(unit, unit) runner \<Rightarrow> (unit, unit) run_state \<Rightarrow> bool" where
  "resumable_end ru lp \<longleftrightarrow> lp_last_cp lp \<noteq> [] \<and> loadable ru (st_state (lp_step lp)) \<and>
     get_writes (lp_store lp) (co_thread_id (ru_coordinator ru)) (lp_last_cp lp) = []"

lemma exit_enabled: "ru_enabled exit_runner"
  by code_simp

lemma at_b_step:
  "case super_step exit_runner no_gates 1 at_b of
     (Continue, lp) \<Rightarrow> resumable_end exit_runner lp \<and> lp_ready lp = [] \<and> st_failure_exit (lp_step lp) = Some b_exit
   | _ \<Rightarrow> False"
  by code_simp

lemma at_b_continues:
  obtains lp where "super_step exit_runner no_gates 1 at_b = (Continue, lp)" "resumable_end exit_runner lp" "lp_ready lp = []"
    "st_failure_exit (lp_step lp) = Some b_exit"
  using at_b_step by (auto split: prod.splits loop_end.splits)

theorem completed_step_resumes_witness:
  "\<exists>lp rc. super_step exit_runner no_gates 1 at_b = (Continue, lp) \<and>
     load_for_resume (ru_coordinator exit_runner) refusing_codec (lp_store lp) = Some (Inr rc) \<and>
     rc_start_step rc = 2 \<and> rc_next_nodes rc = [END_NODE]"
proof -
  obtain lp where lp: "super_step exit_runner no_gates 1 at_b = (Continue, lp)" "resumable_end exit_runner lp" "lp_ready lp = []"
    by (rule at_b_continues)
  from completed_step_resumes[OF lp(1) exit_enabled, of refusing_codec] lp show ?thesis
    by (auto simp: resumable_end_def int_max_def checkpoint_nodes_def)
qed


lemma end_step_budget:
  "case super_step exit_runner no_gates 7 (at_b\<lparr>lp_ready := []\<rparr>) of (Return r, lp) \<Rightarrow> resumable_end exit_runner lp | _ \<Rightarrow> False"
  by code_simp

theorem budget_stop_forgets_the_end_witness:
  "\<exists>r lp. super_step exit_runner no_gates 7 (at_b\<lparr>lp_ready := []\<rparr>) = (Return r, lp) \<and>
     resume_graph exit_runner plain_config None JNull None (st_shared (lp_step lp)) =
       Some (run_graph exit_runner plain_config None (st_shared (lp_step lp)))"
proof -
  let ?lp = "at_b\<lparr>lp_ready := []\<rparr>"
  obtain r lp where run: "super_step exit_runner no_gates 7 ?lp = (Return r, lp)" "resumable_end exit_runner lp"
    using end_step_budget by (auto split: prod.splits loop_end.splits)
  have "ru_budget_exhausted exit_runner 7" "lp_ready ?lp = []" by (simp_all add: exit_runner_def)
  moreover have "loadable exit_runner (st_state (lp_step ?lp))" by code_simp
  ultimately show ?thesis
    using budget_stop_forgets_the_end[OF run(1) _ _ exit_enabled, of plain_config None JNull] run
    by (auto simp: resumable_end_def int_max_def)
qed

definition gated_runner :: "(unit, unit) runner" where
  "gated_runner = exit_runner\<lparr>ru_interrupt_before := [''b'']\<rparr>"

definition b_answered :: resumed_gates where
  "b_answered = \<lparr>rg_start_step = Some 1, rg_answers_gate = True, rg_gate_answers = [(''s1:b'', None)]\<rparr>"

lemma gated_runs:
  "ru_enabled gated_runner" "''b'' \<in> set (ru_interrupt_before gated_runner)" "''b'' \<notin> set (st_trace (lp_step at_b))"
  "''b'' \<in> set (st_trace (lp_step (snd (run_loop gated_runner b_answered 2 1 at_b))))"
  "st_trace (lp_step (snd (run_loop gated_runner no_gates 2 1 at_b))) = []"
  by code_simp+


lemma plain_run: "case run_graph exit_runner plain_config None act_shared of (_, Some lp) \<Rightarrow> True | _ \<Rightarrow> False"
  by code_simp

theorem run_keeps_channel_types_witness:
  "\<exists>r lp. run_graph exit_runner plain_config None act_shared = (r, Some lp) \<and>
     typed_as (declared (counter_state (JUint 0) 0 :: unit graph_state)) (st_state (lp_step lp))"
proof -
  obtain r lp where run: "run_graph exit_runner plain_config None act_shared = (r, Some lp)"
    using plain_run by (auto split: prod.splits option.splits)
  have "\<not> cf_resume_if_exists plain_config" by (simp add: plain_config_def)
  moreover have "init_state (ex_engine (ru_executor exit_runner)) = Inr (counter_state (JUint 0) 0)"
    using counter_init by (simp add: exit_runner_def flaky_executor_def)
  ultimately show ?thesis using run_keeps_channel_types[OF run] run by blast
qed

end
