(* ===== verification/Spec2Isabelle.thy ===== *)
theory Spec2Isabelle
  imports NG_Scheduler NG_Channels NG_Classify NG_Failure NG_SafePoint NG_Framing NG_Store NG_Cache
    NG_Checkpoints NG_Engine NG_Soundness NG_Text NG_Attempts NG_SuperStep NG_Stall NG_Run NG_Typed NG_RunLaws
begin

text \<open>
  \<^bold>\<open>NeoGraph: a verification of the graph core.\<close> NeoGraph runs agent graphs in super-steps: every
  ready node of a step runs (concurrently when there are several), their results are applied to the
  channels of the state in a fixed order, the scheduler plans the next ready nodes from the edges,
  conditions, barriers, joins and failure edges, and a checkpoint of the completed step is committed
  from which a run that stopped can be resumed. This library models that core
  (\<open>src/src/core\<close> and the headers under \<open>src/include/neograph/graph\<close>) and proves what it promises.

  \<^bold>\<open>Parts, theories and sources.\<close>
  \<^item> \<open>NG_Prelude\<close>: exceptions as values, \<open>std::map\<close> and \<open>std::set\<close> as sorted lists with the contract
    \<open>ordered_map\<close>. \<open>NG_Json\<close>: the JSON values of \<open>json.cpp\<close>. \<open>NG_Types\<close>: the records of \<open>types.h\<close> and
    \<open>checkpoint.h\<close>. \<open>NG_Framing\<close>: length-prefixed keys and task ids (\<open>graph_executor.cpp\<close>).
  \<^item> \<open>NG_Channels\<close> (\<open>graph_state.cpp\<close>): the channels with their reducers, retention, versions, provider
    histories, snapshots and guarded restores. \<open>apply_writes\<close> is \<open>GraphState::apply_writes\<close>, and so on by name.
  \<^item> \<open>NG_Scheduler\<close> (\<open>scheduler.cpp\<close>): \<open>plan_impl\<close> and the overloads of \<open>plan_next_step\<close>.
  \<^item> \<open>NG_Classify\<close> (\<open>tool_failure.cpp\<close>, \<open>step_outcome\<close> of \<open>graph_executor.cpp\<close>), \<open>NG_Failure\<close> (\<open>failure_routing.cpp\<close>),
    \<open>NG_SafePoint\<close> (\<open>graph_safe_point.cpp\<close>), \<open>NG_Store\<close> (\<open>store.cpp\<close>), \<open>NG_Cache\<close> (\<open>node_cache.cpp\<close>),
    \<open>NG_Text\<close> (\<open>text_safety.cpp\<close>).
  \<^item> \<open>NG_Checkpoints\<close> (\<open>graph_checkpoint.cpp\<close>): the in-memory store and the storage envelope.
    \<open>NG_Resume\<close> (\<open>graph_coordinator.cpp\<close>): committing a step, recording results, and collecting what a
    resume replays.
  \<^item> \<open>NG_Engine\<close> (\<open>graph_engine.cpp\<close>): initial state, input, resumed state, \<open>get_state\<close>, \<open>update_state\<close>,
    \<open>fork\<close> and the guard between runs and administration.
  \<^item> \<open>NG_Attempts\<close> (\<open>graph_executor.cpp\<close>, \<open>AttemptsAccess::run\<close>): one invocation of a node as a state machine
    (\<open>branch_step\<close>): replay, visit limit, cache, attempts, retries, handled failures and the pending write.
  \<^item> \<open>NG_SuperStep\<close> (\<open>graph_executor.cpp\<close>, \<open>run_context_runtime.cpp\<close>): \<open>run_one\<close>, \<open>run_parallel\<close>, \<open>run_sends\<close>
    and the checkpoints of a pause. The invocations of a fan-out share the store, the cache and the retry
    ceiling (\<open>shared\<close>); their interleaving is an explicit schedule.
  \<^item> \<open>NG_Stall\<close> and \<open>NG_Run\<close> (\<open>graph_engine.cpp\<close>): the report on barriers that a stopped run left unfilled,
    and the super-step loop of \<open>execute_graph_async\<close> (\<open>super_step\<close>, \<open>run_loop\<close>) with what a fresh run and a
    resume start from: gates before and after nodes, the anchor checkpoint, sends, planning, failure
    exits, the commit of a step and the capture of a safe point. \<open>NG_Typed\<close> and \<open>NG_RunLaws\<close> hold what the parts of
    a super-step and a whole run keep and promise.
  \<^item> \<open>NG_Bits\<close>, \<open>NG_Skeleton\<close>, \<open>NG_Explore\<close>, \<open>NG_Reach\<close>, \<open>NG_Soundness\<close> (\<open>graph_soundness.cpp\<close>): the static
    soundness check: the control skeleton of a graph, its super-steps on bit vectors, the exploration
    of its states, and the dead ends, stalls and traces the check reports.

  \<^bold>\<open>How state and effects are modelled.\<close> A class is a record, an operation returns the updated record,
  an exception is a value (\<open>error\<close>, and \<open>exn\<close> with its cause chain in the executor). Integers that may wrap
  are 64-bit words. Node bodies, conditions, custom reducers, the provider part of a snapshot, the
  codec of provider messages, the JSON printer, the clock, the id source, cancellation and the random
  jitter are parameters; the hypotheses on them are named where a theorem uses them.

  \<^bold>\<open>What is shown.\<close>
  \<^item> Scheduling: a planning call fires exactly the targets whose gate is filled; a barrier fires only when
    complete and does fire once complete; the shortcut without gates is equivalent.
  \<^item> Durability: a completed super-step is where a resume continues, in the store and through the loop; a
    finished task is replayed after a crash instead of run again; the walk over the pause chain ends and
    takes the newest rows; a fork replays what its source would; an update keeps the place of a thread.
  \<^item> Execution: attempts are bounded and consecutive, only safe failures are retried, the order in which
    branches progress does not matter, gated nodes do not run unanswered, a failure exit ends the run,
    and every run leaves exactly the declared channels within their retention.
  \<^item> Bounds and refinement: the cache keeps its bound and refines an abstract least-recently-used cache; the
    exploration is exact and bounded; retention keeps the newest elements.
  \<^item> Text: the decoder accepts exactly well-formed UTF-8, and sanitized text is well formed and safe.

  \<^bold>\<open>Loops, fuel and bounds.\<close> The walk of a resume over parent checkpoints (\<open>collect_loop\<close>) may not end on a
  store that answers arbitrarily, so it is a partial function; a property of \<open>NG_Resume\<close> shows that it returns,
  because no checkpoint is visited twice. The exploration terminates by the number of states left below
  its cap; a trace back to the start has the number of states as fuel, which suffices because a parent
  has a smaller index. \<open>run_branch\<close> terminates by the attempts left. Counting recorded attempts has the
  number of replayed rows as fuel, which \<open>resumed_first_attempt_exact\<close> justifies. The search for a stall path
  terminates by the nodes not yet reached, and reading the path back has the number of reached nodes as
  fuel; the exactness property of \<open>NG_Stall\<close> shows that both suffice. \<open>run_loop\<close> recurses on the super-steps left.
  A schedule may be any list: branches it leaves unfinished run to their end.

  \<^bold>\<open>Interfaces.\<close> The locales \<open>ordered_map\<close> (\<open>std::map\<close>), \<open>keyed_map\<close> (maps addressed by framed keys: the cache
  and the store), \<open>namespaced_store\<close> (the abstract store class), \<open>finite_checkpoints\<close> (what the walk of a resume
  needs of a checkpoint store) and \<open>index_set\<close> (sets of node indices as words) are interpreted on the
  model's own definitions; the component lemmas rest on their facts.

  \<^bold>\<open>Not modelled.\<close> Threads with a managed token budget (a lease protocol with an external journal),
  stateful subgraphs and their write journal, event callbacks and hooks, the coroutine machinery that
  binds cancellation to an executor, the livelock analysis of the soundness check, the compiler and
  loader of graph definitions, the durable program runtime above the engine, the model providers, the
  network protocols (MCP, A2A, ACP, HTTP) and the database backends of the checkpoint store. The
  database backends and protocols are input and output over third-party libraries; the program runtime
  is a second system of its own on top of the engine.
\<close>

end
